(* ===== verification/Prelude.thy ===== *)
theory Prelude
  imports Complex_Main "HOL-Library.AList" "HOL-Library.List_Lexorder" "HOL-Library.Char_ord"
begin

text \<open>
  Shared vocabulary of the development: the parts of the Rust standard library that the
  modelled modules use, and the generic lemmas the component theories share.

  \<^item> \<open>ordering\<close> is \<^verbatim>\<open>std::cmp::Ordering\<close>, \<open>cmp\<close> is \<^verbatim>\<open>Ord::cmp\<close>.
  \<^item> \<open>f64\<close> is the type \<^verbatim>\<open>NotNan<f64>\<close> up to its own equality: the two infinities and the
    finite doubles as exact rationals. \<^verbatim>\<open>NotNan\<close> compares and hashes \<open>-0.0\<close> and
    \<open>0.0\<close> as equal, so both are \<open>Fin 0\<close>.
  \<^item> \<open>i64_as_f64\<close> is the cast \<^verbatim>\<open>n as f64\<close>: round to nearest, ties to even.
  \<^item> \<open>f64_as_i64\<close> is the cast \<^verbatim>\<open>f as i64\<close>, which truncates and saturates.
  \<^item> A \<^verbatim>\<open>HashMap\<close> is an association list with distinct keys, read by \<open>map_of\<close> and written
    by \<open>AList.update\<close> and \<open>AList.delete\<close>; its list order is one iteration order. A
    \<^verbatim>\<open>HashSet\<close> that is iterated over is a list without duplicates.
\<close>

named_theorems range_simps \<open>equations that evaluate the value-domain range algebra\<close>
named_theorems index_simps \<open>equations that evaluate the constraint index\<close>

type_synonym lsn = nat
type_synonym fingerprint = nat
type_synonym oid = nat

subsection \<open>Three-way comparison\<close>

datatype ordering = OrdLess | OrdEqual | OrdGreater

definition cmp :: "'a::linorder \<Rightarrow> 'a \<Rightarrow> ordering" where
  "cmp a b = (if a < b then OrdLess else if a = b then OrdEqual else OrdGreater)"

fun ordering_reverse :: "ordering \<Rightarrow> ordering" where
  "ordering_reverse OrdLess = OrdGreater"
| "ordering_reverse OrdEqual = OrdEqual"
| "ordering_reverse OrdGreater = OrdLess"

lemma cmp_less [simp]: "cmp a b = OrdLess \<longleftrightarrow> a < b"
  and cmp_equal [simp]: "cmp a b = OrdEqual \<longleftrightarrow> a = b"
  and cmp_greater [simp]: "cmp a b = OrdGreater \<longleftrightarrow> b < a"
  by (auto simp: cmp_def)

lemma cmp_reverse: "ordering_reverse (cmp a b) = cmp b a"
  by (auto simp: cmp_def)

lemma ordering_reverse_simps [simp]:
  "ordering_reverse x = OrdLess \<longleftrightarrow> x = OrdGreater"
  "ordering_reverse x = OrdEqual \<longleftrightarrow> x = OrdEqual"
  "ordering_reverse x = OrdGreater \<longleftrightarrow> x = OrdLess"
  by (cases x; simp)+

subsection \<open>Doubles without NaN\<close>

datatype f64 = NegInf | Fin rat | PosInf

fun f64_le :: "f64 \<Rightarrow> f64 \<Rightarrow> bool" where
  "f64_le NegInf _ = True"
| "f64_le _ PosInf = True"
| "f64_le (Fin a) (Fin b) = (a \<le> b)"
| "f64_le _ _ = False"

instantiation f64 :: linorder
begin
definition less_eq_f64 :: "f64 \<Rightarrow> f64 \<Rightarrow> bool" where
  "less_eq_f64 = f64_le"
definition less_f64 :: "f64 \<Rightarrow> f64 \<Rightarrow> bool" where
  "less_f64 a b = (f64_le a b \<and> a \<noteq> b)"
instance
proof
  fix x y z :: f64
  show "(x < y) = (x \<le> y \<and> \<not> y \<le> x)"
    by (cases x; cases y) (auto simp: less_eq_f64_def less_f64_def)
  show "x \<le> x" by (cases x) (auto simp: less_eq_f64_def)
  show "x \<le> y \<Longrightarrow> y \<le> z \<Longrightarrow> x \<le> z"
    by (cases x; cases y; cases z) (auto simp: less_eq_f64_def)
  show "x \<le> y \<Longrightarrow> y \<le> x \<Longrightarrow> x = y"
    by (cases x; cases y) (auto simp: less_eq_f64_def)
  show "x \<le> y \<or> y \<le> x"
    by (cases x; cases y) (auto simp: less_eq_f64_def)
qed
end

lemma f64_less_eq_simps [simp]:
  "NegInf \<le> x" "x \<le> PosInf" "Fin a \<le> Fin b \<longleftrightarrow> a \<le> b"
  "\<not> Fin a \<le> NegInf" "\<not> PosInf \<le> Fin a" "\<not> PosInf \<le> NegInf"
  by (cases x; simp add: less_eq_f64_def)+

lemma f64_less_simps [simp]:
  "Fin a < Fin b \<longleftrightarrow> a < b" "NegInf < Fin a" "Fin a < PosInf" "NegInf < PosInf"
  "\<not> x < NegInf" "\<not> PosInf < x"
  by (cases x; simp add: less_le)+

subsection \<open>Integer casts\<close>

definition i64_min :: int where "i64_min = - (2 ^ 63)"
definition i64_max :: int where "i64_max = 2 ^ 63 - 1"

definition i64_range :: "int \<Rightarrow> bool" where
  "i64_range n \<longleftrightarrow> i64_min \<le> n \<and> n \<le> i64_max"

text \<open>Bits needed to write a magnitude, and the division by \<open>2 ^ s\<close> rounded half to even.\<close>

fun bit_len :: "nat \<Rightarrow> nat" where
  "bit_len n = (if n = 0 then 0 else Suc (bit_len (n div 2)))"

declare bit_len.simps [simp del]

definition round_half_even :: "nat \<Rightarrow> nat \<Rightarrow> nat" where
  "round_half_even s n =
     (let q = n div 2 ^ s; r = n mod 2 ^ s
      in if 2 * r > 2 ^ s \<or> (2 * r = 2 ^ s \<and> odd q) then q + 1 else q)"

text \<open>A double has a 53-bit significand: a longer magnitude loses its low bits.\<close>

definition f64_round_nat :: "nat \<Rightarrow> nat" where
  "f64_round_nat n = (let s = bit_len n - 53 in round_half_even s n * 2 ^ s)"

definition i64_as_f64 :: "int \<Rightarrow> f64" where
  "i64_as_f64 n =
     Fin (if n < 0 then - of_nat (f64_round_nat (nat (- n))) else of_nat (f64_round_nat (nat n)))"

fun f64_floor :: "f64 \<Rightarrow> f64" where
  "f64_floor (Fin r) = Fin (of_int \<lfloor>r\<rfloor>)"
| "f64_floor x = x"

fun f64_as_i64 :: "f64 \<Rightarrow> int" where
  "f64_as_i64 NegInf = i64_min"
| "f64_as_i64 PosInf = i64_max"
| "f64_as_i64 (Fin r) =
     (let t = (if r < 0 then \<lceil>r\<rceil> else \<lfloor>r\<rfloor>) in max i64_min (min i64_max t))"

lemma bit_len_0 [simp]: "bit_len 0 = 0"
  by (simp add: bit_len.simps)

lemma bit_len_upper: "n < 2 ^ bit_len n"
proof (induction n rule: bit_len.induct)
  case (1 n)
  then show ?case by (cases "n = 0") (auto simp: bit_len.simps [of n])
qed

lemma bit_len_lower: "0 < n \<Longrightarrow> 2 ^ (bit_len n - 1) \<le> n"
proof (induction n rule: bit_len.induct)
  case (1 n)
  show ?case
  proof (cases "n div 2 = 0")
    case True
    with "1.prems" have "n = 1" by auto
    then show ?thesis by (simp add: bit_len.simps)
  next
    case False
    then have ih: "2 ^ (bit_len (n div 2) - 1) \<le> n div 2" using "1.IH" "1.prems" by auto
    from False have "0 < bit_len (n div 2)" by (subst bit_len.simps) simp
    then have "bit_len n - 1 = Suc (bit_len (n div 2) - 1)"
      using "1.prems" by (simp add: bit_len.simps [of n])
    then have "2 ^ (bit_len n - 1) = 2 * 2 ^ (bit_len (n div 2) - 1)" by simp
    also have "\<dots> \<le> 2 * (n div 2)" using ih by simp
    finally show ?thesis by simp
  qed
qed

lemma bit_len_mono: "a \<le> b \<Longrightarrow> bit_len a \<le> bit_len b"
proof (induction a arbitrary: b rule: bit_len.induct)
  case (1 a)
  then show ?case
    by (cases "a = 0"; cases "b = 0") (auto simp: bit_len.simps [of a] bit_len.simps [of b])
qed

lemma round_half_even_bounds:
  "n div 2 ^ s \<le> round_half_even s n" "round_half_even s n \<le> n div 2 ^ s + 1"
  by (auto simp: round_half_even_def Let_def)

lemma round_half_even_0 [simp]: "round_half_even 0 n = n"
  by (simp add: round_half_even_def)

lemma round_half_even_mono:
  assumes "a \<le> b"
  shows "round_half_even s a \<le> round_half_even s b"
proof (cases "a div 2 ^ s = b div 2 ^ s")
  case True
  have "a mod 2 ^ s \<le> b mod 2 ^ s"
    using assms True by (metis div_mult_mod_eq add_le_cancel_left)
  with True show ?thesis by (auto simp: round_half_even_def Let_def)
next
  case False
  with assms have "a div 2 ^ s + 1 \<le> b div 2 ^ s"
    by (metis Suc_eq_plus1 Suc_leI div_le_mono le_neq_implies_less)
  then show ?thesis
    using round_half_even_bounds [where n = a and s = s]
      round_half_even_bounds [where n = b and s = s] by linarith
qed

lemma f64_round_nat_upper: "f64_round_nat n \<le> 2 ^ (max 53 (bit_len n))"
proof -
  let ?s = "bit_len n - 53"
  have "n < 2 ^ (max 53 (bit_len n))"
    using bit_len_upper [of n] by (rule less_le_trans) simp
  moreover have split: "max 53 (bit_len n) = 53 + ?s" by simp
  ultimately have "n < 2 ^ 53 * 2 ^ ?s" by (simp only: power_add)
  then have "n div 2 ^ ?s < 2 ^ 53" by (simp add: less_mult_imp_div_less)
  then have "round_half_even ?s n \<le> 2 ^ 53"
    using round_half_even_bounds(2) [of ?s n] by linarith
  then have "round_half_even ?s n * 2 ^ ?s \<le> 2 ^ 53 * 2 ^ ?s" by simp
  then show ?thesis by (simp only: f64_round_nat_def Let_def split power_add)
qed

lemma f64_round_nat_lower:
  assumes "53 < bit_len n"
  shows "2 ^ (bit_len n - 1) \<le> f64_round_nat n"
proof -
  let ?s = "bit_len n - 53"
  from assms have "0 < n" by (auto simp: bit_len.simps intro: gr0I)
  then have "2 ^ (bit_len n - 1) \<le> n" by (rule bit_len_lower)
  moreover have "bit_len n - 1 = 52 + ?s" using assms by simp
  ultimately have "2 ^ 52 * 2 ^ ?s \<le> n" by (simp only: power_add)
  then have "2 ^ 52 \<le> n div 2 ^ ?s" by (simp add: less_eq_div_iff_mult_less_eq)
  then have "2 ^ 52 \<le> round_half_even ?s n"
    using round_half_even_bounds(1) [of n ?s] by linarith
  then have "2 ^ 52 * 2 ^ ?s \<le> round_half_even ?s n * 2 ^ ?s" by simp
  with \<open>bit_len n - 1 = 52 + ?s\<close> show ?thesis
    by (simp only: f64_round_nat_def Let_def power_add)
qed

lemma f64_round_nat_mono:
  assumes "a \<le> b"
  shows "f64_round_nat a \<le> f64_round_nat b"
proof (cases "bit_len a - 53 = bit_len b - 53")
  case True
  then show ?thesis
    using round_half_even_mono [OF assms] by (simp add: f64_round_nat_def Let_def)
next
  case False
  with bit_len_mono [OF assms] have lt: "bit_len a < bit_len b" "53 < bit_len b" by auto
  have "f64_round_nat a \<le> 2 ^ (max 53 (bit_len a))" by (rule f64_round_nat_upper)
  also have "\<dots> \<le> 2 ^ (bit_len b - 1)" using lt by (intro power_increasing) auto
  also have "\<dots> \<le> f64_round_nat b" using lt by (intro f64_round_nat_lower) simp
  finally show ?thesis .
qed

lemma i64_as_f64_mono: "a \<le> b \<Longrightarrow> i64_as_f64 a \<le> i64_as_f64 b"
proof -
  assume le: "a \<le> b"
  have neg: "b < 0 \<Longrightarrow> f64_round_nat (nat (- b)) \<le> f64_round_nat (nat (- a))"
    using le by (intro f64_round_nat_mono) simp
  have pos: "0 \<le> a \<Longrightarrow> f64_round_nat (nat a) \<le> f64_round_nat (nat b)"
    using le by (intro f64_round_nat_mono) simp
  show ?thesis
    using le neg pos
    by (auto simp: i64_as_f64_def not_less intro: order_trans [of _ 0])
qed

lemma i64_as_f64_exact:
  assumes "\<bar>n\<bar> < 2 ^ 53"
  shows "i64_as_f64 n = Fin (of_int n)"
proof -
  have small: "f64_round_nat m = m" if "m < 2 ^ 53" for m
  proof (cases "m = 0")
    case True
    then show ?thesis by (simp add: f64_round_nat_def Let_def)
  next
    case False
    then have "2 ^ (bit_len m - 1) < (2::nat) ^ 53"
      using bit_len_lower [of m] that by linarith
    then have "bit_len m - 1 < 53" by (rule power_less_imp_less_exp [rotated]) simp
    then show ?thesis by (simp add: f64_round_nat_def)
  qed
  from assms have "nat (- n) < 2 ^ 53" "nat n < 2 ^ 53" by auto
  then show ?thesis by (auto simp: i64_as_f64_def small)
qed

subsection \<open>Lists, options and association lists\<close>

lemma those_Some_iff: "those xs = Some ys \<longleftrightarrow> xs = map Some ys"
proof (induction xs arbitrary: ys)
  case Nil
  then show ?case by auto
next
  case (Cons x xs)
  then show ?case by (cases x; cases ys) (auto split: option.splits)
qed

lemma those_None_iff: "those xs = None \<longleftrightarrow> None \<in> set xs"
  by (induction xs) (auto split: option.splits)

lemma those_member:
  assumes "those (map f s) = Some ks" "v \<in> set s"
  shows "f v \<in> Some ` set ks"
proof -
  from assms(2) have "f v \<in> set (map f s)" by simp
  also have "\<dots> = Some ` set ks" using assms(1) by (simp add: those_Some_iff)
  finally show ?thesis .
qed

lemma map_of_Some_iff:
  "distinct (map fst m) \<Longrightarrow> map_of m k = Some v \<longleftrightarrow> (k, v) \<in> set m"
  by (rule map_of_eq_Some_iff)

text \<open>
  The idiom \<^verbatim>\<open>map.entry(k).or_insert_with(..)\<close> followed by a change of the slot, and
  \<^verbatim>\<open>entry(k).or_default().push(v)\<close> for maps into vectors.
\<close>

definition entry_update :: "'v \<Rightarrow> ('v \<Rightarrow> 'v) \<Rightarrow> 'k \<Rightarrow> ('k \<times> 'v) list \<Rightarrow> ('k \<times> 'v) list" where
  "entry_update d f k m =
     AList.update k (f (case map_of m k of None \<Rightarrow> d | Some v \<Rightarrow> v)) m"

definition entry_push :: "'k \<Rightarrow> 'v \<Rightarrow> ('k \<times> 'v list) list \<Rightarrow> ('k \<times> 'v list) list" where
  "entry_push k v = entry_update [] (\<lambda>vs. vs @ [v]) k"

lemma map_of_update: "map_of (AList.update k v m) k' = (if k = k' then Some v else map_of m k')"
  by (simp add: update_conv')

lemma map_of_delete: "map_of (AList.delete k m) k' = (if k = k' then None else map_of m k')"
  by (simp add: delete_conv')

lemma map_of_entry_update [simp]:
  "map_of (entry_update d f k m) k' =
     (if k = k' then Some (f (case map_of m k of None \<Rightarrow> d | Some v \<Rightarrow> v)) else map_of m k')"
  by (simp add: entry_update_def map_of_update)

lemma distinct_entry_update [simp]:
  "distinct (map fst m) \<Longrightarrow> distinct (map fst (entry_update d f k m))"
  by (simp add: entry_update_def distinct_update)

lemma map_of_entry_push [simp]:
  "map_of (entry_push k v m) k' =
     (if k = k' then Some ((case map_of m k of None \<Rightarrow> [] | Some vs \<Rightarrow> vs) @ [v])
      else map_of m k')"
  by (simp add: entry_push_def)

lemma distinct_entry_push [simp]:
  "distinct (map fst m) \<Longrightarrow> distinct (map fst (entry_push k v m))"
  by (simp add: entry_push_def)

lemma distinct_fst_filter:
  "distinct (map fst m) \<Longrightarrow> distinct (map fst (filter P m))"
  by (induction m) auto

end
