(* ===== verification/Literals.thy ===== *)
theory Literals
  imports Prelude
begin

text \<open>
  The leaf types of the query AST (\<^verbatim>\<open>src/query/ast/types/expr.rs\<close>) and the cast
  whitelists (\<^verbatim>\<open>src/query/cast.rs\<close>).

  Constructors carry a short prefix where the Rust enum variants of different enums share a
  name: \<open>LInteger\<close> is \<^verbatim>\<open>LiteralValue::Integer\<close>, \<open>CText\<close> is \<^verbatim>\<open>CastTarget::Text\<close>.
  Strings are lists of ASCII characters, so \<^verbatim>\<open>char::is_whitespace\<close> is the ASCII part of the
  Unicode property. Derived \<^verbatim>\<open>PartialEq\<close> is HOL equality.
\<close>

subsection \<open>Literals and operators\<close>

datatype literal_value =
    LString string
  | LStringWithCast string string
  | LInteger int
  | LFloat f64
  | LBoolean bool
  | LNull
  | LNullWithCast string
  | LParameter string
  | LArray "literal_value list" string

datatype unary_op = UNot | UIsNull | UIsNotNull | UIsTrue | UIsNotTrue | UIsFalse | UIsNotFalse

datatype binary_op =
    And | Or
  | Equal | NotEqual | LessThan | LessThanOrEqual | GreaterThan | GreaterThanOrEqual
  | Like | ILike | NotLike | NotILike

datatype multi_op =
    MIn | MNotIn | MBetween | MNotBetween | MBetweenSymmetric | MNotBetweenSymmetric
  | MAny binary_op | MAll binary_op

fun is_logical :: "binary_op \<Rightarrow> bool" where
  "is_logical op = (op = And \<or> op = Or)"

fun is_comparison :: "binary_op \<Rightarrow> bool" where
  "is_comparison op \<longleftrightarrow>
     op \<in> {Equal, NotEqual, LessThan, LessThanOrEqual, GreaterThan, GreaterThanOrEqual}"

fun op_flip :: "binary_op \<Rightarrow> binary_op option" where
  "op_flip Equal = Some Equal"
| "op_flip NotEqual = Some NotEqual"
| "op_flip LessThan = Some GreaterThan"
| "op_flip LessThanOrEqual = Some GreaterThanOrEqual"
| "op_flip GreaterThan = Some LessThan"
| "op_flip GreaterThanOrEqual = Some LessThanOrEqual"
| "op_flip And = None"
| "op_flip Or = None"
| "op_flip Like = None"
| "op_flip ILike = None"
| "op_flip NotLike = None"
| "op_flip NotILike = None"

subsection \<open>Text helpers of the standard library\<close>

definition is_digit :: "char \<Rightarrow> bool" where
  "is_digit c \<longleftrightarrow> 48 \<le> (of_char c :: nat) \<and> (of_char c :: nat) \<le> 57"

definition is_whitespace :: "char \<Rightarrow> bool" where
  "is_whitespace c \<longleftrightarrow>
     (of_char c :: nat) = 32 \<or> (9 \<le> (of_char c :: nat) \<and> (of_char c :: nat) \<le> 13)"

definition to_ascii_lower :: "char \<Rightarrow> char" where
  "to_ascii_lower c =
     (if 65 \<le> (of_char c :: nat) \<and> (of_char c :: nat) \<le> 90
      then char_of ((of_char c :: nat) + 32) else c)"

definition eq_ignore_ascii_case :: "string \<Rightarrow> string \<Rightarrow> bool" where
  "eq_ignore_ascii_case a b \<longleftrightarrow> map to_ascii_lower a = map to_ascii_lower b"

definition trim :: "string \<Rightarrow> string" where
  "trim s = rev (dropWhile is_whitespace (rev (dropWhile is_whitespace s)))"

definition digit_val :: "char \<Rightarrow> int" where
  "digit_val c = int (of_char c) - 48"

definition digits_val :: "string \<Rightarrow> int" where
  "digits_val = foldl (\<lambda>n c. 10 * n + digit_val c) 0"

text \<open>\<^verbatim>\<open>str::parse::<i64>\<close>: an optional sign, at least one digit, and no overflow.\<close>

definition parse_i64 :: "string \<Rightarrow> int option" where
  "parse_i64 s =
     (let (neg, ds) = (case s of c # r \<Rightarrow> if c = CHR ''-'' then (True, r)
                                        else if c = CHR ''+'' then (False, r) else (False, s)
                               | [] \<Rightarrow> (False, []));
          n = (if neg then - digits_val ds else digits_val ds)
      in if ds \<noteq> [] \<and> list_all is_digit ds \<and> i64_range n then Some n else None)"

subsection \<open>Array element text\<close>

definition needs_quote :: "string \<Rightarrow> bool" where
  "needs_quote s \<longleftrightarrow>
     s = [] \<or> eq_ignore_ascii_case s ''null'' \<or>
     list_ex (\<lambda>c. c \<in> {CHR ''{'', CHR ''}'', CHR '','', CHR 0x22, CHR 0x5C} \<or> is_whitespace c) s"

fun escape_chars :: "string \<Rightarrow> string" where
  "escape_chars [] = []"
| "escape_chars (c # s) =
     (if c = CHR 0x22 \<or> c = CHR 0x5C then CHR 0x5C # c # escape_chars s else c # escape_chars s)"

definition array_element_text_push_quoted :: "string \<Rightarrow> string \<Rightarrow> string" where
  "array_element_text_push_quoted s out =
     (if \<not> needs_quote s then out @ s
      else out @ [CHR 0x22] @ escape_chars s @ [CHR 0x22])"

subsection \<open>Casts\<close>

datatype cast_target = CText | CInt4 | CInt8 | CBool | CDate | COther string

text \<open>The \<^verbatim>\<open>postgres_types::Type\<close> constants the whitelists mention; all others are \<open>TOther\<close>.\<close>

datatype pg_type =
    TText | TVarchar | TInt2 | TInt4 | TInt8 | TBool | TDate | TTimestamp | TOther oid

definition cast_target_from_canonical :: "string \<Rightarrow> cast_target" where
  "cast_target_from_canonical s =
     (if s = ''text'' then CText else if s = ''int4'' then CInt4
      else if s = ''int8'' then CInt8 else if s = ''bool'' then CBool
      else if s = ''date'' then CDate else COther s)"

fun cast_target_deparse :: "cast_target \<Rightarrow> string" where
  "cast_target_deparse CText = ''text''"
| "cast_target_deparse CInt4 = ''int4''"
| "cast_target_deparse CInt8 = ''int8''"
| "cast_target_deparse CBool = ''bool''"
| "cast_target_deparse CDate = ''date''"
| "cast_target_deparse (COther s) = s"

fun cast_target_is_identity_on :: "cast_target \<Rightarrow> pg_type \<Rightarrow> bool" where
  "cast_target_is_identity_on CText b = (b \<in> {TText, TVarchar, TInt2, TInt4, TInt8})"
| "cast_target_is_identity_on CInt4 b = (b = TInt4)"
| "cast_target_is_identity_on CInt8 b = (b = TInt8)"
| "cast_target_is_identity_on CBool b = (b = TBool)"
| "cast_target_is_identity_on CDate b = (b = TDate)"
| "cast_target_is_identity_on (COther _) b = False"

fun cast_target_is_coercion_supported :: "cast_target \<Rightarrow> pg_type \<Rightarrow> bool" where
  "cast_target_is_coercion_supported CInt4 b = (b \<in> {TText, TVarchar})"
| "cast_target_is_coercion_supported CInt8 b = (b \<in> {TText, TVarchar})"
| "cast_target_is_coercion_supported CBool b = (b \<in> {TText, TVarchar})"
| "cast_target_is_coercion_supported CDate b = (b = TTimestamp)"
| "cast_target_is_coercion_supported CText b = False"
| "cast_target_is_coercion_supported (COther _) b = False"

fun is_canonical_date_prefix :: "string \<Rightarrow> bool" where
  "is_canonical_date_prefix [y0, y1, y2, y3, dash1, m0, m1, dash2, d0, d1] \<longleftrightarrow>
     is_digit y0 \<and> is_digit y1 \<and> is_digit y2 \<and> is_digit y3 \<and> dash1 = CHR ''-'' \<and>
     is_digit m0 \<and> is_digit m1 \<and> dash2 = CHR ''-'' \<and> is_digit d0 \<and> is_digit d1"
| "is_canonical_date_prefix _ = False"

definition timestamp_text_to_date :: "string \<Rightarrow> string option" where
  "timestamp_text_to_date s =
     (if length s < 10 then None
      else if \<not> is_canonical_date_prefix (take 10 s) then None
      else (case drop 10 s of
              [] \<Rightarrow> Some (take 10 s)
            | c # _ \<Rightarrow> if c = CHR '' '' \<or> c = CHR ''T'' then Some (take 10 s) else None))"

definition is_canonical_date_literal :: "string \<Rightarrow> bool" where
  "is_canonical_date_literal s = (if length s \<noteq> 10 then False else is_canonical_date_prefix s)"

definition bool_literal_parse :: "string \<Rightarrow> bool option" where
  "bool_literal_parse s =
     (let trimmed = trim s in
      if list_ex (eq_ignore_ascii_case trimmed) [''t'', ''true'', ''y'', ''yes'', ''on'', ''1'']
      then Some True
      else if list_ex (eq_ignore_ascii_case trimmed)
                [''f'', ''false'', ''n'', ''no'', ''off'', ''0'']
      then Some False
      else None)"

fun cast_target_coerce_text :: "cast_target \<Rightarrow> string \<Rightarrow> literal_value option" where
  "cast_target_coerce_text CInt4 t = map_option LInteger (parse_i64 t)"
| "cast_target_coerce_text CInt8 t = map_option LInteger (parse_i64 t)"
| "cast_target_coerce_text CBool t = map_option LBoolean (bool_literal_parse t)"
| "cast_target_coerce_text CDate t = map_option LString (timestamp_text_to_date t)"
| "cast_target_coerce_text CText t = None"
| "cast_target_coerce_text (COther _) t = None"

subsection \<open>Properties\<close>

lemma op_flip_Some_iff: "(\<exists>op'. op_flip op = Some op') \<longleftrightarrow> is_comparison op"
  by (cases op) auto

lemma op_flip_involutive: "op_flip op = Some op' \<Longrightarrow> op_flip op' = Some op"
  by (cases op) auto

lemma cast_target_deparse_from_canonical:
  "cast_target_deparse (cast_target_from_canonical s) = s"
  by (simp add: cast_target_from_canonical_def)

text \<open>No column type is both stripped and coerced under the same cast.\<close>

lemma identity_coercion_exclusive:
  "\<not> (cast_target_is_identity_on t b \<and> cast_target_is_coercion_supported t b)"
  by (cases t) auto

lemma timestamp_text_to_date_canonical:
  assumes "timestamp_text_to_date s = Some d"
  shows "is_canonical_date_literal d" and "d = take 10 s"
  using assms
  by (auto simp: timestamp_text_to_date_def is_canonical_date_literal_def
           split: if_splits list.splits)

lemma parse_i64_range: "parse_i64 s = Some n \<Longrightarrow> i64_range n"
  by (auto simp: parse_i64_def Let_def split: if_splits list.splits prod.splits)

text \<open>
  The inverse of the quoting: what the array input routine of the server reads back from a
  quoted element.
\<close>

fun unescape_chars :: "string \<Rightarrow> string" where
  "unescape_chars [] = []"
| "unescape_chars [c] = [c]"
| "unescape_chars (c # d # s) =
     (if c = CHR 0x5C then d # unescape_chars s else c # unescape_chars (d # s))"

lemma unescape_escape_chars [simp]: "unescape_chars (escape_chars s) = s"
proof (induction s)
  case (Cons c s)
  then show ?case by (cases "escape_chars s") auto
qed simp

end
