(* ===== verification/Ranges.thy ===== *)
theory Ranges
  imports Literals
begin

text \<open>
  The value-domain range algebra of \<^verbatim>\<open>src/query/constraints/range.rs\<close>: the reduction of all
  constraints on one column to a \<open>column_range\<close>, and the decision whether one range subsumes
  another.

  The loop of \<^verbatim>\<open>comparison_range_build\<close> is a recursion whose result is either an early
  return (\<open>Inl\<close>) or the final values of its four locals (\<open>Inr\<close>). A \<^verbatim>\<open>HashSet\<close> is a
  list; membership and subset are those of its set.
\<close>

subsection \<open>Types\<close>

datatype table_constraint =
    Comparison string binary_op literal_value
  | AnyOf string "literal_value list"
  | CastComparison string cast_target binary_op literal_value

record range_bound =
  rb_value :: literal_value
  rb_inclusive :: bool

datatype column_range =
    RUnknown
  | RUnconstrained
  | REmpty
  | REqual literal_value
  | RInSet "literal_value list"
  | RRange "range_bound option" "range_bound option" "literal_value list"

datatype bound_side = Lower | Upper

record range_view =
  rv_lower :: "range_bound option"
  rv_upper :: "range_bound option"
  rv_not_equal :: "literal_value list"

definition range_view_new ::
  "range_bound option \<Rightarrow> range_bound option \<Rightarrow> literal_value list \<Rightarrow> range_view" where
  "range_view_new lower upper excl =
     \<lparr>rv_lower = lower, rv_upper = upper, rv_not_equal = excl\<rparr>"

fun rv_bound :: "range_view \<Rightarrow> bound_side \<Rightarrow> range_bound option" where
  "rv_bound rv Lower = rv_lower rv"
| "rv_bound rv Upper = rv_upper rv"

subsection \<open>Literal order and bounds\<close>

fun literal_value_is_incomparable :: "literal_value \<Rightarrow> bool" where
  "literal_value_is_incomparable (LParameter _) = True"
| "literal_value_is_incomparable LNull = True"
| "literal_value_is_incomparable (LNullWithCast _) = True"
| "literal_value_is_incomparable _ = False"

fun literal_value_order :: "literal_value \<Rightarrow> literal_value \<Rightarrow> ordering option" where
  "literal_value_order (LInteger a) (LInteger b) = Some (cmp a b)"
| "literal_value_order (LFloat a) (LFloat b) = Some (cmp a b)"
| "literal_value_order _ _ = None"

fun literal_value_canonical_order :: "literal_value \<Rightarrow> literal_value \<Rightarrow> ordering" where
  "literal_value_canonical_order (LInteger a) (LInteger b) = cmp a b"
| "literal_value_canonical_order (LFloat a) (LFloat b) = cmp a b"
| "literal_value_canonical_order (LString a) (LString b) = cmp a b"
| "literal_value_canonical_order (LStringWithCast a _) (LStringWithCast b _) = cmp a b"
| "literal_value_canonical_order _ _ = OrdEqual"

fun orient :: "bound_side \<Rightarrow> ordering \<Rightarrow> ordering" where
  "orient Lower ord = ord"
| "orient Upper ord = ordering_reverse ord"

definition admits :: "bound_side \<Rightarrow> ordering \<Rightarrow> bool \<Rightarrow> bool" where
  "admits side value_vs_bound incl =
     (case orient side value_vs_bound of
        OrdGreater \<Rightarrow> True
      | OrdEqual \<Rightarrow> incl
      | OrdLess \<Rightarrow> False)"

definition bound_tighten ::
  "bound_side \<Rightarrow> range_bound \<Rightarrow> range_bound \<Rightarrow> range_bound option" where
  "bound_tighten side existing candidate =
     map_option
       (\<lambda>ord. case orient side ord of
          OrdLess \<Rightarrow> candidate
        | OrdGreater \<Rightarrow> existing
        | OrdEqual \<Rightarrow> \<lparr>rb_value = rb_value existing,
                      rb_inclusive = (rb_inclusive existing \<and> rb_inclusive candidate)\<rparr>)
       (literal_value_order (rb_value existing) (rb_value candidate))"

definition value_satisfies :: "bound_side \<Rightarrow> literal_value \<Rightarrow> range_bound \<Rightarrow> bool option" where
  "value_satisfies side v bound =
     map_option (\<lambda>ord. admits side ord (rb_inclusive bound))
       (literal_value_order v (rb_value bound))"

text \<open>\<^verbatim>\<open>bound_merge\<close> updates the slot in place and reports success; here \<open>None\<close> is failure.\<close>

definition bound_merge ::
  "range_bound option \<Rightarrow> bound_side \<Rightarrow> range_bound \<Rightarrow> range_bound option" where
  "bound_merge slot side candidate =
     (case slot of
        None \<Rightarrow> Some candidate
      | Some existing \<Rightarrow> bound_tighten side existing candidate)"

definition range_contains_value :: "range_view \<Rightarrow> literal_value \<Rightarrow> bool" where
  "range_contains_value rng v =
     (list_all
        (\<lambda>side. case rv_bound rng side of
                   None \<Rightarrow> True
                 | Some bound \<Rightarrow> value_satisfies side v bound = Some True)
        [Lower, Upper]
      \<and> v \<notin> set (rv_not_equal rng))"

subsection \<open>Building a range\<close>

record cmp_state =
  cs_equal :: "literal_value option"
  cs_lower :: "range_bound option"
  cs_upper :: "range_bound option"
  cs_not_equal :: "literal_value list"

definition cmp_state_new :: cmp_state where
  "cmp_state_new = \<lparr>cs_equal = None, cs_lower = None, cs_upper = None, cs_not_equal = []\<rparr>"

definition comparison_step ::
  "binary_op \<Rightarrow> literal_value \<Rightarrow> cmp_state \<Rightarrow> column_range + cmp_state" where
  "comparison_step op v st =
     (if literal_value_is_incomparable v then Inl RUnknown
      else if op = Equal then
        (case cs_equal st of
           None \<Rightarrow> Inr (st\<lparr>cs_equal := Some v\<rparr>)
         | Some existing \<Rightarrow> if existing = v then Inr st else Inl REmpty)
      else if op = NotEqual then Inr (st\<lparr>cs_not_equal := cs_not_equal st @ [v]\<rparr>)
      else if op = GreaterThan \<or> op = GreaterThanOrEqual then
        (case bound_merge (cs_lower st) Lower
                \<lparr>rb_value = v, rb_inclusive = (op = GreaterThanOrEqual)\<rparr> of
           Some b \<Rightarrow> Inr (st\<lparr>cs_lower := Some b\<rparr>)
         | None \<Rightarrow> Inl RUnknown)
      else if op = LessThan \<or> op = LessThanOrEqual then
        (case bound_merge (cs_upper st) Upper
                \<lparr>rb_value = v, rb_inclusive = (op = LessThanOrEqual)\<rparr> of
           Some b \<Rightarrow> Inr (st\<lparr>cs_upper := Some b\<rparr>)
         | None \<Rightarrow> Inl RUnknown)
      else Inl RUnknown)"

fun comparison_loop ::
  "(binary_op \<times> literal_value) list \<Rightarrow> cmp_state \<Rightarrow> column_range + cmp_state" where
  "comparison_loop [] st = Inr st"
| "comparison_loop ((op, v) # cs) st =
     (case comparison_step op v st of
        Inl r \<Rightarrow> Inl r
      | Inr st' \<Rightarrow> comparison_loop cs st')"

text \<open>The equality branch after the loop: check the point against both bounds in turn.\<close>

fun equal_bounds_check ::
  "literal_value \<Rightarrow> (bound_side \<times> range_bound option) list \<Rightarrow> column_range option" where
  "equal_bounds_check v [] = None"
| "equal_bounds_check v ((side, None) # bs) = equal_bounds_check v bs"
| "equal_bounds_check v ((side, Some bound) # bs) =
     (case value_satisfies side v bound of
        Some True \<Rightarrow> equal_bounds_check v bs
      | Some False \<Rightarrow> Some REmpty
      | None \<Rightarrow> Some RUnknown)"

definition comparison_finish :: "cmp_state \<Rightarrow> column_range" where
  "comparison_finish st =
     (case cs_equal st of
        Some eq_val \<Rightarrow>
          (case equal_bounds_check eq_val [(Lower, cs_lower st), (Upper, cs_upper st)] of
             Some r \<Rightarrow> r
           | None \<Rightarrow> if eq_val \<in> set (cs_not_equal st) then REmpty else REqual eq_val)
      | None \<Rightarrow>
          (case (cs_lower st, cs_upper st) of
             (Some lb, Some ub) \<Rightarrow>
               (case literal_value_order (rb_value lb) (rb_value ub) of
                  Some OrdGreater \<Rightarrow> REmpty
                | Some OrdEqual \<Rightarrow>
                    if \<not> rb_inclusive lb \<or> \<not> rb_inclusive ub then REmpty
                    else if rb_value lb \<in> set (cs_not_equal st) then REmpty
                    else REqual (rb_value lb)
                | Some OrdLess \<Rightarrow> RRange (cs_lower st) (cs_upper st) (cs_not_equal st)
                | None \<Rightarrow> RUnknown)
           | _ \<Rightarrow> RRange (cs_lower st) (cs_upper st) (cs_not_equal st)))"

definition comparison_range_build :: "(binary_op \<times> literal_value) list \<Rightarrow> column_range" where
  "comparison_range_build comparisons =
     (if comparisons = [] then RUnconstrained
      else (case comparison_loop comparisons cmp_state_new of
              Inl r \<Rightarrow> r
            | Inr st \<Rightarrow> comparison_finish st))"

definition in_set_range_build ::
  "literal_value list \<Rightarrow> (binary_op \<times> literal_value) list \<Rightarrow> column_range" where
  "in_set_range_build set_values comparisons =
     (if set_values = [] then REmpty
      else if list_ex literal_value_is_incomparable set_values then RUnknown
      else if comparisons = [] then RInSet (remdups set_values)
      else (case comparison_range_build comparisons of
              RUnknown \<Rightarrow> RUnknown
            | REmpty \<Rightarrow> REmpty
            | RUnconstrained \<Rightarrow> RInSet (remdups set_values)
            | REqual v \<Rightarrow> if v \<in> set set_values then REqual v else REmpty
            | RInSet _ \<Rightarrow> RUnknown
            | RRange lower upper excl \<Rightarrow>
                (case filter (range_contains_value (range_view_new lower upper excl))
                        set_values of
                   [] \<Rightarrow> REmpty
                 | [first] \<Rightarrow> REqual first
                 | first # second # rest \<Rightarrow> RInSet (remdups (first # second # rest)))))"

text \<open>
  The partition of the constraints into comparisons and at most one value set; \<open>None\<close> is
  the early return on a second set.
\<close>

fun constraints_partition ::
  "table_constraint list \<Rightarrow> (binary_op \<times> literal_value) list \<Rightarrow> literal_value list option
   \<Rightarrow> ((binary_op \<times> literal_value) list \<times> literal_value list option) option" where
  "constraints_partition [] comparisons in_set = Some (comparisons, in_set)"
| "constraints_partition (Comparison _ op v # cs) comparisons in_set =
     constraints_partition cs (comparisons @ [(op, v)]) in_set"
| "constraints_partition (CastComparison _ _ op v # cs) comparisons in_set =
     constraints_partition cs (comparisons @ [(op, v)]) in_set"
| "constraints_partition (AnyOf _ values # cs) comparisons in_set =
     (case in_set of
        None \<Rightarrow> constraints_partition cs comparisons (Some values)
      | Some _ \<Rightarrow> None)"

definition column_range_build :: "table_constraint list \<Rightarrow> column_range" where
  "column_range_build constraints =
     (if constraints = [] then RUnconstrained
      else (case constraints_partition constraints [] None of
              None \<Rightarrow> RUnknown
            | Some (comparisons, Some set_values) \<Rightarrow> in_set_range_build set_values comparisons
            | Some (comparisons, None) \<Rightarrow> comparison_range_build comparisons))"

subsection \<open>Subsumption of ranges\<close>

definition bound_at_least_as_tight ::
  "bound_side \<Rightarrow> range_bound \<Rightarrow> range_bound \<Rightarrow> bool option" where
  "bound_at_least_as_tight side a b =
     map_option
       (\<lambda>ord. case orient side ord of
          OrdGreater \<Rightarrow> True
        | OrdLess \<Rightarrow> False
        | OrdEqual \<Rightarrow> \<not> rb_inclusive a \<or> rb_inclusive b)
       (literal_value_order (rb_value a) (rb_value b))"

fun bound_covered ::
  "bound_side \<Rightarrow> range_bound option \<Rightarrow> range_bound option \<Rightarrow> bool" where
  "bound_covered side None _ = True"
| "bound_covered side (Some _) None = False"
| "bound_covered side (Some cached) (Some new) =
     (bound_at_least_as_tight side new cached = Some True)"

definition range_subsumes_range :: "range_view \<Rightarrow> range_view \<Rightarrow> bool" where
  "range_subsumes_range cached new =
     (let bounds_covered =
            list_all (\<lambda>side. bound_covered side (rv_bound cached side) (rv_bound new side))
              [Lower, Upper];
          new_bounds_only = new\<lparr>rv_not_equal := []\<rparr>
      in bounds_covered \<and>
         list_all
           (\<lambda>excluded. excluded \<in> set (rv_not_equal new) \<or>
                       \<not> range_contains_value new_bounds_only excluded)
           (rv_not_equal cached))"

fun column_range_subsumes :: "column_range \<Rightarrow> column_range \<Rightarrow> bool" where
  "column_range_subsumes RUnknown _ = False"
| "column_range_subsumes _ RUnknown = False"
| "column_range_subsumes REmpty _ = False"
| "column_range_subsumes _ REmpty = True"
| "column_range_subsumes RUnconstrained _ = True"
| "column_range_subsumes _ RUnconstrained = False"
| "column_range_subsumes (REqual a) (REqual b) = (a = b)"
| "column_range_subsumes (REqual _) (RRange _ _ _) = False"
| "column_range_subsumes (REqual _) (RInSet _) = False"
| "column_range_subsumes (RInSet cached_set) (RInSet new_set) = (set new_set \<subseteq> set cached_set)"
| "column_range_subsumes (RInSet s) (REqual v) = (v \<in> set s)"
| "column_range_subsumes (RInSet _) (RRange _ _ _) = False"
| "column_range_subsumes (RRange lower upper excl) (RInSet s) =
     list_all (range_contains_value (range_view_new lower upper excl)) s"
| "column_range_subsumes (RRange lower upper excl) (REqual v) =
     range_contains_value (range_view_new lower upper excl) v"
| "column_range_subsumes (RRange cl cu cne) (RRange nl nu nne) =
     range_subsumes_range (range_view_new cl cu cne) (range_view_new nl nu nne)"

text \<open>Unfolding all of them evaluates the algebra on concrete constraints.\<close>

lemmas [range_simps] =
  column_range_build_def in_set_range_build_def comparison_range_build_def comparison_step_def
  comparison_finish_def cmp_state_new_def bound_merge_def bound_tighten_def
  range_contains_value_def value_satisfies_def admits_def cmp_def range_view_new_def
  range_subsumes_range_def bound_at_least_as_tight_def Let_def

end
