(* ===== verification/Range_Semantics.thy ===== *)
theory Range_Semantics
  imports Ranges
begin

text \<open>
  What a \<open>column_range\<close> means for the values of a column, and the soundness of the range
  algebra with respect to that meaning.

  A column type is given by the value \<open>dl l\<close> that a literal denotes in it and by its strict
  order \<open>lt\<close>. A column of a row holds \<open>Some x\<close> or, for SQL \<open>NULL\<close>, \<open>None\<close>; a
  comparison that is not true (false or unknown) rejects the row.

  The interface \<open>column_domain\<close> is what the algebra relies on: a strict linear order, literals
  of the column that denote distinct values when they differ (the code compares literals
  structurally), and a \<open>literal_value_order\<close> that agrees with the order where it answers.
  \<open>ordered_domain\<close> adds that it always answers. Interpretations: integer literals, float
  literals, booleans, and text under an arbitrary collation.
\<close>

subsection \<open>Meaning of comparisons, bounds and ranges\<close>

fun op_sem :: "('v \<Rightarrow> 'v \<Rightarrow> bool) \<Rightarrow> binary_op \<Rightarrow> 'v \<Rightarrow> 'v \<Rightarrow> bool" where
  "op_sem lt Equal x y = (x = y)"
| "op_sem lt NotEqual x y = (x \<noteq> y)"
| "op_sem lt LessThan x y = lt x y"
| "op_sem lt LessThanOrEqual x y = (lt x y \<or> x = y)"
| "op_sem lt GreaterThan x y = lt y x"
| "op_sem lt GreaterThanOrEqual x y = (lt y x \<or> x = y)"
| "op_sem lt _ x y = False"

definition cmp_sem ::
  "(literal_value \<Rightarrow> 'v option) \<Rightarrow> ('v \<Rightarrow> 'v \<Rightarrow> bool) \<Rightarrow> binary_op \<Rightarrow> literal_value
   \<Rightarrow> 'v option \<Rightarrow> bool" where
  "cmp_sem dl lt op l v =
     (case (v, dl l) of (Some x, Some y) \<Rightarrow> op_sem lt op x y | _ \<Rightarrow> False)"

fun tc_sem ::
  "(literal_value \<Rightarrow> 'v option) \<Rightarrow> ('v \<Rightarrow> 'v \<Rightarrow> bool) \<Rightarrow> table_constraint \<Rightarrow> 'v option \<Rightarrow> bool" where
  "tc_sem dl lt (Comparison _ op l) v = cmp_sem dl lt op l v"
| "tc_sem dl lt (CastComparison _ _ op l) v = cmp_sem dl lt op l v"
| "tc_sem dl lt (AnyOf _ ls) v = list_ex (\<lambda>l. cmp_sem dl lt Equal l v) ls"

definition bound_sem ::
  "(literal_value \<Rightarrow> 'v option) \<Rightarrow> ('v \<Rightarrow> 'v \<Rightarrow> bool) \<Rightarrow> bound_side \<Rightarrow> range_bound \<Rightarrow> 'v \<Rightarrow> bool" where
  "bound_sem dl lt side b x =
     (case dl (rb_value b) of
        None \<Rightarrow> False
      | Some y \<Rightarrow> (case side of Lower \<Rightarrow> lt y x | Upper \<Rightarrow> lt x y) \<or> (rb_inclusive b \<and> x = y))"

definition slot_sem ::
  "(literal_value \<Rightarrow> 'v option) \<Rightarrow> ('v \<Rightarrow> 'v \<Rightarrow> bool) \<Rightarrow> bound_side \<Rightarrow> range_bound option \<Rightarrow> 'v \<Rightarrow> bool" where
  "slot_sem dl lt side slot x = (case slot of None \<Rightarrow> True | Some b \<Rightarrow> bound_sem dl lt side b x)"

fun range_sem ::
  "(literal_value \<Rightarrow> 'v option) \<Rightarrow> ('v \<Rightarrow> 'v \<Rightarrow> bool) \<Rightarrow> column_range \<Rightarrow> 'v option \<Rightarrow> bool" where
  "range_sem dl lt RUnknown v = True"
| "range_sem dl lt RUnconstrained v = True"
| "range_sem dl lt REmpty v = False"
| "range_sem dl lt (REqual l) v = (v \<noteq> None \<and> dl l = v)"
| "range_sem dl lt (RInSet ls) v = (v \<noteq> None \<and> v \<in> dl ` set ls)"
| "range_sem dl lt (RRange lo up ne) v =
     (case v of
        None \<Rightarrow> False
      | Some x \<Rightarrow> slot_sem dl lt Lower lo x \<and> slot_sem dl lt Upper up x \<and> Some x \<notin> dl ` set ne)"

subsection \<open>Literals occurring in constraints and ranges\<close>

fun tc_lits :: "table_constraint \<Rightarrow> literal_value set" where
  "tc_lits (Comparison _ _ l) = {l}"
| "tc_lits (CastComparison _ _ _ l) = {l}"
| "tc_lits (AnyOf _ ls) = set ls"

definition slot_lits :: "range_bound option \<Rightarrow> literal_value set" where
  "slot_lits slot = (case slot of None \<Rightarrow> {} | Some b \<Rightarrow> {rb_value b})"

fun range_lits :: "column_range \<Rightarrow> literal_value set" where
  "range_lits (REqual l) = {l}"
| "range_lits (RInSet ls) = set ls"
| "range_lits (RRange lo up ne) = slot_lits lo \<union> slot_lits up \<union> set ne"
| "range_lits _ = {}"

lemma slot_lits_simps [simp]: "slot_lits None = {}" "slot_lits (Some b) = {rb_value b}"
  by (simp_all add: slot_lits_def)

lemma slot_sem_simps [simp]:
  "slot_sem dl lt side None x" "slot_sem dl lt side (Some b) x = bound_sem dl lt side b x"
  by (simp_all add: slot_sem_def)

lemma range_view_new_sel [simp]:
  "rv_lower (range_view_new lo up ne) = lo" "rv_upper (range_view_new lo up ne) = up"
  "rv_not_equal (range_view_new lo up ne) = ne"
  by (simp_all add: range_view_new_def)

definition is_ordering :: "binary_op \<Rightarrow> bool" where
  "is_ordering op \<longleftrightarrow> is_comparison op \<and> op \<noteq> Equal \<and> op \<noteq> NotEqual"

definition ord_lits :: "(binary_op \<times> literal_value) list \<Rightarrow> literal_value set" where
  "ord_lits cs = {l. \<exists>op. (op, l) \<in> set cs \<and> is_ordering op}"

text \<open>
  Every literal of a value set can be ordered against every bound of the same column. The
  filter of \<open>in_set_range_build\<close> silently drops members that cannot.
\<close>

definition orderable :: "literal_value list \<Rightarrow> (binary_op \<times> literal_value) list \<Rightarrow> bool" where
  "orderable vs cs \<longleftrightarrow> (\<forall>l\<in>set vs. \<forall>m\<in>ord_lits cs. literal_value_order l m \<noteq> None)"

fun tc_comparisons :: "table_constraint \<Rightarrow> (binary_op \<times> literal_value) list" where
  "tc_comparisons (Comparison _ op l) = [(op, l)]"
| "tc_comparisons (CastComparison _ _ op l) = [(op, l)]"
| "tc_comparisons (AnyOf _ _) = []"

fun tc_set_values :: "table_constraint \<Rightarrow> literal_value list" where
  "tc_set_values (AnyOf _ vs) = vs"
| "tc_set_values _ = []"

definition tcs_orderable :: "table_constraint list \<Rightarrow> bool" where
  "tcs_orderable cs \<longleftrightarrow>
     orderable (concat (map tc_set_values cs)) (concat (map tc_comparisons cs))"

text \<open>
  An exclusion of the cached range that the new range does not repeat must be comparable with
  the bounds of the new range for the claim \<open>outside new's range\<close> to mean anything.
\<close>

definition excl_decided :: "column_range \<Rightarrow> column_range \<Rightarrow> bool" where
  "excl_decided cached new \<longleftrightarrow>
     (\<forall>lo up ne lo' up' ne'. cached = RRange lo up ne \<longrightarrow> new = RRange lo' up' ne' \<longrightarrow>
        (\<forall>l\<in>set ne. \<forall>m\<in>slot_lits lo' \<union> slot_lits up'. literal_value_order l m \<noteq> None))"

lemma bound_merge_value:
  "bound_merge slot side b = Some c \<Longrightarrow> rb_value c \<in> insert (rb_value b) (slot_lits slot)"
  by (auto simp: bound_merge_def bound_tighten_def split: option.splits ordering.splits)
    (metis ordering.exhaust)

lemma comparison_step_slots:
  assumes "comparison_step op l st = Inr st'"
  shows "slot_lits (cs_lower st') \<union> slot_lits (cs_upper st') \<subseteq>
           slot_lits (cs_lower st) \<union> slot_lits (cs_upper st) \<union> ord_lits [(op, l)]"
  using assms
  by (auto simp: comparison_step_def ord_lits_def is_ordering_def
           split: if_splits option.splits dest!: bound_merge_value)

lemma ord_lits_Cons: "ord_lits (c # cs) = ord_lits [c] \<union> ord_lits cs"
  by (auto simp: ord_lits_def)

lemma comparison_loop_slots:
  assumes "comparison_loop cs st = Inr st'"
  shows "slot_lits (cs_lower st') \<union> slot_lits (cs_upper st') \<subseteq>
           slot_lits (cs_lower st) \<union> slot_lits (cs_upper st) \<union> ord_lits cs"
  using assms
proof (induction cs st rule: comparison_loop.induct)
  case (2 op v cs st)
  then obtain s where s: "comparison_step op v st = Inr s" "comparison_loop cs s = Inr st'"
    by (auto split: sum.splits)
  from "2.IH" [OF s] comparison_step_slots [OF s(1)] show ?case
    by (subst ord_lits_Cons) blast
qed simp

lemma constraints_partition_parts:
  assumes "constraints_partition cs comparisons in_set = Some (cs', s')"
  shows "cs' = comparisons @ concat (map tc_comparisons cs)"
    and "(case in_set of None \<Rightarrow> [] | Some vs \<Rightarrow> vs) @ concat (map tc_set_values cs) =
         (case s' of None \<Rightarrow> [] | Some vs \<Rightarrow> vs)"
    and "s' = None \<longleftrightarrow> in_set = None \<and> (\<forall>c vs. AnyOf c vs \<notin> set cs)"
    and "s' = Some vs \<Longrightarrow> in_set = Some vs \<and> (\<forall>c ws. AnyOf c ws \<notin> set cs) \<or>
         in_set = None \<and> (\<exists>c. AnyOf c vs \<in> set cs) \<and> (\<forall>c ws. AnyOf c ws \<in> set cs \<longrightarrow> ws = vs)"
  using assms
  by (induction cs comparisons in_set rule: constraints_partition.induct)
    (auto split: option.splits)

subsection \<open>The interface of a column type\<close>

locale column_domain =
  fixes dl :: "literal_value \<Rightarrow> 'v option"
    and lt :: "'v \<Rightarrow> 'v \<Rightarrow> bool"
    and ok :: "literal_value \<Rightarrow> bool"
  assumes lt_irrefl: "\<not> lt x x"
    and lt_trans: "lt x y \<Longrightarrow> lt y z \<Longrightarrow> lt x z"
    and lt_total: "x \<noteq> y \<Longrightarrow> lt x y \<or> lt y x"
    and ok_denotes: "ok l \<Longrightarrow> dl l \<noteq> None"
    and ok_inj: "ok a \<Longrightarrow> ok b \<Longrightarrow> dl a = dl b \<Longrightarrow> a = b"
    and order_sound:
      "ok a \<Longrightarrow> ok b \<Longrightarrow> literal_value_order a b = Some r \<Longrightarrow> dl a = Some x \<Longrightarrow> dl b = Some y
       \<Longrightarrow> r = (if lt x y then OrdLess else if x = y then OrdEqual else OrdGreater)"
begin

lemma ok_val:
  assumes "ok l" obtains x where "dl l = Some x"
  using ok_denotes [OF assms] by auto

lemma lt_asym: "lt x y \<Longrightarrow> \<not> lt y x"
  using lt_irrefl lt_trans by blast

lemma ok_eq_iff: "ok a \<Longrightarrow> ok b \<Longrightarrow> dl a = dl b \<longleftrightarrow> a = b"
  using ok_inj by blast

lemma ok_mem_image: "ok a \<Longrightarrow> \<forall>b\<in>S. ok b \<Longrightarrow> dl a \<in> dl ` S \<longleftrightarrow> a \<in> S"
  using ok_inj by blast

text \<open>The oriented order: how far inside the range, seen from one side.\<close>

definition inside :: "bound_side \<Rightarrow> 'v \<Rightarrow> 'v \<Rightarrow> bool" where
  "inside side x y = (case side of Lower \<Rightarrow> lt y x | Upper \<Rightarrow> lt x y)"

lemma inside_irrefl: "\<not> inside side x x"
  by (cases side) (simp_all add: inside_def lt_irrefl)

lemma inside_trans: "inside side x y \<Longrightarrow> inside side y z \<Longrightarrow> inside side x z"
  by (cases side) (auto simp: inside_def intro: lt_trans)

lemma inside_total: "x \<noteq> y \<Longrightarrow> inside side x y \<or> inside side y x"
  using lt_total by (cases side) (auto simp: inside_def)

lemma inside_asym: "inside side x y \<Longrightarrow> \<not> inside side y x"
  using inside_irrefl inside_trans by blast

lemmas inside_rules = inside_irrefl inside_trans inside_total inside_asym

lemma orient_sound:
  assumes "ok a" "ok b" "literal_value_order a b = Some r" "dl a = Some x" "dl b = Some y"
  shows "orient side r =
           (if inside side x y then OrdGreater else if x = y then OrdEqual else OrdLess)"
proof -
  consider "lt x y" "\<not> lt y x" "x \<noteq> y" | "x = y" "\<not> lt y x" "\<not> lt x y"
    | "lt y x" "\<not> lt x y" "x \<noteq> y"
    using lt_total [of x y] lt_asym [of x y] lt_asym [of y x] lt_irrefl by blast
  then show ?thesis
    using order_sound [OF assms] by cases (cases side; simp add: inside_def)+
qed

lemma bound_sem_inside:
  "dl (rb_value b) = Some y \<Longrightarrow>
   bound_sem dl lt side b x \<longleftrightarrow> inside side x y \<or> (rb_inclusive b \<and> x = y)"
  by (auto simp: bound_sem_def inside_def split: bound_side.splits)

lemma value_satisfies_sound:
  assumes "ok v" "ok (rb_value b)" "value_satisfies side v b = Some t" "dl v = Some x"
  shows "t \<longleftrightarrow> bound_sem dl lt side b x"
proof -
  from assms(2) obtain y where y: "dl (rb_value b) = Some y" by (rule ok_val)
  from assms(3) obtain r where r: "literal_value_order v (rb_value b) = Some r"
      and t: "t = admits side r (rb_inclusive b)"
    by (auto simp: value_satisfies_def)
  from orient_sound [OF assms(1,2) r assms(4) y, of side] t show ?thesis
    by (auto simp: admits_def bound_sem_inside [OF y] inside_irrefl split: if_splits)
qed

lemma bound_tighten_sound:
  assumes "ok (rb_value a)" "ok (rb_value b)" "bound_tighten side a b = Some c"
  shows "ok (rb_value c)"
    and "bound_sem dl lt side c x \<longleftrightarrow> bound_sem dl lt side a x \<and> bound_sem dl lt side b x"
proof -
  from assms(1) obtain u where u: "dl (rb_value a) = Some u" by (rule ok_val)
  from assms(2) obtain w where w: "dl (rb_value b) = Some w" by (rule ok_val)
  from assms(3) obtain r where r: "literal_value_order (rb_value a) (rb_value b) = Some r"
      and c: "c = (case orient side r of OrdLess \<Rightarrow> b | OrdGreater \<Rightarrow> a
               | OrdEqual \<Rightarrow> \<lparr>rb_value = rb_value a, rb_inclusive = (rb_inclusive a \<and> rb_inclusive b)\<rparr>)"
    by (auto simp: bound_tighten_def)
  note o = orient_sound [OF assms(1,2) r u w, of side]
  show "ok (rb_value c)" using assms(1,2) c by (auto split: ordering.splits)
  consider "inside side u w" | "u = w" | "inside side w u" using inside_total by blast
  then show "bound_sem dl lt side c x \<longleftrightarrow> bound_sem dl lt side a x \<and> bound_sem dl lt side b x"
  proof cases
    case 1
    then have "c = a" using c o by simp
    then show ?thesis
      using inside_trans [OF _ 1] 1 by (auto simp: bound_sem_inside [OF u] bound_sem_inside [OF w])
  next
    case 2
    then have c': "c = \<lparr>rb_value = rb_value a, rb_inclusive = (rb_inclusive a \<and> rb_inclusive b)\<rparr>"
      using c o inside_irrefl by simp
    then have "dl (rb_value c) = Some u" using u by simp
    from bound_sem_inside [OF this] show ?thesis
      using 2 c' by (auto simp: bound_sem_inside [OF u] bound_sem_inside [OF w])
  next
    case 3
    then have "c = b" using c o inside_asym [OF 3] inside_irrefl by (cases "u = w") auto
    then show ?thesis
      using inside_trans [OF _ 3] 3 by (auto simp: bound_sem_inside [OF u] bound_sem_inside [OF w])
  qed
qed

lemma bound_merge_sound:
  assumes "\<forall>l\<in>slot_lits slot. ok l" "ok (rb_value b)" "bound_merge slot side b = Some c"
  shows "ok (rb_value c)"
    and "bound_sem dl lt side c x \<longleftrightarrow> slot_sem dl lt side slot x \<and> bound_sem dl lt side b x"
proof -
  have "ok (rb_value c) \<and>
    (bound_sem dl lt side c x \<longleftrightarrow> slot_sem dl lt side slot x \<and> bound_sem dl lt side b x)"
  proof (cases slot)
    case None
    with assms show ?thesis by (simp add: bound_merge_def)
  next
    case (Some a)
    with assms have "ok (rb_value a)" "bound_tighten side a b = Some c"
      by (simp_all add: bound_merge_def)
    from bound_tighten_sound [OF this(1) assms(2) this(2)] Some show ?thesis by simp
  qed
  then show "ok (rb_value c)"
    and "bound_sem dl lt side c x \<longleftrightarrow> slot_sem dl lt side slot x \<and> bound_sem dl lt side b x"
    by blast+
qed

text \<open>What the locals of the comparison loop say about a value.\<close>

definition st_sem :: "cmp_state \<Rightarrow> 'v \<Rightarrow> bool" where
  "st_sem st x \<longleftrightarrow>
     (\<forall>l. cs_equal st = Some l \<longrightarrow> dl l = Some x) \<and> slot_sem dl lt Lower (cs_lower st) x \<and>
     slot_sem dl lt Upper (cs_upper st) x \<and> Some x \<notin> dl ` set (cs_not_equal st)"

definition st_ok :: "cmp_state \<Rightarrow> bool" where
  "st_ok st \<longleftrightarrow> (\<forall>l. cs_equal st = Some l \<longrightarrow> ok l) \<and> (\<forall>l\<in>slot_lits (cs_lower st). ok l) \<and>
     (\<forall>l\<in>slot_lits (cs_upper st). ok l) \<and> (\<forall>l\<in>set (cs_not_equal st). ok l)"

lemma cmp_sem_ok:
  "dl l = Some y \<Longrightarrow> cmp_sem dl lt op l (Some x) = op_sem lt op x y"
  by (simp add: cmp_sem_def)

lemma comparison_step_Inl:
  assumes "ok l" "st_ok st" "comparison_step op l st = Inl r" "r \<noteq> RUnknown"
  shows "r = REmpty" "\<not> (st_sem st x \<and> cmp_sem dl lt op l (Some x))"
proof -
  from assms(3,4) obtain e where e: "op = Equal" "cs_equal st = Some e" "e \<noteq> l" "r = REmpty"
    by (auto simp: comparison_step_def split: if_splits option.splits)
  then show "r = REmpty" by simp
  from e assms(2) have "ok e" by (simp add: st_ok_def)
  with e assms(1) have "dl e \<noteq> dl l" using ok_inj by blast
  moreover from assms(1) obtain y where "dl l = Some y" by (rule ok_val)
  ultimately show "\<not> (st_sem st x \<and> cmp_sem dl lt op l (Some x))"
    using e by (auto simp: st_sem_def cmp_sem_def)
qed

lemma comparison_step_Inr:
  assumes l: "ok l" and st: "st_ok st" and step: "comparison_step op l st = Inr st'"
  shows "st_ok st'" "st_sem st' x \<longleftrightarrow> st_sem st x \<and> cmp_sem dl lt op l (Some x)"
proof -
  from l obtain y where y: "dl l = Some y" by (rule ok_val)
  from step have "op \<in> {Equal, NotEqual} \<or> op \<in> {GreaterThan, GreaterThanOrEqual}
      \<or> op \<in> {LessThan, LessThanOrEqual}"
    by (auto simp: comparison_step_def split: if_splits)
  then have "st_ok st' \<and> (st_sem st' x \<longleftrightarrow> st_sem st x \<and> cmp_sem dl lt op l (Some x))"
  proof (elim disjE)
    assume "op \<in> {Equal, NotEqual}"
    with step l st show ?thesis
      by (auto simp: comparison_step_def st_ok_def st_sem_def cmp_sem_ok [OF y] y
               split: if_splits option.splits)
  next
    assume op: "op \<in> {GreaterThan, GreaterThanOrEqual}"
    let ?b = "\<lparr>rb_value = l, rb_inclusive = (op = GreaterThanOrEqual)\<rparr>"
    from op step obtain c where c: "bound_merge (cs_lower st) Lower ?b = Some c"
        and st': "st' = st\<lparr>cs_lower := Some c\<rparr>"
      by (auto simp: comparison_step_def split: if_splits option.splits)
    have "bound_sem dl lt Lower ?b x \<longleftrightarrow> cmp_sem dl lt op l (Some x)"
      using op y by (auto simp: cmp_sem_def bound_sem_def)
    with bound_merge_sound [OF _ _ c] st l st' show ?thesis
      by (auto simp: st_ok_def st_sem_def)
  next
    assume op: "op \<in> {LessThan, LessThanOrEqual}"
    let ?b = "\<lparr>rb_value = l, rb_inclusive = (op = LessThanOrEqual)\<rparr>"
    from op step obtain c where c: "bound_merge (cs_upper st) Upper ?b = Some c"
        and st': "st' = st\<lparr>cs_upper := Some c\<rparr>"
      by (auto simp: comparison_step_def split: if_splits option.splits)
    have "bound_sem dl lt Upper ?b x \<longleftrightarrow> cmp_sem dl lt op l (Some x)"
      using op y by (auto simp: cmp_sem_def bound_sem_def)
    with bound_merge_sound [OF _ _ c] st l st' show ?thesis
      by (auto simp: st_ok_def st_sem_def)
  qed
  then show "st_ok st'" "st_sem st' x \<longleftrightarrow> st_sem st x \<and> cmp_sem dl lt op l (Some x)" by blast+
qed

lemma comparison_loop_Inr:
  assumes "\<forall>(op, l)\<in>set cs. ok l" "st_ok st" "comparison_loop cs st = Inr st'"
  shows "st_ok st' \<and>
    (st_sem st' x \<longleftrightarrow> st_sem st x \<and> (\<forall>(op, l)\<in>set cs. cmp_sem dl lt op l (Some x)))"
  using assms
proof (induction cs st rule: comparison_loop.induct)
  case (2 op v cs st)
  from "2.prems"(3) obtain s where s: "comparison_step op v st = Inr s"
      "comparison_loop cs s = Inr st'" by (auto split: sum.splits)
  from "2.prems" have v: "ok v" and cs: "\<forall>(op, l)\<in>set cs. ok l" by auto
  note step = comparison_step_Inr [OF v "2.prems"(2) s(1)]
  from "2.IH" [OF s(1) cs step(1) s(2)] step(2) [of x] show ?case by auto
qed simp

lemma comparison_loop_Inl:
  assumes "\<forall>(op, l)\<in>set cs. ok l" "st_ok st" "comparison_loop cs st = Inl r" "r \<noteq> RUnknown"
  shows "r = REmpty \<and> \<not> (st_sem st x \<and> (\<forall>(op, l)\<in>set cs. cmp_sem dl lt op l (Some x)))"
  using assms
proof (induction cs st rule: comparison_loop.induct)
  case (2 op v cs st)
  from "2.prems" have v: "ok v" and cs: "\<forall>(op, l)\<in>set cs. ok l" by auto
  show ?case
  proof (cases "comparison_step op v st")
    case (Inl r')
    with "2.prems"(3,4) have "comparison_step op v st = Inl r" "r \<noteq> RUnknown" by auto
    from comparison_step_Inl [OF v "2.prems"(2) this] show ?thesis by auto
  next
    case (Inr s)
    with "2.prems"(3) have s: "comparison_loop cs s = Inl r" by simp
    note step = comparison_step_Inr [OF v "2.prems"(2) Inr]
    from "2.IH" [OF Inr cs step(1) s "2.prems"(4)] step(2) [of x] show ?thesis by auto
  qed
qed simp

lemma equal_bounds_check_sound:
  assumes "ok v" "dl v = Some x" "\<forall>(side, slot)\<in>set bs. \<forall>l\<in>slot_lits slot. ok l"
    "equal_bounds_check v bs \<noteq> Some RUnknown"
  shows "equal_bounds_check v bs =
    (if \<forall>(side, slot)\<in>set bs. slot_sem dl lt side slot x then None else Some REmpty)"
  using assms
proof (induction v bs rule: equal_bounds_check.induct)
  case (3 v side bound bs)
  then obtain t where t: "value_satisfies side v bound = Some t" by (auto split: option.splits)
  have "t \<longleftrightarrow> bound_sem dl lt side bound x"
    using "3.prems" by (intro value_satisfies_sound [OF _ _ t]) auto
  with 3 t show ?case by (cases t) auto
qed auto

lemma comparison_finish_sound:
  assumes st: "st_ok st" and known: "comparison_finish st \<noteq> RUnknown"
  shows "range_sem dl lt (comparison_finish st) (Some x) \<longleftrightarrow> st_sem st x"
    and "\<forall>l\<in>range_lits (comparison_finish st). ok l"
    and "\<not> range_sem dl lt (comparison_finish st) None"
proof -
  let ?r = "comparison_finish st"
  have "(range_sem dl lt ?r (Some x) \<longleftrightarrow> st_sem st x) \<and> (\<forall>l\<in>range_lits ?r. ok l) \<and>
    \<not> range_sem dl lt ?r None"
  proof (cases "cs_equal st")
    case (Some e)
    with st have e: "ok e" by (simp add: st_ok_def)
    then obtain z where z: "dl e = Some z" by (rule ok_val)
    have mem: "Some z \<in> dl ` set (cs_not_equal st) \<longleftrightarrow> e \<in> set (cs_not_equal st)"
      using ok_mem_image [OF e, of "set (cs_not_equal st)"] st z by (simp add: st_ok_def)
    let ?bs = "[(Lower, cs_lower st), (Upper, cs_upper st)]"
    have "equal_bounds_check e ?bs =
        (if \<forall>(side, slot)\<in>set ?bs. slot_sem dl lt side slot z then None else Some REmpty)"
      using st known Some
      by (intro equal_bounds_check_sound [OF e z]) (auto simp: st_ok_def comparison_finish_def)
    with Some z mem e show ?thesis
      by (auto simp: comparison_finish_def st_sem_def)
  next
    case None
    show ?thesis
    proof (cases "\<exists>lb ub. cs_lower st = Some lb \<and> cs_upper st = Some ub")
      case False
      with None st show ?thesis
        by (auto simp: comparison_finish_def st_sem_def st_ok_def split: option.splits)
    next
      case True
      then obtain lb ub where b: "cs_lower st = Some lb" "cs_upper st = Some ub" by blast
      with st have ok: "ok (rb_value lb)" "ok (rb_value ub)" by (simp_all add: st_ok_def)
      from ok(1) obtain y where y: "dl (rb_value lb) = Some y" by (rule ok_val)
      from ok(2) obtain z where z: "dl (rb_value ub) = Some z" by (rule ok_val)
      from known None b obtain r where r: "literal_value_order (rb_value lb) (rb_value ub) = Some r"
        by (auto simp: comparison_finish_def split: option.splits)
      note ord = order_sound [OF ok r y z]
      have mem: "Some y \<in> dl ` set (cs_not_equal st) \<longleftrightarrow> rb_value lb \<in> set (cs_not_equal st)"
        using ok_mem_image [OF ok(1), of "set (cs_not_equal st)"] st y by (simp add: st_ok_def)
      have sem: "st_sem st x \<longleftrightarrow> (lt y x \<or> rb_inclusive lb \<and> x = y) \<and>
          (lt x z \<or> rb_inclusive ub \<and> x = z) \<and> Some x \<notin> dl ` set (cs_not_equal st)"
        using None b y z by (simp add: st_sem_def bound_sem_def)
      consider "lt y z" | "y = z" "\<not> lt y z" | "lt z y" "y \<noteq> z" "\<not> lt y z"
        using lt_total [of y z] lt_asym [of y z] lt_irrefl by blast
      then show ?thesis
      proof cases
        case 1
        with None b r ord st show ?thesis
          by (auto simp: comparison_finish_def st_sem_def st_ok_def)
      next
        case 2
        have "lt y x \<Longrightarrow> lt x y \<Longrightarrow> False" using lt_asym by blast
        with 2 None b r ord st ok y mem show ?thesis
          by (auto simp: comparison_finish_def sem)
      next
        case 3
        have "lt y x \<Longrightarrow> lt x z \<Longrightarrow> False" "lt y z \<Longrightarrow> False"
          using 3 lt_asym lt_trans by blast+
        with 3 None b r ord st show ?thesis
          by (auto simp: comparison_finish_def sem)
      qed
    qed
  qed
  then show "range_sem dl lt ?r (Some x) \<longleftrightarrow> st_sem st x" "\<forall>l\<in>range_lits ?r. ok l"
    "\<not> range_sem dl lt ?r None" by blast+
qed

lemma st_new [simp]: "st_ok cmp_state_new" "st_sem cmp_state_new x"
  by (simp_all add: st_ok_def st_sem_def cmp_state_new_def)

lemma comparison_range_build_sound:
  assumes cs: "\<forall>(op, l)\<in>set cs. ok l" and known: "comparison_range_build cs \<noteq> RUnknown"
  shows "range_sem dl lt (comparison_range_build cs) v \<longleftrightarrow>
           (\<forall>(op, l)\<in>set cs. cmp_sem dl lt op l v)"
    and "\<forall>l\<in>range_lits (comparison_range_build cs). ok l"
proof -
  let ?r = "comparison_range_build cs"
  have null: "cs \<noteq> [] \<Longrightarrow> \<not> (\<forall>(op, l)\<in>set cs. cmp_sem dl lt op l None)"
    by (cases cs) (auto simp: cmp_sem_def)
  have "(range_sem dl lt ?r v \<longleftrightarrow> (\<forall>(op, l)\<in>set cs. cmp_sem dl lt op l v)) \<and>
    (\<forall>l\<in>range_lits ?r. ok l)"
  proof (cases "cs = []")
    case True
    then show ?thesis by (simp add: comparison_range_build_def)
  next
    case False
    show ?thesis
    proof (cases "comparison_loop cs cmp_state_new")
      case (Inl r)
      with False known have r: "?r = r" "r \<noteq> RUnknown" by (auto simp: comparison_range_build_def)
      note loop = comparison_loop_Inl [OF cs st_new(1) Inl r(2)]
      show ?thesis using loop null [OF False] r(1) by (cases v) auto
    next
      case (Inr st)
      with False known have r: "?r = comparison_finish st" "comparison_finish st \<noteq> RUnknown"
        by (auto simp: comparison_range_build_def)
      note loop = comparison_loop_Inr [OF cs st_new(1) Inr]
      then have ok: "st_ok st" by blast
      note fin = comparison_finish_sound [OF ok r(2)]
      show ?thesis using loop fin null [OF False] r(1) by (cases v) auto
    qed
  qed
  then show "range_sem dl lt ?r v \<longleftrightarrow> (\<forall>(op, l)\<in>set cs. cmp_sem dl lt op l v)"
    "\<forall>l\<in>range_lits ?r. ok l" by blast+
qed

lemma range_contains_value_iff:
  "range_contains_value rv l \<longleftrightarrow>
     (\<forall>b. rv_lower rv = Some b \<longrightarrow> value_satisfies Lower l b = Some True) \<and>
     (\<forall>b. rv_upper rv = Some b \<longrightarrow> value_satisfies Upper l b = Some True) \<and>
     l \<notin> set (rv_not_equal rv)"
  by (auto simp: range_contains_value_def split: option.splits)

lemma slot_satisfied:
  assumes "ok l" "dl l = Some x" "\<forall>m\<in>slot_lits slot. ok m"
    and "\<forall>b. slot = Some b \<longrightarrow> value_satisfies side l b = Some True"
  shows "slot_sem dl lt side slot x"
  using assms value_satisfies_sound [of l _ side True x] by (cases slot) auto

lemma slot_decided:
  assumes "ok l" "dl l = Some x" "\<forall>m\<in>slot_lits slot. ok m \<and> literal_value_order l m \<noteq> None"
  shows "(\<forall>b. slot = Some b \<longrightarrow> value_satisfies side l b = Some True) \<longleftrightarrow> slot_sem dl lt side slot x"
proof (cases slot)
  case (Some b)
  with assms obtain t where t: "value_satisfies side l b = Some t"
    by (auto simp: value_satisfies_def)
  from value_satisfies_sound [OF assms(1) _ t assms(2)] assms(3) Some t show ?thesis by auto
qed simp

lemma range_contains_value_sound:
  assumes "ok l" "dl l = Some x" "\<forall>m\<in>range_lits (RRange lo up ne). ok m"
    and "range_contains_value (range_view_new lo up ne) l"
  shows "range_sem dl lt (RRange lo up ne) (Some x)"
proof -
  have "Some x \<notin> dl ` set ne"
    using ok_mem_image [OF assms(1), of "set ne"] assms by (auto simp: range_contains_value_iff)
  with assms show ?thesis
    by (auto simp: range_contains_value_iff intro!: slot_satisfied)
qed

lemma range_contains_value_exact:
  assumes "ok l" "dl l = Some x" "\<forall>m\<in>range_lits (RRange lo up ne). ok m"
    and "\<forall>m\<in>slot_lits lo \<union> slot_lits up. literal_value_order l m \<noteq> None"
  shows "range_contains_value (range_view_new lo up ne) l \<longleftrightarrow>
           range_sem dl lt (RRange lo up ne) (Some x)"
proof -
  have "Some x \<in> dl ` set ne \<longleftrightarrow> l \<in> set ne"
    using ok_mem_image [OF assms(1), of "set ne"] assms by auto
  moreover have
    "(\<forall>b. lo = Some b \<longrightarrow> value_satisfies Lower l b = Some True) \<longleftrightarrow> slot_sem dl lt Lower lo x"
    "(\<forall>b. up = Some b \<longrightarrow> value_satisfies Upper l b = Some True) \<longleftrightarrow> slot_sem dl lt Upper up x"
    by (rule slot_decided; use assms in auto)+
  ultimately show ?thesis by (simp add: range_contains_value_iff)
qed

lemma in_set_filter_sound:
  assumes vs: "\<forall>l\<in>set vs. ok l" and lits: "\<forall>m\<in>range_lits (RRange lo up ne). ok m"
    and ord: "\<forall>l\<in>set vs. \<forall>m\<in>slot_lits lo \<union> slot_lits up. literal_value_order l m \<noteq> None"
  shows "v \<noteq> None \<and> v \<in> dl ` set (filter (range_contains_value (range_view_new lo up ne)) vs)
    \<longleftrightarrow> range_sem dl lt (RRange lo up ne) v \<and> v \<noteq> None \<and> v \<in> dl ` set vs"
proof (cases v)
  case (Some x)
  have "range_contains_value (range_view_new lo up ne) l \<longleftrightarrow> range_sem dl lt (RRange lo up ne) v"
    if "l \<in> set vs" "dl l = v" for l
    using that vs lits ord Some by (intro trans [OF range_contains_value_exact]) auto
  then show ?thesis by auto
qed simp

lemma comparison_finish_slots:
  "comparison_finish st = RRange lo up ne \<Longrightarrow> lo = cs_lower st \<and> up = cs_upper st"
proof -
  assume *: "comparison_finish st = RRange lo up ne"
  have "equal_bounds_check v bs \<noteq> Some (RRange lo up ne)" for v bs
    by (induction v bs rule: equal_bounds_check.induct)
      (auto split: option.splits bool.splits)
  with * show ?thesis
    by (auto simp: comparison_finish_def split: option.splits if_splits ordering.splits)
qed

lemma comparison_range_build_slots:
  assumes "comparison_range_build cs = RRange lo up ne"
  shows "slot_lits lo \<union> slot_lits up \<subseteq> ord_lits cs"
proof -
  have no_range: "comparison_loop cs st \<noteq> Inl (RRange lo up ne)" for cs st
    by (induction cs st rule: comparison_loop.induct)
      (auto simp: comparison_step_def split: sum.splits option.splits if_splits)
  with assms obtain st where st: "comparison_loop cs cmp_state_new = Inr st"
      "comparison_finish st = RRange lo up ne"
    by (auto simp: comparison_range_build_def split: if_splits sum.splits)
  from comparison_loop_slots [OF st(1)] comparison_finish_slots [OF st(2)] show ?thesis
    by (simp add: cmp_state_new_def)
qed

lemma in_set_range_build_sound:
  assumes vs: "\<forall>l\<in>set vs. ok l" and cs: "\<forall>(op, l)\<in>set cs. ok l"
    and ord: "orderable vs cs" and known: "in_set_range_build vs cs \<noteq> RUnknown"
  shows "range_sem dl lt (in_set_range_build vs cs) v \<longleftrightarrow>
           (v \<noteq> None \<and> v \<in> dl ` set vs) \<and> (\<forall>(op, l)\<in>set cs. cmp_sem dl lt op l v)"
    and "\<forall>l\<in>range_lits (in_set_range_build vs cs). ok l"
proof -
  let ?r = "in_set_range_build vs cs" and ?f = "comparison_range_build cs"
  have "(range_sem dl lt ?r v \<longleftrightarrow> (v \<noteq> None \<and> v \<in> dl ` set vs) \<and>
          (\<forall>(op, l)\<in>set cs. cmp_sem dl lt op l v)) \<and> (\<forall>l\<in>range_lits ?r. ok l)"
  proof (cases "vs = [] \<or> cs = []")
    case True
    with vs known show ?thesis by (auto simp: in_set_range_build_def)
  next
    case False
    with known have inc: "\<not> list_ex literal_value_is_incomparable vs" and f: "?f \<noteq> RUnknown"
      by (auto simp: in_set_range_build_def split: if_splits)
    note sem = comparison_range_build_sound(1) [OF cs f, of v, symmetric]
      and lits = comparison_range_build_sound(2) [OF cs f]
    show ?thesis
    proof (cases ?f)
      case (REqual l)
      with lits have "ok l" by simp
      then have "dl l \<in> dl ` set vs \<longleftrightarrow> l \<in> set vs" using ok_mem_image vs by simp
      with REqual False inc lits show ?thesis unfolding sem by (auto simp: in_set_range_build_def)
    next
      case (RRange lo up ne)
      let ?vs = "filter (range_contains_value (range_view_new lo up ne)) vs"
      have r: "range_sem dl lt ?r v \<longleftrightarrow> v \<noteq> None \<and> v \<in> dl ` set ?vs"
        "range_lits ?r = set ?vs"
        using RRange False inc
        by (auto simp: in_set_range_build_def simp del: set_filter filter_eq_Cons_iff
                 split: list.splits)
      have "v \<noteq> None \<and> v \<in> dl ` set ?vs \<longleftrightarrow>
          range_sem dl lt (RRange lo up ne) v \<and> v \<noteq> None \<and> v \<in> dl ` set vs"
      proof (rule in_set_filter_sound [OF vs])
        show "\<forall>m\<in>range_lits (RRange lo up ne). ok m" using lits RRange by simp
        show "\<forall>l\<in>set vs. \<forall>m\<in>slot_lits lo \<union> slot_lits up. literal_value_order l m \<noteq> None"
          using ord comparison_range_build_slots [OF RRange] unfolding orderable_def by blast
      qed
      with r RRange vs show ?thesis unfolding sem by auto
    qed (use False inc f known vs in \<open>auto simp: in_set_range_build_def sem\<close>)
  qed
  then show "range_sem dl lt ?r v \<longleftrightarrow> (v \<noteq> None \<and> v \<in> dl ` set vs) \<and>
      (\<forall>(op, l)\<in>set cs. cmp_sem dl lt op l v)" "\<forall>l\<in>range_lits ?r. ok l" by blast+
qed

lemma any_of_sem: "list_ex (\<lambda>l. cmp_sem dl lt Equal l v) ls \<longleftrightarrow> v \<noteq> None \<and> v \<in> dl ` set ls"
proof (cases v)
  case None
  then show ?thesis by (simp add: list_ex_iff cmp_sem_def)
next
  case (Some x)
  have "cmp_sem dl lt Equal l v \<longleftrightarrow> dl l = v" for l
    using Some by (auto simp: cmp_sem_def split: option.splits)
  then show ?thesis using Some by (auto simp: list_ex_iff intro: rev_image_eqI)
qed

lemma tc_sem_parts:
  "tc_sem dl lt tc v \<longleftrightarrow>
     (\<forall>(op, l)\<in>set (tc_comparisons tc). cmp_sem dl lt op l v) \<and>
     (\<forall>c vs. tc = AnyOf c vs \<longrightarrow> v \<noteq> None \<and> v \<in> dl ` set vs)"
  by (cases tc) (simp_all add: any_of_sem)

lemma column_range_build_sound:
  assumes lits: "\<forall>tc\<in>set cs. \<forall>l\<in>tc_lits tc. ok l" and ord: "tcs_orderable cs"
    and known: "column_range_build cs \<noteq> RUnknown"
  shows "range_sem dl lt (column_range_build cs) v \<longleftrightarrow> (\<forall>tc\<in>set cs. tc_sem dl lt tc v)"
    and "\<forall>l\<in>range_lits (column_range_build cs). ok l"
proof -
  let ?r = "column_range_build cs"
  have "(range_sem dl lt ?r v \<longleftrightarrow> (\<forall>tc\<in>set cs. tc_sem dl lt tc v)) \<and> (\<forall>l\<in>range_lits ?r. ok l)"
  proof (cases "cs = []")
    case True
    then show ?thesis by (simp add: column_range_build_def)
  next
    case False
    with known obtain comps s where part: "constraints_partition cs [] None = Some (comps, s)"
      by (auto simp: column_range_build_def split: option.splits)
    note parts = constraints_partition_parts [OF part]
    have comps: "comps = concat (map tc_comparisons cs)" using parts(1) by simp
    have tc: "l \<in> tc_lits tc" if "(op, l) \<in> set (tc_comparisons tc)" for op l tc
      using that by (cases tc) auto
    have ok_comps: "\<forall>(op, l)\<in>set comps. ok l"
      unfolding comps using lits by (auto dest!: tc)
    have sem: "(\<forall>tc\<in>set cs. tc_sem dl lt tc v) \<longleftrightarrow>
        (\<forall>(op, l)\<in>set comps. cmp_sem dl lt op l v) \<and>
        (\<forall>c vs. AnyOf c vs \<in> set cs \<longrightarrow> v \<noteq> None \<and> v \<in> dl ` set vs)"
      unfolding tc_sem_parts comps set_concat set_map by blast
    show ?thesis
    proof (cases s)
      case None
      with False part have r: "?r = comparison_range_build comps"
        by (simp add: column_range_build_def)
      have "\<forall>c vs. AnyOf c vs \<notin> set cs" using parts(3) None by blast
      with comparison_range_build_sound [OF ok_comps known [unfolded r]]
      show ?thesis unfolding sem r by simp
    next
      case (Some vs)
      with False part have r: "?r = in_set_range_build vs comps"
        by (simp add: column_range_build_def)
      from parts(4) [OF Some] obtain c where c: "AnyOf c vs \<in> set cs"
          and only: "\<forall>c ws. AnyOf c ws \<in> set cs \<longrightarrow> ws = vs" by blast
      have ok_vs: "\<forall>l\<in>set vs. ok l" using bspec [OF lits c] by simp
      have "orderable vs comps"
        using ord parts(2) Some by (simp add: tcs_orderable_def comps)
      note build = in_set_range_build_sound [OF ok_vs ok_comps this known [unfolded r]]
      have "(\<forall>c ws. AnyOf c ws \<in> set cs \<longrightarrow> v \<noteq> None \<and> v \<in> dl ` set ws) \<longleftrightarrow>
          v \<noteq> None \<and> v \<in> dl ` set vs"
        using c only by blast
      with build show ?thesis unfolding sem r by (simp add: conj_commute)
    qed
  qed
  then show "range_sem dl lt ?r v \<longleftrightarrow> (\<forall>tc\<in>set cs. tc_sem dl lt tc v)"
    "\<forall>l\<in>range_lits ?r. ok l" by blast+
qed

lemma bound_covered_sound:
  assumes "\<forall>l\<in>slot_lits cached. ok l" "\<forall>l\<in>slot_lits new. ok l" "bound_covered side cached new"
    and "slot_sem dl lt side new x"
  shows "slot_sem dl lt side cached x"
proof (cases cached)
  case (Some c)
  with assms obtain n where n: "new = Some n" by (cases new) auto
  with assms Some have ok: "ok (rb_value n)" "ok (rb_value c)" by auto
  from ok(1) obtain y where y: "dl (rb_value n) = Some y" by (rule ok_val)
  from ok(2) obtain z where z: "dl (rb_value c) = Some z" by (rule ok_val)
  from assms(3) Some n obtain r where r: "literal_value_order (rb_value n) (rb_value c) = Some r"
      and t: "case orient side r of OrdGreater \<Rightarrow> True | OrdLess \<Rightarrow> False
              | OrdEqual \<Rightarrow> \<not> rb_inclusive n \<or> rb_inclusive c"
    by (auto simp: bound_at_least_as_tight_def)
  from assms(4) n have "inside side x y \<or> rb_inclusive n \<and> x = y"
    by (simp add: bound_sem_inside [OF y])
  with orient_sound [OF ok r y z, of side] t inside_trans [of side x y z]
  have "inside side x z \<or> rb_inclusive c \<and> x = z" by (auto split: if_splits)
  with Some show ?thesis by (simp add: bound_sem_inside [OF z])
qed simp

lemma range_subsumes_range_sound:
  assumes c: "\<forall>l\<in>range_lits (RRange lo up ne). ok l"
    and n: "\<forall>l\<in>range_lits (RRange lo' up' ne'). ok l"
    and dec: "excl_decided (RRange lo up ne) (RRange lo' up' ne')"
    and sub: "range_subsumes_range (range_view_new lo up ne) (range_view_new lo' up' ne')"
    and x: "range_sem dl lt (RRange lo' up' ne') (Some x)"
  shows "range_sem dl lt (RRange lo up ne) (Some x)"
proof -
  have bounds: "slot_sem dl lt Lower lo x" "slot_sem dl lt Upper up x"
    by (rule bound_covered_sound [where new = lo']; use sub x c n in
          \<open>simp add: range_subsumes_range_def Let_def\<close>)
      (rule bound_covered_sound [where new = up']; use sub x c n in
          \<open>simp add: range_subsumes_range_def Let_def\<close>)
  have "Some x \<notin> dl ` set ne"
  proof
    assume "Some x \<in> dl ` set ne"
    then obtain l where lx: "dl l = Some x" and l: "l \<in> set ne" by force
    have "range_view_new lo' up' ne'\<lparr>rv_not_equal := []\<rparr> = range_view_new lo' up' []"
      by (simp add: range_view_new_def)
    with sub l have "l \<in> set ne' \<or> \<not> range_contains_value (range_view_new lo' up' []) l"
      by (auto simp: range_subsumes_range_def Let_def list_all_iff)
    moreover have "l \<notin> set ne'" using x lx by force
    moreover have "range_contains_value (range_view_new lo' up' []) l \<longleftrightarrow>
        range_sem dl lt (RRange lo' up' []) (Some x)"
      using c n l lx dec by (intro range_contains_value_exact) (auto simp: excl_decided_def)
    ultimately show False using x by simp
  qed
  with bounds show ?thesis by auto
qed

lemma column_range_subsumes_sound:
  assumes "\<forall>l\<in>range_lits cached. ok l" "\<forall>l\<in>range_lits new. ok l" "excl_decided cached new"
    and "column_range_subsumes cached new" "range_sem dl lt new v"
  shows "range_sem dl lt cached v"
proof -
  have point: "range_sem dl lt (RRange lo up ne) (Some x)"
    if "range_contains_value (range_view_new lo up ne) l" "cached = RRange lo up ne" "ok l"
      "dl l = Some x" for lo up ne l x
    using that assms(1) by (intro range_contains_value_sound) auto
  show ?thesis
  proof (cases "\<exists>lo up ne lo' up' ne'. cached = RRange lo up ne \<and> new = RRange lo' up' ne'")
    case True
    then obtain lo up ne lo' up' ne' where r: "cached = RRange lo up ne" "new = RRange lo' up' ne'"
      by blast
    with assms(5) obtain x where x: "v = Some x" by (cases v) auto
    show ?thesis
      using range_subsumes_range_sound [of lo up ne lo' up' ne' x] assms r x by simp
  next
    case False
    with assms show ?thesis
      by (cases cached; cases new; cases v)
        (auto simp: list_all_iff simp del: range_sem.simps(6) intro: point rev_image_eqI)
  qed
qed

end

locale ordered_domain = column_domain +
  assumes order_defined: "ok a \<Longrightarrow> ok b \<Longrightarrow> literal_value_order a b \<noteq> None"
begin

lemma ok_orderable:
  assumes "\<forall>tc\<in>set cs. \<forall>l\<in>tc_lits tc. ok l"
  shows "tcs_orderable cs"
proof -
  have "l \<in> set (tc_set_values tc) \<Longrightarrow> l \<in> tc_lits tc"
    "(op, l) \<in> set (tc_comparisons tc) \<Longrightarrow> l \<in> tc_lits tc" for op l tc
    by (cases tc; auto)+
  with assms show ?thesis
    unfolding tcs_orderable_def orderable_def ord_lits_def
    by (auto intro!: order_defined [simplified] simp del: not_None_eq)
qed

lemma ok_excl_decided:
  assumes "\<forall>l\<in>range_lits cached. ok l" "\<forall>l\<in>range_lits new. ok l"
  shows "excl_decided cached new"
  using assms order_defined by (auto simp: excl_decided_def simp del: not_None_eq)

lemma column_range_build_exact:
  assumes "\<forall>tc\<in>set cs. \<forall>l\<in>tc_lits tc. ok l" "column_range_build cs \<noteq> RUnknown"
  shows "range_sem dl lt (column_range_build cs) v \<longleftrightarrow> (\<forall>tc\<in>set cs. tc_sem dl lt tc v)"
  using column_range_build_sound(1) [OF assms(1) ok_orderable assms(2)] assms(1) by simp

lemma column_range_build_lits:
  assumes "\<forall>tc\<in>set cs. \<forall>l\<in>tc_lits tc. ok l" "column_range_build cs \<noteq> RUnknown"
  shows "\<forall>l\<in>range_lits (column_range_build cs). ok l"
  using column_range_build_sound(2) [OF assms(1) ok_orderable assms(2)] assms(1) by simp

lemma column_range_subsumes_correct:
  assumes "\<forall>l\<in>range_lits cached. ok l" "\<forall>l\<in>range_lits new. ok l"
    and "column_range_subsumes cached new" "range_sem dl lt new v"
  shows "range_sem dl lt cached v"
  using column_range_subsumes_sound [OF assms(1,2) ok_excl_decided assms(3,4)] assms(1,2) by simp

lemma order_self:
  assumes "ok l"
  shows "literal_value_order l l = Some OrdEqual"
proof -
  from assms obtain x where x: "dl l = Some x" by (rule ok_val)
  from order_defined [OF assms assms] obtain r where r: "literal_value_order l l = Some r" by blast
  from order_sound [OF assms assms r x x] r show ?thesis by (simp add: lt_irrefl)
qed

text \<open>A range covers itself, so an identical query is always covered.\<close>

lemma column_range_subsumes_refl:
  assumes "\<forall>l\<in>range_lits r. ok l" "r \<noteq> RUnknown" "r \<noteq> REmpty"
  shows "column_range_subsumes r r"
proof -
  have "bound_covered side slot slot" if "\<forall>l\<in>slot_lits slot. ok l" for side slot
    using that order_self
    by (cases slot; cases side) (auto simp: bound_at_least_as_tight_def)
  with assms show ?thesis
    by (cases r) (auto simp: range_subsumes_range_def Let_def list_all_iff)
qed

end

subsection \<open>Column types\<close>

text \<open>
  A numeric column holds a number or \<open>NaN\<close>, which the server sorts above every number.
\<close>

datatype pg_num = Num f64 | NaN

fun num_lt :: "pg_num \<Rightarrow> pg_num \<Rightarrow> bool" where
  "num_lt (Num a) (Num b) = (a < b)"
| "num_lt (Num _) NaN = True"
| "num_lt NaN _ = False"

fun num_dl :: "literal_value \<Rightarrow> pg_num option" where
  "num_dl (LInteger n) = Some (Num (Fin (of_int n)))"
| "num_dl (LFloat f) = Some (Num f)"
| "num_dl _ = None"

fun is_int_lit :: "literal_value \<Rightarrow> bool" where
  "is_int_lit (LInteger _) = True"
| "is_int_lit _ = False"

fun is_float_lit :: "literal_value \<Rightarrow> bool" where
  "is_float_lit (LFloat _) = True"
| "is_float_lit _ = False"

definition numeric_kind :: "literal_value set \<Rightarrow> bool" where
  "numeric_kind S \<longleftrightarrow> (\<forall>l\<in>S. is_int_lit l) \<or> (\<forall>l\<in>S. is_float_lit l)"

fun bool_dl :: "literal_value \<Rightarrow> bool option" where
  "bool_dl (LBoolean b) = Some b"
| "bool_dl _ = None"

fun is_bool_lit :: "literal_value \<Rightarrow> bool" where
  "is_bool_lit (LBoolean _) = True"
| "is_bool_lit _ = False"

fun text_dl :: "literal_value \<Rightarrow> string option" where
  "text_dl (LString s) = Some s"
| "text_dl _ = None"

fun is_text_lit :: "literal_value \<Rightarrow> bool" where
  "is_text_lit (LString _) = True"
| "is_text_lit _ = False"

lemma is_int_lit_iff: "is_int_lit l \<longleftrightarrow> (\<exists>n. l = LInteger n)"
  and is_float_lit_iff: "is_float_lit l \<longleftrightarrow> (\<exists>f. l = LFloat f)"
  and is_bool_lit_iff: "is_bool_lit l \<longleftrightarrow> (\<exists>b. l = LBoolean b)"
  and is_text_lit_iff: "is_text_lit l \<longleftrightarrow> (\<exists>s. l = LString s)"
  by (cases l; simp)+

lemmas lit_kind_iffs = is_int_lit_iff is_float_lit_iff is_bool_lit_iff is_text_lit_iff

lemma num_lt_irrefl: "\<not> num_lt x x"
  by (cases x) auto

lemma num_lt_trans: "num_lt x y \<Longrightarrow> num_lt y z \<Longrightarrow> num_lt x z"
  by (cases x; cases y; cases z) auto

lemma num_lt_total: "x \<noteq> y \<Longrightarrow> num_lt x y \<or> num_lt y x"
  by (cases x; cases y) auto

interpretation int_col: ordered_domain num_dl num_lt is_int_lit
  by unfold_locales
    (rule num_lt_irrefl, erule (1) num_lt_trans, erule num_lt_total,
     auto simp: is_int_lit_iff cmp_def split: if_splits)

interpretation float_col: ordered_domain num_dl num_lt is_float_lit
  by unfold_locales
    (rule num_lt_irrefl, erule (1) num_lt_trans, erule num_lt_total,
     auto simp: is_float_lit_iff cmp_def split: if_splits)

interpretation bool_col: column_domain bool_dl "(<)" is_bool_lit
  by unfold_locales (auto simp: is_bool_lit_iff)

text \<open>
  A collation is any strict linear order on strings: deterministic collations identify only
  equal strings.
\<close>

locale collation =
  fixes coll :: "string \<Rightarrow> string \<Rightarrow> bool"
  assumes coll_irrefl: "\<not> coll s s"
    and coll_trans: "coll s t \<Longrightarrow> coll t u \<Longrightarrow> coll s u"
    and coll_total: "s \<noteq> t \<Longrightarrow> coll s t \<or> coll t s"

sublocale collation \<subseteq> text_col: column_domain text_dl coll is_text_lit
  by unfold_locales
    (rule coll_irrefl, erule (1) coll_trans, erule coll_total, auto simp: is_text_lit_iff)

context collation
begin

lemmas text_build_sound = text_col.column_range_build_sound
lemmas text_subsumes_sound = text_col.column_range_subsumes_sound

end

interpretation c_collation: collation "(<) :: string \<Rightarrow> string \<Rightarrow> bool"
  by unfold_locales auto

subsection \<open>Properties\<close>

text \<open>
  C6. On a numeric column, whenever the reduction of the constraints of a column gives a known
  range, that range accepts exactly the column values (numbers, \<open>NaN\<close>, and \<open>NULL\<close>) that satisfy
  every one of the constraints, provided the literals are all integers or all floats.
\<close>

theorem column_range_build_numeric:
  assumes "numeric_kind (\<Union>tc\<in>set cs. tc_lits tc)" "column_range_build cs \<noteq> RUnknown"
  shows "range_sem num_dl num_lt (column_range_build cs) v \<longleftrightarrow>
           (\<forall>tc\<in>set cs. tc_sem num_dl num_lt tc v)"
proof -
  from assms(1) consider "\<forall>tc\<in>set cs. \<forall>l\<in>tc_lits tc. is_int_lit l"
    | "\<forall>tc\<in>set cs. \<forall>l\<in>tc_lits tc. is_float_lit l"
    by (auto simp: numeric_kind_def)
  then show ?thesis
    by cases (simp_all only: assms(2) int_col.column_range_build_exact
        float_col.column_range_build_exact simp_thms)
qed

theorem column_range_build_numeric_witness:
  "range_sem num_dl num_lt
     (column_range_build [Comparison ''x'' GreaterThan (LInteger 3), AnyOf ''x'' [LInteger 2, LInteger 7]])
     (Some (Num (Fin 7)))"
  using column_range_build_numeric
    [of "[Comparison ''x'' GreaterThan (LInteger 3), AnyOf ''x'' [LInteger 2, LInteger 7]]"
        "Some (Num (Fin 7))"]
  by (simp add: numeric_kind_def cmp_sem_def range_simps)

text \<open>
  C7. On a text column under any collation, the reduction is exact in the same sense, provided
  a value set is not combined with an ordering bound on the same column.
\<close>

theorem column_range_build_text:
  assumes "collation coll" "\<forall>tc\<in>set cs. \<forall>l\<in>tc_lits tc. is_text_lit l"
    and "tcs_orderable cs" "column_range_build cs \<noteq> RUnknown"
  shows "range_sem text_dl coll (column_range_build cs) v \<longleftrightarrow>
           (\<forall>tc\<in>set cs. tc_sem text_dl coll tc v)"
  by (rule collation.text_build_sound(1) [OF assms])

theorem column_range_build_text_witness:
  "range_sem text_dl (<)
     (column_range_build [Comparison ''s'' GreaterThan (LString ''a''), Comparison ''s'' NotEqual (LString ''b'')])
     (Some ''c'')"
  using column_range_build_text
    [OF c_collation.collation_axioms,
     of "[Comparison ''s'' GreaterThan (LString ''a''), Comparison ''s'' NotEqual (LString ''b'')]"
        "Some ''c''"]
  by (simp add: range_simps cmp_sem_def tcs_orderable_def orderable_def less_char_def)

text \<open>
  C8. Range subsumption is sound on numeric columns when the literals of the two ranges are all
  integers or all floats: if a cached range subsumes a new range, every column value the new range
  accepts, \<open>NaN\<close> included, is accepted by the cached range.
\<close>

theorem column_range_subsumes_numeric:
  assumes "numeric_kind (range_lits cached \<union> range_lits new)"
    and "column_range_subsumes cached new" "range_sem num_dl num_lt new v"
  shows "range_sem num_dl num_lt cached v"
proof -
  from assms(1) consider "\<forall>l\<in>range_lits cached. is_int_lit l" "\<forall>l\<in>range_lits new. is_int_lit l"
    | "\<forall>l\<in>range_lits cached. is_float_lit l" "\<forall>l\<in>range_lits new. is_float_lit l"
    by (auto simp: numeric_kind_def)
  then show ?thesis
    by cases (rule int_col.column_range_subsumes_correct [OF _ _ assms(2,3)]
        float_col.column_range_subsumes_correct [OF _ _ assms(2,3)]; assumption)+
qed

theorem column_range_subsumes_numeric_witness:
  "range_sem num_dl num_lt
     (RRange (Some \<lparr>rb_value = LInteger 0, rb_inclusive = False\<rparr>) None [LInteger 4])
     (Some (Num (Fin 5)))"
  using column_range_subsumes_numeric
    [of "RRange (Some \<lparr>rb_value = LInteger 0, rb_inclusive = False\<rparr>) None [LInteger 4]"
        "REqual (LInteger 5)" "Some (Num (Fin 5))"]
  by (simp add: numeric_kind_def range_simps)

subsection \<open>Where the conditions matter\<close>

text \<open>
  A value set over text combined with an ordering bound reduces to the empty range although a
  member satisfies both constraints: the filter counts an incomparable bound as not containing
  the member.
\<close>

lemma text_in_set_with_bound_is_empty:
  "column_range_build
     [AnyOf ''s'' [LString ''a'', LString ''b''], Comparison ''s'' GreaterThanOrEqual (LString ''a'')]
   = REmpty"
  "tc_sem text_dl (<) (AnyOf ''s'' [LString ''a'', LString ''b'']) (Some ''b'')"
  "tc_sem text_dl (<) (Comparison ''s'' GreaterThanOrEqual (LString ''a'')) (Some ''b'')"
  by (simp_all add: range_simps cmp_sem_def less_char_def)

text \<open>Two spellings of one number reduce to the empty range: literals compare structurally.\<close>

lemma mixed_equality_is_empty:
  "column_range_build [Comparison ''x'' Equal (LInteger 5), Comparison ''x'' Equal (LFloat (Fin 5))]
   = REmpty"
  "tc_sem num_dl num_lt (Comparison ''x'' Equal (LInteger 5)) (Some (Num (Fin 5)))"
  "tc_sem num_dl num_lt (Comparison ''x'' Equal (LFloat (Fin 5))) (Some (Num (Fin 5)))"
  by (simp_all add: range_simps cmp_sem_def)

text \<open>
  A cached exclusion that cannot be ordered against the new bounds counts as outside them:
  \<open>x <> 10\<close> is reported to subsume \<open>x > 9.5\<close>, which accepts 10, and \<open>s <> 'm'\<close> to subsume
  \<open>s >= 'a'\<close>, which accepts \<open>'m'\<close>.
\<close>

lemma mixed_exclusion_subsumed:
  "column_range_subsumes
     (column_range_build [Comparison ''x'' NotEqual (LInteger 10)])
     (column_range_build [Comparison ''x'' GreaterThan (LFloat (Fin (19 / 2)))])"
  "tc_sem num_dl num_lt (Comparison ''x'' GreaterThan (LFloat (Fin (19 / 2)))) (Some (Num (Fin 10)))"
  "\<not> tc_sem num_dl num_lt (Comparison ''x'' NotEqual (LInteger 10)) (Some (Num (Fin 10)))"
  by (simp_all add: range_simps cmp_sem_def)

lemma text_exclusion_subsumed:
  "column_range_subsumes
     (column_range_build [Comparison ''s'' NotEqual (LString ''m'')])
     (column_range_build [Comparison ''s'' GreaterThanOrEqual (LString ''a'')])"
  "tc_sem text_dl (<) (Comparison ''s'' GreaterThanOrEqual (LString ''a'')) (Some ''m'')"
  "\<not> tc_sem text_dl (<) (Comparison ''s'' NotEqual (LString ''m'')) (Some ''m'')"
  by (simp_all add: range_simps cmp_sem_def less_char_def)

end
