(* ===== verification/Resolved.thy ===== *)
theory Resolved
  imports Literals
begin

text \<open>
  The resolved query AST (\<^verbatim>\<open>src/query/resolved/mod.rs\<close>) with the navigation functions of
  \<^verbatim>\<open>src/query/resolved/analysis.rs\<close> and the cast stripping of \<^verbatim>\<open>src/query/cast.rs\<close> that the
  constraint analysis uses.

  Each struct of the mutually recursive group is a datatype with one constructor whose
  arguments are the fields in source order; \<^verbatim>\<open>Box\<close> is the identity.
\<close>

datatype arithmetic_op = ArAdd | ArSubtract | ArMultiply | ArDivide | ArModulo
datatype sub_link_type = SlExists | SlAny | SlAll | SlExpr
datatype set_op_type = SoUnion | SoIntersect | SoExcept
datatype null_order = NullsDefault | NullsFirst | NullsLast
datatype order_direction = Asc | Desc
datatype join_type = JInner | JLeft | JRight | JFull
datatype frame_mode = FmRows | FmRange | FmGroups
datatype frame_exclusion = FxNoOthers | FxCurrentRow | FxGroup | FxTies
datatype subquery_kind = SkInclusion | SkExclusion | SkScalar

record table_alias =
  ta_name :: string
  ta_columns :: "string list"

record column_metadata =
  cm_name :: string
  cm_position :: nat
  cm_type_oid :: oid
  cm_data_type :: pg_type
  cm_type_name :: string
  cm_cache_type_name :: string
  cm_is_primary_key :: bool

record resolved_table_node =
  rt_schema :: string
  rt_name :: string
  rt_alias :: "string option"
  rt_relation_oid :: oid

record resolved_column_node =
  rc_schema :: string
  rc_table :: string
  rc_table_alias :: "string option"
  rc_column :: string
  rc_column_metadata :: column_metadata

record resolved_limit_clause =
  lc_count :: "literal_value option"
  lc_offset :: "literal_value option"

text \<open>\<^verbatim>\<open>PartialEq for ResolvedColumnNode\<close> leaves the alias out.\<close>

definition column_eq :: "resolved_column_node \<Rightarrow> resolved_column_node \<Rightarrow> bool" where
  "column_eq a b \<longleftrightarrow>
     rc_schema a = rc_schema b \<and> rc_table a = rc_table b \<and> rc_column a = rc_column b \<and>
     rc_column_metadata a = rc_column_metadata b"

text \<open>
  The structs around the recursive core take the types of their recursive fields as parameters:
  \<open>'s\<close> is \<^verbatim>\<open>ResolvedScalarExpr\<close>, \<open>'w\<close> is \<^verbatim>\<open>ResolvedWhereExpr\<close>, \<open>'t\<close> is \<^verbatim>\<open>ResolvedTableSource\<close>
  and \<open>'q\<close> is \<^verbatim>\<open>ResolvedQueryExpr\<close>.
\<close>

datatype 's resolved_order_by_clause =
    OrderBy 's order_direction null_order

datatype 's resolved_frame_bound =
    FbUnboundedPreceding
  | FbOffsetPreceding 's
  | FbCurrentRow
  | FbOffsetFollowing 's
  | FbUnboundedFollowing

datatype 's resolved_window_frame =
    WindowFrame frame_mode "'s resolved_frame_bound" "'s resolved_frame_bound" frame_exclusion

datatype 's resolved_window_spec =
    WindowSpec "'s list" "'s resolved_order_by_clause list" "'s resolved_window_frame option"

datatype ('s, 'w) resolved_function_call =
    FunctionCall string "'s list" bool bool "'s resolved_order_by_clause list" "'w option"
      "'s resolved_window_spec option"

datatype ('s, 'w) resolved_case_when =
    CaseWhen 'w 's

datatype ('s, 'w) resolved_case_expr =
    CaseExpr "'s option" "('s, 'w) resolved_case_when list" "'s option"

datatype 's resolved_select_column =
    SelectColumn 's "string option"

datatype 's resolved_select_columns =
    NoColumns
  | Columns "'s resolved_select_column list"

datatype 'w resolved_join_qual =
    JoinOn 'w
  | JoinUsing "string list" 'w
  | JoinCross

datatype ('s, 'w, 't) resolved_select_node =
    SelectNode (sn_distinct: bool) (sn_columns: "'s resolved_select_columns")
      (sn_from: "'t list") (sn_where_clause: "'w option")
      (sn_group_by: "resolved_column_node list") (sn_having: "'w option")

datatype ('s, 'w, 't, 'q) resolved_query_body =
    BSelect "('s, 'w, 't) resolved_select_node"
  | BValues "literal_value list list"
  | BSetOp set_op_type bool 'q 'q

datatype resolved_scalar_expr =
    SColumn resolved_column_node
  | SIdentifier string
  | SFunction "(resolved_scalar_expr, resolved_where_expr) resolved_function_call"
  | SLiteral literal_value
  | SCase "(resolved_scalar_expr, resolved_where_expr) resolved_case_expr"
  | SArithmetic resolved_scalar_expr arithmetic_op resolved_scalar_expr
  | SSubquery resolved_query_expr "resolved_column_node list"
  | SArray "resolved_scalar_expr list"
  | STypeCast resolved_scalar_expr cast_target
and resolved_where_expr =
    WScalar resolved_scalar_expr
  | WUnary unary_op resolved_where_expr
  | WBinary binary_op resolved_where_expr resolved_where_expr
  | WMulti multi_op "resolved_where_expr list"
  | WSubquery resolved_query_expr sub_link_type "resolved_scalar_expr option"
      "resolved_column_node list"
and resolved_table_source =
    SrcTable resolved_table_node
  | SrcSubquery resolved_query_expr table_alias subquery_kind
  | SrcJoin join_type resolved_table_source resolved_table_source
      "resolved_where_expr resolved_join_qual"
and resolved_query_expr =
    QueryExpr
      "(resolved_scalar_expr, resolved_where_expr, resolved_table_source, resolved_query_expr)
         resolved_query_body"
      "resolved_scalar_expr resolved_order_by_clause list" "resolved_limit_clause option"

type_synonym select_node =
  "(resolved_scalar_expr, resolved_where_expr, resolved_table_source) resolved_select_node"

subsection \<open>Navigation\<close>

fun join_predicate :: "resolved_where_expr resolved_join_qual \<Rightarrow> resolved_where_expr option" where
  "join_predicate (JoinOn e) = Some e"
| "join_predicate (JoinUsing _ e) = Some e"
| "join_predicate JoinCross = None"

fun direct_table_nodes_collect :: "resolved_table_source \<Rightarrow> resolved_table_node list" where
  "direct_table_nodes_collect (SrcTable t) = [t]"
| "direct_table_nodes_collect (SrcSubquery _ _ _) = []"
| "direct_table_nodes_collect (SrcJoin _ l r _) =
     direct_table_nodes_collect l @ direct_table_nodes_collect r"

definition direct_table_nodes :: "select_node \<Rightarrow> resolved_table_node list" where
  "direct_table_nodes s = concat (map direct_table_nodes_collect (sn_from s))"

definition is_single_table :: "select_node \<Rightarrow> bool" where
  "is_single_table s = (case sn_from s of [SrcTable _] \<Rightarrow> True | _ \<Rightarrow> False)"

fun as_select :: "resolved_query_expr \<Rightarrow> select_node option" where
  "as_select (QueryExpr (BSelect s) _ _) = Some s"
| "as_select (QueryExpr _ _ _) = None"

subsection \<open>Casts on columns\<close>

fun resolved_strip_identity_cast :: "resolved_scalar_expr \<Rightarrow> resolved_scalar_expr" where
  "resolved_strip_identity_cast (STypeCast (SColumn col) target) =
     (if cast_target_is_identity_on target (cm_data_type (rc_column_metadata col))
      then SColumn col else STypeCast (SColumn col) target)"
| "resolved_strip_identity_cast e = e"

fun resolved_where_scalar_leaf :: "resolved_where_expr \<Rightarrow> resolved_scalar_expr option" where
  "resolved_where_scalar_leaf (WScalar s) = Some (resolved_strip_identity_cast s)"
| "resolved_where_scalar_leaf _ = None"

fun column_target ::
  "resolved_scalar_expr \<Rightarrow> (resolved_column_node \<times> cast_target option) option" where
  "column_target (SColumn col) = Some (col, None)"
| "column_target (STypeCast (SColumn col) target) = Some (col, Some target)"
| "column_target _ = None"

text \<open>
  The two \<^verbatim>\<open>if let\<close> of \<^verbatim>\<open>canonicalize_comparison\<close>: the column on the left, then the column on
  the right with the operator flipped.
\<close>

definition canonicalize_left ::
  "binary_op \<Rightarrow> resolved_scalar_expr option \<Rightarrow> resolved_scalar_expr option
   \<Rightarrow> (resolved_column_node \<times> cast_target option \<times> binary_op \<times> literal_value) option" where
  "canonicalize_left op lleaf rleaf =
     (case (lleaf, rleaf) of
        (Some left, Some (SLiteral val)) \<Rightarrow>
          map_option (\<lambda>(col, target). (col, target, op, val)) (column_target left)
      | _ \<Rightarrow> None)"

definition canonicalize_comparison ::
  "binary_op \<Rightarrow> resolved_where_expr \<Rightarrow> resolved_where_expr
   \<Rightarrow> (resolved_column_node \<times> cast_target option \<times> binary_op \<times> literal_value) option" where
  "canonicalize_comparison op lexpr rexpr =
     (let lleaf = resolved_where_scalar_leaf lexpr; rleaf = resolved_where_scalar_leaf rexpr in
      case canonicalize_left op lleaf rleaf of
        Some r \<Rightarrow> Some r
      | None \<Rightarrow>
          (case (lleaf, rleaf) of
             (Some (SLiteral val), Some right) \<Rightarrow>
               (case column_target right of
                  Some (col, target) \<Rightarrow>
                    map_option (\<lambda>flipped. (col, target, flipped, val)) (op_flip op)
                | None \<Rightarrow> None)
           | _ \<Rightarrow> None))"

lemma column_eq_refl [simp]: "column_eq a a"
  and column_eq_sym: "column_eq a b \<Longrightarrow> column_eq b a"
  and column_eq_trans: "column_eq a b \<Longrightarrow> column_eq b c \<Longrightarrow> column_eq a c"
  by (auto simp: column_eq_def)

text \<open>Whatever is canonicalized is a comparison the source spelled one way or the other.\<close>

lemma canonicalize_comparison_cases:
  assumes "canonicalize_comparison op l r = Some (col, target, op', val)"
  obtains (left) e where "resolved_where_scalar_leaf l = Some e" "column_target e = Some (col, target)"
      "resolved_where_scalar_leaf r = Some (SLiteral val)" "op' = op"
    | (right) e where "resolved_where_scalar_leaf r = Some e" "column_target e = Some (col, target)"
      "resolved_where_scalar_leaf l = Some (SLiteral val)" "op_flip op = Some op'"
  using assms
  by (auto simp: canonicalize_comparison_def canonicalize_left_def Let_def
           split: option.splits resolved_scalar_expr.splits prod.splits)

end
