(* ===== verification/Subsumption.thy ===== *)
theory Subsumption
  imports Range_Semantics Resolved
begin

text \<open>
  The shared constraint types (\<^verbatim>\<open>src/query/constraints/mod.rs\<close>) and the table-level
  subsumption test (\<^verbatim>\<open>src/query/constraints/subsume.rs\<close>): group the constraints of a table by
  column and cast, reduce each group to a range, and compare range by range.

  Soundness is stated over rows: a cached query whose test succeeds has loaded every row of the
  table that the constraints of the new query admit.
\<close>

subsection \<open>Constraint types\<close>

datatype column_constraint =
    CcComparison resolved_column_node binary_op literal_value
  | CcInSet resolved_column_node "literal_value list"
  | CcCastComparison resolved_column_node cast_target binary_op literal_value

fun cc_column :: "column_constraint \<Rightarrow> resolved_column_node" where
  "cc_column (CcComparison c _ _) = c"
| "cc_column (CcInSet c _) = c"
| "cc_column (CcCastComparison c _ _ _) = c"

record column_equivalence =
  eq_left :: resolved_column_node
  eq_right :: resolved_column_node

definition is_join :: "column_equivalence \<Rightarrow> bool" where
  "is_join eq \<longleftrightarrow>
     rc_table (eq_left eq) \<noteq> rc_table (eq_right eq) \<or>
     rc_table_alias (eq_left eq) \<noteq> rc_table_alias (eq_right eq)"

record query_constraints =
  qc_column_constraints :: "column_constraint list"
  qc_equivalences :: "column_equivalence list"
  qc_table_constraints :: "(string \<times> table_constraint list) list"
  qc_where_analysis_complete :: bool

definition query_constraints_default :: query_constraints where
  "query_constraints_default =
     \<lparr>qc_column_constraints = [], qc_equivalences = [], qc_table_constraints = [],
      qc_where_analysis_complete = True\<rparr>"

definition table_join_columns :: "query_constraints \<Rightarrow> string \<Rightarrow> string list" where
  "table_join_columns qc table_name =
     List.map_filter
       (\<lambda>eq. if rc_table (eq_left eq) = table_name then Some (rc_column (eq_left eq))
             else if rc_table (eq_right eq) = table_name then Some (rc_column (eq_right eq))
             else None)
       (filter is_join (qc_equivalences qc))"

subsection \<open>Table-level subsumption\<close>

type_synonym bucket_key = "string \<times> cast_target option"

fun tc_bucket :: "table_constraint \<Rightarrow> bucket_key" where
  "tc_bucket (Comparison col _ _) = (col, None)"
| "tc_bucket (AnyOf col _) = (col, None)"
| "tc_bucket (CastComparison col cast _ _) = (col, Some cast)"

definition constraints_group_by_column ::
  "table_constraint list \<Rightarrow> (bucket_key \<times> table_constraint list) list" where
  "constraints_group_by_column constraints =
     fold (\<lambda>tc grouped. entry_push (tc_bucket tc) tc grouped) constraints []"

definition table_constraints_subsumed ::
  "query_constraints \<Rightarrow> query_constraints \<Rightarrow> string \<Rightarrow> bool" where
  "table_constraints_subsumed new cached table =
     (if \<not> qc_where_analysis_complete cached then False
      else (case (map_of (qc_table_constraints cached) table,
                  map_of (qc_table_constraints new) table) of
              (None, _) \<Rightarrow> True
            | (Some _, None) \<Rightarrow> False
            | (Some cached_cs, Some new_cs) \<Rightarrow>
                (let cached_by_col = constraints_group_by_column cached_cs;
                     new_by_col = constraints_group_by_column new_cs
                 in list_all
                      (\<lambda>(col, cached_col_cs).
                         column_range_subsumes (column_range_build cached_col_cs)
                           (case map_of new_by_col col of
                              None \<Rightarrow> RUnconstrained
                            | Some cs \<Rightarrow> column_range_build cs))
                      cached_by_col)))"

subsection \<open>Grouping\<close>

lemma group_fold_lookup:
  "map_of (fold (\<lambda>tc grouped. entry_push (tc_bucket tc) tc grouped) cs m) k =
     (let new = filter (\<lambda>tc. tc_bucket tc = k) cs in
      case map_of m k of
        None \<Rightarrow> (if new = [] then None else Some new)
      | Some old \<Rightarrow> Some (old @ new))"
  by (induction cs arbitrary: m) (auto simp: Let_def split: option.splits)

lemma group_by_column_lookup:
  "map_of (constraints_group_by_column cs) k =
     (let new = filter (\<lambda>tc. tc_bucket tc = k) cs in if new = [] then None else Some new)"
  by (simp add: constraints_group_by_column_def group_fold_lookup)

lemma distinct_group_fold:
  "distinct (map fst m) \<Longrightarrow>
   distinct (map fst (fold (\<lambda>tc grouped. entry_push (tc_bucket tc) tc grouped) cs m))"
  by (induction cs arbitrary: m) simp_all

lemma distinct_group_by_column: "distinct (map fst (constraints_group_by_column cs))"
  by (simp add: constraints_group_by_column_def distinct_group_fold)

lemma group_by_column_mem:
  "(k, g) \<in> set (constraints_group_by_column cs) \<longleftrightarrow>
     g = filter (\<lambda>tc. tc_bucket tc = k) cs \<and> g \<noteq> []"
  using map_of_Some_iff [OF distinct_group_by_column, of cs k g]
  by (auto simp: group_by_column_lookup Let_def split: if_splits)

subsection \<open>Rows\<close>

text \<open>
  One value type for all columns, so that a row is a function of the bucket: the column itself,
  or the column under a cast. A bucket has a kind, the kind of the literals it is compared with.
\<close>

datatype sql_value = VNum pg_num | VText string | VBool bool

datatype lit_kind = KInt | KFloat | KText | KBool

fun val_dl :: "literal_value \<Rightarrow> sql_value option" where
  "val_dl (LInteger n) = Some (VNum (Num (Fin (of_int n))))"
| "val_dl (LFloat f) = Some (VNum (Num f))"
| "val_dl (LString s) = Some (VText s)"
| "val_dl (LBoolean b) = Some (VBool b)"
| "val_dl _ = None"

fun val_lt :: "(string \<Rightarrow> string \<Rightarrow> bool) \<Rightarrow> sql_value \<Rightarrow> sql_value \<Rightarrow> bool" where
  "val_lt coll (VNum a) (VNum b) = num_lt a b"
| "val_lt coll (VText a) (VText b) = coll a b"
| "val_lt coll (VBool a) (VBool b) = (a < b)"
| "val_lt coll (VNum _) _ = True"
| "val_lt coll _ (VNum _) = False"
| "val_lt coll (VText _) (VBool _) = True"
| "val_lt coll (VBool _) (VText _) = False"

fun has_kind :: "lit_kind \<Rightarrow> literal_value \<Rightarrow> bool" where
  "has_kind KInt l = is_int_lit l"
| "has_kind KFloat l = is_float_lit l"
| "has_kind KText l = is_text_lit l"
| "has_kind KBool l = is_bool_lit l"

type_synonym table_row = "bucket_key \<Rightarrow> sql_value option"

definition tcs_sem ::
  "(string \<Rightarrow> string \<Rightarrow> bool) \<Rightarrow> table_constraint list \<Rightarrow> table_row \<Rightarrow> bool" where
  "tcs_sem coll cs row \<longleftrightarrow> (\<forall>tc\<in>set cs. tc_sem val_dl (val_lt coll) tc (row (tc_bucket tc)))"

definition tcs_typed :: "(bucket_key \<Rightarrow> lit_kind) \<Rightarrow> table_constraint list \<Rightarrow> bool" where
  "tcs_typed kind cs \<longleftrightarrow> (\<forall>tc\<in>set cs. \<forall>l\<in>tc_lits tc. has_kind (kind (tc_bucket tc)) l)"

text \<open>
  Buckets that are not numeric carry no ordering bound: for them the algebra treats an
  incomparable bound as excluding everything.
\<close>

definition tcs_plain :: "(bucket_key \<Rightarrow> lit_kind) \<Rightarrow> table_constraint list \<Rightarrow> bool" where
  "tcs_plain kind cs \<longleftrightarrow>
     (\<forall>tc\<in>set cs. kind (tc_bucket tc) \<in> {KText, KBool} \<longrightarrow>
        (\<forall>(op, l)\<in>set (tc_comparisons tc). \<not> is_ordering op))"

lemma val_lt_irrefl: "collation coll \<Longrightarrow> \<not> val_lt coll x x"
  by (cases x) (auto simp: num_lt_irrefl collation.coll_irrefl)

lemma val_lt_trans: "collation coll \<Longrightarrow> val_lt coll x y \<Longrightarrow> val_lt coll y z \<Longrightarrow> val_lt coll x z"
  by (cases x; cases y; cases z) (auto intro: num_lt_trans collation.coll_trans)

lemma val_lt_total: "collation coll \<Longrightarrow> x \<noteq> y \<Longrightarrow> val_lt coll x y \<or> val_lt coll y x"
  by (cases x; cases y) (auto dest: num_lt_total collation.coll_total)

lemma value_domain:
  assumes "collation coll"
  shows "column_domain val_dl (val_lt coll) (has_kind k)"
  by unfold_locales
    (rule val_lt_irrefl [OF assms], erule (1) val_lt_trans [OF assms],
     erule val_lt_total [OF assms],
     (cases k; auto simp: lit_kind_iffs cmp_def split: if_splits)+)

lemma value_domain_ordered:
  assumes "collation coll" "k = KInt \<or> k = KFloat"
  shows "ordered_domain val_dl (val_lt coll) (has_kind k)"
  using assms value_domain [OF assms(1)]
  by (auto simp: ordered_domain_def ordered_domain_axioms_def lit_kind_iffs)

subsection \<open>Soundness of one bucket\<close>

lemma column_range_build_slots:
  assumes "column_range_build cs = RRange lo up ne"
  shows "slot_lits lo \<union> slot_lits up \<subseteq> ord_lits (concat (map tc_comparisons cs))"
proof -
  have no_range: "in_set_range_build vs comps \<noteq> RRange lo up ne" for vs comps
    by (auto simp: in_set_range_build_def split: column_range.splits list.splits)
  with assms obtain comps where part: "constraints_partition cs [] None = Some (comps, None)"
      and build: "comparison_range_build comps = RRange lo up ne"
    by (auto simp: column_range_build_def split: if_splits option.splits)
  from constraints_partition_parts(1) [OF part] have "comps = concat (map tc_comparisons cs)" by simp
  with int_col.comparison_range_build_slots [OF build] show ?thesis by simp
qed

definition bucket_ok :: "lit_kind \<Rightarrow> table_constraint list \<Rightarrow> bool" where
  "bucket_ok k cs \<longleftrightarrow>
     (\<forall>tc\<in>set cs. \<forall>l\<in>tc_lits tc. has_kind k l) \<and>
     (k \<in> {KText, KBool} \<longrightarrow> ord_lits (concat (map tc_comparisons cs)) = {})"

lemma bucket_orderable:
  assumes "collation coll" "bucket_ok k cs"
  shows "tcs_orderable cs"
proof (cases "k = KInt \<or> k = KFloat")
  case True
  from ordered_domain.ok_orderable [OF value_domain_ordered [OF assms(1) True]] assms(2)
  show ?thesis by (simp add: bucket_ok_def)
next
  case False
  with assms(2) have "ord_lits (concat (map tc_comparisons cs)) = {}"
    by (cases k) (auto simp: bucket_ok_def)
  then show ?thesis by (simp add: tcs_orderable_def orderable_def)
qed

lemma bucket_build:
  assumes "collation coll" "bucket_ok k cs" "column_range_build cs \<noteq> RUnknown"
  shows "range_sem val_dl (val_lt coll) (column_range_build cs) v \<longleftrightarrow>
           (\<forall>tc\<in>set cs. tc_sem val_dl (val_lt coll) tc v)"
    and "\<forall>l\<in>range_lits (column_range_build cs). has_kind k l"
  using column_domain.column_range_build_sound [OF value_domain [OF assms(1)] _
      bucket_orderable [OF assms(1,2)] assms(3)] assms(2)
  by (auto simp: bucket_ok_def)

lemma bucket_excl_decided:
  assumes "collation coll" "bucket_ok k cs" "bucket_ok k cs'"
    and "column_range_build cs \<noteq> RUnknown" "column_range_build cs' \<noteq> RUnknown"
  shows "excl_decided (column_range_build cs) (column_range_build cs')"
proof (cases "k = KInt \<or> k = KFloat")
  case True
  show ?thesis
    by (rule ordered_domain.ok_excl_decided [OF value_domain_ordered [OF assms(1) True]])
      (rule bucket_build(2) [OF assms(1)]; fact assms)+
next
  case False
  with assms(3) have none: "ord_lits (concat (map tc_comparisons cs')) = {}"
    by (cases k) (auto simp: bucket_ok_def)
  have "slot_lits lo = {} \<and> slot_lits up = {}" if "column_range_build cs' = RRange lo up ne"
    for lo up ne
    using column_range_build_slots [OF that] none by simp
  then show ?thesis by (auto simp: excl_decided_def)
qed

lemma bucket_subsumes:
  assumes coll: "collation coll" and ok: "bucket_ok k cs" "bucket_ok k cs'"
    and sub: "column_range_subsumes (column_range_build cs) (column_range_build cs')"
    and v: "\<forall>tc\<in>set cs'. tc_sem val_dl (val_lt coll) tc v"
  shows "\<forall>tc\<in>set cs. tc_sem val_dl (val_lt coll) tc v"
proof -
  have known: "column_range_build cs \<noteq> RUnknown" "column_range_build cs' \<noteq> RUnknown"
    using sub by (auto elim: column_range_subsumes.elims)
  note build = bucket_build [OF coll ok(1) known(1)] and build' = bucket_build [OF coll ok(2) known(2)]
  from v have "range_sem val_dl (val_lt coll) (column_range_build cs') v" by (simp add: build'(1))
  from column_domain.column_range_subsumes_sound [OF value_domain [OF coll] build(2) build'(2)
      bucket_excl_decided [OF coll ok known] sub this]
  show ?thesis by (simp add: build(1))
qed

subsection \<open>Properties\<close>

definition table_cs :: "query_constraints \<Rightarrow> string \<Rightarrow> table_constraint list" where
  "table_cs qc table = (case map_of (qc_table_constraints qc) table of None \<Rightarrow> [] | Some cs \<Rightarrow> cs)"

lemma typed_bucket_ok:
  assumes "tcs_typed kind cs" "tcs_plain kind cs"
  shows "bucket_ok (kind b) (filter (\<lambda>tc. tc_bucket tc = b) cs)"
  using assms
  by (fastforce simp: bucket_ok_def tcs_typed_def tcs_plain_def ord_lits_def)

lemma subsumed_rows:
  assumes coll: "collation coll"
    and typed: "tcs_typed kind (table_cs cached t)" "tcs_typed kind (table_cs new t)"
    and plain: "tcs_plain kind (table_cs cached t)" "tcs_plain kind (table_cs new t)"
    and sub: "table_constraints_subsumed new cached t"
    and row: "tcs_sem coll (table_cs new t) row"
  shows "tcs_sem coll (table_cs cached t) row"
proof (cases "map_of (qc_table_constraints cached) t")
  case None
  then show ?thesis by (simp add: table_cs_def tcs_sem_def)
next
  case (Some ccs)
  with sub obtain ncs where ncs: "map_of (qc_table_constraints new) t = Some ncs"
    by (auto simp: table_constraints_subsumed_def split: if_splits option.splits)
  have cs: "table_cs cached t = ccs" "table_cs new t = ncs"
    using Some ncs by (simp_all add: table_cs_def)
  let ?in = "\<lambda>b. filter (\<lambda>tc. tc_bucket tc = b)"
  have "tc_sem val_dl (val_lt coll) tc (row (tc_bucket tc))" if tc: "tc \<in> set ccs" for tc
  proof -
    let ?b = "tc_bucket tc"
    have mem: "(?b, ?in ?b ccs) \<in> set (constraints_group_by_column ccs)"
      using tc by (auto simp: group_by_column_mem filter_empty_conv)
    have sub_b: "column_range_subsumes (column_range_build (?in ?b ccs)) (column_range_build (?in ?b ncs))"
      using sub Some ncs mem
      by (auto simp: table_constraints_subsumed_def Let_def list_all_iff group_by_column_lookup
               column_range_build_def [of "[]"] split: if_splits dest!: bspec)
    have "\<forall>tc\<in>set (?in ?b ncs). tc_sem val_dl (val_lt coll) tc (row ?b)"
      using row unfolding cs tcs_sem_def by force
    with bucket_subsumes [OF coll typed_bucket_ok [OF typed(1) plain(1)]
        typed_bucket_ok [OF typed(2) plain(2)] sub_b [folded cs], of "row ?b"]
    have "\<forall>tc\<in>set (?in ?b ccs). tc_sem val_dl (val_lt coll) tc (row ?b)"
      unfolding cs by blast
    with tc show ?thesis by simp
  qed
  then show ?thesis by (simp add: cs tcs_sem_def)
qed

lemma bucket_subsumes_self:
  assumes ok: "bucket_ok k cs" and known: "column_range_build cs \<noteq> RUnknown" "column_range_build cs \<noteq> REmpty"
  shows "column_range_subsumes (column_range_build cs) (column_range_build cs)"
proof (cases "k = KInt \<or> k = KFloat")
  case True
  show ?thesis
    by (rule ordered_domain.column_range_subsumes_refl [OF value_domain_ordered [OF c_collation.collation_axioms True]
          bucket_build(2) [OF c_collation.collation_axioms ok known(1)] known])
next
  case False
  with ok have none: "ord_lits (concat (map tc_comparisons cs)) = {}" by (cases k) (auto simp: bucket_ok_def)
  have "lo = None \<and> up = None" if "column_range_build cs = RRange lo up ne" for lo up ne
    using column_range_build_slots [OF that] none by (cases lo; cases up) auto
  with known show ?thesis
    by (cases "column_range_build cs") (auto simp: range_subsumes_range_def range_view_new_def Let_def list_all_iff)
qed

lemma subsumed_self:
  assumes complete: "qc_where_analysis_complete q" and typed: "tcs_typed kind (table_cs q t)" "tcs_plain kind (table_cs q t)"
    and known: "\<And>b. column_range_build (filter (\<lambda>tc. tc_bucket tc = b) (table_cs q t)) \<notin> {RUnknown, REmpty}"
  shows "table_constraints_subsumed q q t"
proof (cases "map_of (qc_table_constraints q) t")
  case None
  with complete show ?thesis by (simp add: table_constraints_subsumed_def)
next
  case (Some cs)
  then have cs: "table_cs q t = cs" by (simp add: table_cs_def)
  have "column_range_subsumes (column_range_build g)
      (case map_of (constraints_group_by_column cs) b of None \<Rightarrow> RUnconstrained | Some cs \<Rightarrow> column_range_build cs)"
    if g: "(b, g) \<in> set (constraints_group_by_column cs)" for b g
  proof -
    from g have eq: "g = filter (\<lambda>tc. tc_bucket tc = b) cs" "map_of (constraints_group_by_column cs) b = Some g"
      using map_of_is_SomeI [OF distinct_group_by_column g] by (simp_all add: group_by_column_mem)
    have "column_range_subsumes (column_range_build g) (column_range_build g)"
      unfolding eq(1) using typed_bucket_ok [OF typed, of b] known [of b]
      by (intro bucket_subsumes_self) (auto simp: cs)
    with eq(2) show ?thesis by simp
  qed
  with complete Some show ?thesis by (auto simp: table_constraints_subsumed_def Let_def list_all_iff)
qed

text \<open>
  C4. Table-level subsumption is sound: if the constraints of a cached query on a table are
  found to subsume those of a new query, then every row of the table that satisfies the new
  constraints satisfies the cached constraints, so the cached query has loaded it. The literals
  compared with a column (or with a column under a cast) all have one kind, and text and boolean
  columns carry no ordering bounds; the collation is arbitrary.
\<close>

theorem table_constraints_subsumed_sound:
  assumes coll: "collation coll"
    and typed: "tcs_typed kind (table_cs cached t)" "tcs_typed kind (table_cs new t)"
    and plain: "tcs_plain kind (table_cs cached t)" "tcs_plain kind (table_cs new t)"
    and sub: "table_constraints_subsumed new cached t"
    and row: "tcs_sem coll (table_cs new t) row"
  shows "tcs_sem coll (table_cs cached t) row"
  by (rule subsumed_rows [OF assms])

text \<open>A cached \<open>x > 0\<close> and a new \<open>x = 5\<close>: a row with \<open>x = 5\<close> satisfies the cached constraint.\<close>

theorem table_constraints_subsumed_sound_witness:
  "tcs_sem (<) [Comparison ''x'' GreaterThan (LInteger 0)]
     (\<lambda>_. Some (VNum (Num (Fin 5))))"
  using table_constraints_subsumed_sound
    [OF c_collation.collation_axioms,
     of "\<lambda>_. KInt"
        "query_constraints_default\<lparr>qc_table_constraints :=
           [(''t'', [Comparison ''x'' GreaterThan (LInteger 0)])]\<rparr>" "''t''"
        "query_constraints_default\<lparr>qc_table_constraints :=
           [(''t'', [Comparison ''x'' Equal (LInteger 5)])]\<rparr>"
        "\<lambda>_. Some (VNum (Num (Fin 5)))"]
  by (simp add: table_cs_def tcs_typed_def tcs_plain_def query_constraints_default_def
      table_constraints_subsumed_def constraints_group_by_column_def entry_push_def
      entry_update_def tcs_sem_def cmp_sem_def range_simps)

text \<open>
  C13. A query is found covered on a table by a cached query with the same constraints, whenever the
  \<open>WHERE\<close> analysis is complete, the literals compared with a column (or with a column under a cast)
  all have one kind, text and boolean columns carry no ordering bounds, and no column's constraints
  reduce to the empty or the unknown range (a contradictory column, or two value lists on one).
\<close>

theorem table_constraints_subsumed_self:
  assumes "qc_where_analysis_complete q" "tcs_typed kind (table_cs q t)" "tcs_plain kind (table_cs q t)"
    and "\<And>b. column_range_build (filter (\<lambda>tc. tc_bucket tc = b) (table_cs q t)) \<notin> {RUnknown, REmpty}"
  shows "table_constraints_subsumed q q t"
  by (rule subsumed_self [OF assms])

text \<open>\<open>x >= 3 AND x <> 5 AND s IN ('a', 'b')\<close>.\<close>

definition sample_self :: query_constraints where
  "sample_self = query_constraints_default\<lparr>qc_table_constraints :=
     [(''t'', [Comparison ''x'' GreaterThanOrEqual (LInteger 3), Comparison ''x'' NotEqual (LInteger 5),
               AnyOf ''s'' [LString ''a'', LString ''b'']])]\<rparr>"

theorem table_constraints_subsumed_self_witness: "table_constraints_subsumed sample_self sample_self ''t''"
proof -
  have cs: "table_cs sample_self ''t'' = [Comparison ''x'' GreaterThanOrEqual (LInteger 3),
      Comparison ''x'' NotEqual (LInteger 5), AnyOf ''s'' [LString ''a'', LString ''b'']]"
    by (simp add: sample_self_def table_cs_def)
  have known: "column_range_build (filter (\<lambda>tc. tc_bucket tc = b) (table_cs sample_self ''t'')) \<notin> {RUnknown, REmpty}" for b
    unfolding cs by (cases "b = (''x'', None)"; cases "b = (''s'', None)") (simp_all add: range_simps)
  show ?thesis
    by (rule table_constraints_subsumed_self [of _ "\<lambda>b. if fst b = ''x'' then KInt else KText", OF _ _ _ known])
      (simp_all add: cs tcs_typed_def tcs_plain_def, simp add: sample_self_def query_constraints_default_def)
qed

end
