(* ===== verification/Value_Key.thy ===== *)
theory Value_Key
  imports Subsumption
begin

text \<open>
  Bucket keys, the placement of a range in a sub-index, and the classification of a constraint
  set (\<^verbatim>\<open>src/query/constraint_index/value_key.rs\<close>, \<^verbatim>\<open>classify.rs\<close> and the column sets of
  \<^verbatim>\<open>mod.rs\<close>).

  \<open>value_key\<close> is an instance of \<open>linorder\<close> with the derived order of the source: first by
  variant, then by value. The key lemmas say that the cast of integers to floats keeps the order
  that the precise range test uses, so that a key comparison never separates two literals that
  the precise test relates.
\<close>

subsection \<open>Keys\<close>

datatype value_key = VkNum f64 | VkStr string | VkBool bool

fun vk_le :: "value_key \<Rightarrow> value_key \<Rightarrow> bool" where
  "vk_le (VkNum a) (VkNum b) = (a \<le> b)"
| "vk_le (VkStr a) (VkStr b) = (a \<le> b)"
| "vk_le (VkBool a) (VkBool b) = (a \<le> b)"
| "vk_le (VkNum _) _ = True"
| "vk_le _ (VkNum _) = False"
| "vk_le (VkStr _) (VkBool _) = True"
| "vk_le (VkBool _) (VkStr _) = False"

instantiation value_key :: linorder
begin
definition less_eq_value_key :: "value_key \<Rightarrow> value_key \<Rightarrow> bool" where
  "less_eq_value_key = vk_le"
definition less_value_key :: "value_key \<Rightarrow> value_key \<Rightarrow> bool" where
  "less_value_key a b = (vk_le a b \<and> a \<noteq> b)"
instance
proof
  fix x y z :: value_key
  show "(x < y) = (x \<le> y \<and> \<not> y \<le> x)"
    by (cases x; cases y) (auto simp: less_eq_value_key_def less_value_key_def)
  show "x \<le> x" by (cases x) (auto simp: less_eq_value_key_def)
  show "x \<le> y \<Longrightarrow> y \<le> z \<Longrightarrow> x \<le> z"
    by (cases x; cases y; cases z) (auto simp: less_eq_value_key_def)
  show "x \<le> y \<Longrightarrow> y \<le> x \<Longrightarrow> x = y"
    by (cases x; cases y) (auto simp: less_eq_value_key_def)
  show "x \<le> y \<or> y \<le> x"
    by (cases x; cases y) (auto simp: less_eq_value_key_def)
qed
end

lemma value_key_le_simps [simp]:
  "VkNum a \<le> VkNum b \<longleftrightarrow> a \<le> b" "VkStr s \<le> VkStr t \<longleftrightarrow> s \<le> t" "VkBool p \<le> VkBool q \<longleftrightarrow> p \<le> q"
  by (simp_all add: less_eq_value_key_def)

fun try_new :: "literal_value \<Rightarrow> value_key option" where
  "try_new (LInteger n) = Some (VkNum (i64_as_f64 n))"
| "try_new (LFloat f) = Some (VkNum f)"
| "try_new (LString s) = Some (VkStr s)"
| "try_new (LStringWithCast s _) = Some (VkStr s)"
| "try_new (LBoolean b) = Some (VkBool b)"
| "try_new LNull = None"
| "try_new (LNullWithCast _) = None"
| "try_new (LParameter _) = None"
| "try_new (LArray _ _) = None"

datatype placement =
    PEq value_key
  | PInSet "value_key list"
  | PRangeLower value_key
  | PRangeUpper value_key
  | PRangeBoth value_key value_key
  | POpaque

definition placement_of :: "column_range \<Rightarrow> placement" where
  "placement_of r =
     (case r of
        REqual v \<Rightarrow> (case try_new v of None \<Rightarrow> POpaque | Some k \<Rightarrow> PEq k)
      | RInSet s \<Rightarrow> (case those (map try_new s) of None \<Rightarrow> POpaque | Some ks \<Rightarrow> PInSet ks)
      | RRange (Some lb) None _ \<Rightarrow>
          (case try_new (rb_value lb) of None \<Rightarrow> POpaque | Some k \<Rightarrow> PRangeLower k)
      | RRange None (Some ub) _ \<Rightarrow>
          (case try_new (rb_value ub) of None \<Rightarrow> POpaque | Some k \<Rightarrow> PRangeUpper k)
      | RRange (Some lb) (Some ub) _ \<Rightarrow>
          (case (try_new (rb_value lb), try_new (rb_value ub)) of
             (Some l, Some u) \<Rightarrow> PRangeBoth l u
           | _ \<Rightarrow> POpaque)
      | RRange None None _ \<Rightarrow> POpaque
      | _ \<Rightarrow> POpaque)"

subsection \<open>Column sets\<close>

type_synonym column_set = "string list"

definition column_set_new :: "string list \<Rightarrow> column_set" where
  "column_set_new cols = remdups_adj (sort cols)"

text \<open>The merge walk: every column of the left set advances one shared iterator over the right.\<close>

fun is_subset_of :: "column_set \<Rightarrow> column_set \<Rightarrow> bool" where
  "is_subset_of [] other = True"
| "is_subset_of (col # cols) other =
     (case dropWhile (\<lambda>c. c \<noteq> col) other of
        [] \<Rightarrow> False
      | _ # rest \<Rightarrow> is_subset_of cols rest)"

subsection \<open>Classification\<close>

datatype classification =
    EqualityPure column_set "value_key list"
  | Complex column_set

fun into_columns :: "classification \<Rightarrow> column_set" where
  "into_columns (EqualityPure columns _) = columns"
| "into_columns (Complex columns) = columns"

record classify_state =
  cy_equality :: "(string \<times> literal_value) list"
  cy_all_columns :: "string list"
  cy_complex :: bool

fun classify_step :: "table_constraint \<Rightarrow> classify_state \<Rightarrow> classify_state" where
  "classify_step (Comparison col op val) st =
     (if op = Equal then
        (let st' = st\<lparr>cy_all_columns := List.insert col (cy_all_columns st)\<rparr> in
         case map_of (cy_equality st) col of
           Some prev \<Rightarrow> if prev = val then st' else st'\<lparr>cy_complex := True\<rparr>
         | None \<Rightarrow> st'\<lparr>cy_equality := AList.update col val (cy_equality st)\<rparr>)
      else st\<lparr>cy_all_columns := List.insert col (cy_all_columns st), cy_complex := True\<rparr>)"
| "classify_step (AnyOf col _) st =
     st\<lparr>cy_all_columns := List.insert col (cy_all_columns st), cy_complex := True\<rparr>"
| "classify_step (CastComparison col _ _ _) st =
     st\<lparr>cy_all_columns := List.insert col (cy_all_columns st), cy_complex := True\<rparr>"

definition classify :: "table_constraint list \<Rightarrow> classification" where
  "classify constraints =
     (let st = fold classify_step constraints
                 \<lparr>cy_equality = [], cy_all_columns = [], cy_complex = False\<rparr>;
          columns = column_set_new (cy_all_columns st)
      in if \<not> cy_complex st \<and> length (cy_equality st) = length columns then
           (case those (map (\<lambda>c. Option.bind (map_of (cy_equality st) c) try_new) columns) of
              Some values \<Rightarrow> EqualityPure columns values
            | None \<Rightarrow> Complex columns)
         else Complex columns)"

text \<open>Bit \<open>i\<close> of the msk selects column \<open>i\<close>; the masks run from \<open>0\<close> to \<open>2 ^ n - 1\<close>.\<close>

fun mask_select :: "nat \<Rightarrow> column_set \<Rightarrow> column_set" where
  "mask_select msk [] = []"
| "mask_select msk (c # cs) =
     (if odd msk then c # mask_select (msk div 2) cs else mask_select (msk div 2) cs)"

definition column_set_powerset :: "column_set \<Rightarrow> column_set list" where
  "column_set_powerset cols = map (\<lambda>msk. mask_select msk cols) [0..<2 ^ length cols]"

fun tc_column :: "table_constraint \<Rightarrow> string" where
  "tc_column (Comparison c _ _) = c"
| "tc_column (AnyOf c _) = c"
| "tc_column (CastComparison c _ _ _) = c"

fun tc_is_cast :: "table_constraint \<Rightarrow> bool" where
  "tc_is_cast (CastComparison _ _ _ _) = True"
| "tc_is_cast _ = False"

definition column_range_of :: "table_constraint list \<Rightarrow> string \<Rightarrow> column_range" where
  "column_range_of constraints col =
     (if list_ex (\<lambda>tc. tc_column tc = col \<and> tc_is_cast tc) constraints then RUnknown
      else column_range_build (filter (\<lambda>tc. tc_column tc = col \<and> \<not> tc_is_cast tc) constraints))"

definition column_ranges :: "table_constraint list \<Rightarrow> column_set \<Rightarrow> column_range list" where
  "column_ranges constraints columns = map (column_range_of constraints) columns"

subsection \<open>Order of keys\<close>

lemma try_new_order:
  assumes "literal_value_order a b = Some r" "try_new a = Some k" "try_new b = Some l"
  shows "r = OrdLess \<Longrightarrow> k \<le> l" "r = OrdEqual \<Longrightarrow> k = l" "r = OrdGreater \<Longrightarrow> l \<le> k"
  using assms by (cases a; cases b; auto simp: i64_as_f64_mono)+

lemma literal_order_keyed:
  assumes "literal_value_order a b \<noteq> None"
  shows "try_new a \<noteq> None" "try_new b \<noteq> None"
  using assms by (cases a; cases b; auto)+

subsection \<open>Sorted column lists\<close>

definition column_set_ok :: "column_set \<Rightarrow> bool" where
  "column_set_ok cols \<longleftrightarrow> sorted cols \<and> distinct cols"

lemma distinct_remdups_adj_sorted: "sorted xs \<Longrightarrow> distinct (remdups_adj xs)"
  by (induction xs rule: remdups_adj.induct) (auto simp: less_le)

lemma column_set_new_ok: "column_set_ok (column_set_new cols)"
  by (simp add: column_set_ok_def column_set_new_def sorted_remdups_adj distinct_remdups_adj_sorted)

lemma set_column_set_new [simp]: "set (column_set_new cols) = set cols"
  by (simp add: column_set_new_def)

lemma is_subset_of_sound: "is_subset_of a b \<Longrightarrow> set a \<subseteq> set b"
proof (induction a b rule: is_subset_of.induct)
  case (2 col cols other)
  then obtain c rest where d: "dropWhile (\<lambda>c. c \<noteq> col) other = c # rest" "is_subset_of cols rest"
    by (auto split: list.splits)
  then have "c = col" using hd_dropWhile [of "\<lambda>c. c \<noteq> col" other] by simp
  have "set (c # rest) \<subseteq> set other" using set_dropWhileD [of _ "\<lambda>c. c \<noteq> col" other] d(1) by force
  with "2.IH" [OF d] \<open>c = col\<close> show ?case by auto
qed simp

lemma is_subset_of_complete:
  assumes "sorted a" "distinct a" "sorted b" "distinct b" "set a \<subseteq> set b"
  shows "is_subset_of a b"
  using assms
proof (induction a b rule: is_subset_of.induct)
  case (2 col cols other)
  then have "col \<in> set other" by simp
  then obtain pre rest where o: "other = pre @ col # rest" "col \<notin> set pre"
    by (meson split_list_first)
  then have d: "dropWhile (\<lambda>c. c \<noteq> col) other = col # rest"
    by (subst o(1), subst dropWhile_append2) auto
  have "set cols \<subseteq> set rest"
  proof
    fix c assume c: "c \<in> set cols"
    with "2.prems"(1,2) have "col < c" by (auto simp: less_le)
    moreover have "p \<le> col" if "p \<in> set pre" for p
      using "2.prems"(3) o(1) that by (auto simp: sorted_append)
    ultimately have "c \<notin> set pre" "c \<noteq> col" by force+
    with "2.prems"(5) o(1) c show "c \<in> set rest" by auto
  qed
  moreover have "sorted rest" "distinct rest" using "2.prems"(3,4) o(1) by (auto simp: sorted_append)
  ultimately show ?case using 2 d by simp
qed simp

lemma is_subset_of_iff:
  "column_set_ok a \<Longrightarrow> column_set_ok b \<Longrightarrow> is_subset_of a b \<longleftrightarrow> set a \<subseteq> set b"
  using is_subset_of_sound is_subset_of_complete by (auto simp: column_set_ok_def)

lemma filter_mask_select: "\<exists>msk < 2 ^ length cols. mask_select msk cols = filter P cols"
proof (induction cols)
  case (Cons c cs)
  then obtain m where m: "m < 2 ^ length cs" "mask_select m cs = filter P cs" by blast
  show ?case
  proof (cases "P c")
    case True
    with m have "2 * m + 1 < 2 ^ length (c # cs)" "mask_select (2 * m + 1) (c # cs) = filter P (c # cs)"
      by simp_all
    then show ?thesis by blast
  next
    case False
    with m have "2 * m < 2 ^ length (c # cs)" "mask_select (2 * m) (c # cs) = filter P (c # cs)"
      by simp_all
    then show ?thesis by blast
  qed
qed simp

lemma mask_select_subset: "set (mask_select msk cols) \<subseteq> set cols"
  by (induction msk cols rule: mask_select.induct) auto

lemma sorted_subset_filter:
  assumes "column_set_ok a" "column_set_ok b" "set a \<subseteq> set b"
  shows "a = filter (\<lambda>c. c \<in> set a) b"
  using assms
  by (intro sorted_distinct_set_unique)
    (auto simp: column_set_ok_def sorted_wrt_filter distinct_filter)

lemma column_set_powerset_complete:
  assumes "column_set_ok a" "column_set_ok b" "set a \<subseteq> set b"
  shows "a \<in> set (column_set_powerset b)"
  using filter_mask_select [of b "\<lambda>c. c \<in> set a"] sorted_subset_filter [OF assms]
  by (force simp: column_set_powerset_def)

lemma column_set_powerset_sound: "a \<in> set (column_set_powerset b) \<Longrightarrow> set a \<subseteq> set b"
  using mask_select_subset by (auto simp: column_set_powerset_def)

end
