(* ===== verification/Column_Index.thy ===== *)
theory Column_Index
  imports Value_Key
begin

text \<open>
  The containment structures for constraints that are not pure equalities
  (\<^verbatim>\<open>src/query/constraint_index/column_index.rs\<close>): one \<open>column_index\<close> per column of a class,
  partitioned by the shape of the constraint, and the \<open>complex_index\<close> that intersects the
  matches of its columns.

  Both refine a finite map from ids to ranges: \<open>ci_rel\<close> and \<open>cx_rel\<close> relate a structure to
  the map it stores, and insertion and removal are update and deletion of that map.
\<close>

subsection \<open>Posting lists\<close>

text \<open>A \<^verbatim>\<open>HashMap\<close> or \<^verbatim>\<open>BTreeMap\<close> from keys to vectors; an absent key has the empty vector.\<close>

type_synonym ('a, 'b) post_map = "('a \<times> 'b list) list"

definition postings :: "('a, 'b) post_map \<Rightarrow> 'a \<Rightarrow> 'b list" where
  "postings m k = (case map_of m k of None \<Rightarrow> [] | Some vs \<Rightarrow> vs)"

definition post_all :: "('a, 'b) post_map \<Rightarrow> 'b list" where
  "post_all m = concat (map snd m)"

definition post_upto :: "('a::linorder, 'b) post_map \<Rightarrow> 'a \<Rightarrow> 'b list" where
  "post_upto m k = concat (map snd (filter (\<lambda>(l, _). l \<le> k) m))"

definition post_from :: "('a::linorder, 'b) post_map \<Rightarrow> 'a \<Rightarrow> 'b list" where
  "post_from m k = concat (map snd (filter (\<lambda>(l, _). k \<le> l) m))"

definition post_retain :: "('b \<Rightarrow> bool) \<Rightarrow> ('a, 'b) post_map \<Rightarrow> 'a \<Rightarrow> ('a, 'b) post_map" where
  "post_retain keep m k =
     (case map_of m k of
        None \<Rightarrow> m
      | Some vs \<Rightarrow>
          (let vs' = filter keep vs in
           if vs' = [] then AList.delete k m else AList.update k vs' m))"

definition map_vec_remove :: "('a, 'k) post_map \<Rightarrow> 'a \<Rightarrow> 'k \<Rightarrow> ('a, 'k) post_map" where
  "map_vec_remove m k fp = post_retain (\<lambda>x. x \<noteq> fp) m k"

definition btree_vec_remove :: "('a, 'k) post_map \<Rightarrow> 'a \<Rightarrow> 'k \<Rightarrow> ('a, 'k) post_map" where
  "btree_vec_remove m k fp = post_retain (\<lambda>x. x \<noteq> fp) m k"

definition btree_pair_remove ::
  "('a, 'c \<times> 'k) post_map \<Rightarrow> 'a \<Rightarrow> 'k \<Rightarrow> ('a, 'c \<times> 'k) post_map" where
  "btree_pair_remove m k fp = post_retain (\<lambda>(_, x). x \<noteq> fp) m k"

subsection \<open>One column\<close>

record 'k column_index =
  ci_eq :: "(value_key, 'k) post_map"
  ci_inset :: "(value_key, 'k) post_map"
  ci_range_lower :: "(value_key, 'k) post_map"
  ci_range_upper :: "(value_key, 'k) post_map"
  ci_range_both :: "(value_key, value_key \<times> 'k) post_map"
  ci_opaque :: "'k list"

definition column_index_default :: "'k column_index" where
  "column_index_default =
     \<lparr>ci_eq = [], ci_inset = [], ci_range_lower = [], ci_range_upper = [], ci_range_both = [],
      ci_opaque = []\<rparr>"

definition ci_insert :: "'k \<Rightarrow> column_range \<Rightarrow> 'k column_index \<Rightarrow> 'k column_index" where
  "ci_insert fp r ci =
     (case placement_of r of
        PEq k \<Rightarrow> ci\<lparr>ci_eq := entry_push k fp (ci_eq ci)\<rparr>
      | PInSet ks \<Rightarrow> ci\<lparr>ci_inset := fold (\<lambda>k m. entry_push k fp m) ks (ci_inset ci)\<rparr>
      | PRangeLower k \<Rightarrow> ci\<lparr>ci_range_lower := entry_push k fp (ci_range_lower ci)\<rparr>
      | PRangeUpper k \<Rightarrow> ci\<lparr>ci_range_upper := entry_push k fp (ci_range_upper ci)\<rparr>
      | PRangeBoth l u \<Rightarrow> ci\<lparr>ci_range_both := entry_push l (u, fp) (ci_range_both ci)\<rparr>
      | POpaque \<Rightarrow> ci\<lparr>ci_opaque := ci_opaque ci @ [fp]\<rparr>)"

definition ci_remove :: "'k \<Rightarrow> column_range \<Rightarrow> 'k column_index \<Rightarrow> 'k column_index" where
  "ci_remove fp r ci =
     (case placement_of r of
        PEq k \<Rightarrow> ci\<lparr>ci_eq := map_vec_remove (ci_eq ci) k fp\<rparr>
      | PInSet ks \<Rightarrow> ci\<lparr>ci_inset := fold (\<lambda>k m. map_vec_remove m k fp) ks (ci_inset ci)\<rparr>
      | PRangeLower k \<Rightarrow> ci\<lparr>ci_range_lower := btree_vec_remove (ci_range_lower ci) k fp\<rparr>
      | PRangeUpper k \<Rightarrow> ci\<lparr>ci_range_upper := btree_vec_remove (ci_range_upper ci) k fp\<rparr>
      | PRangeBoth l u \<Rightarrow> ci\<lparr>ci_range_both := btree_pair_remove (ci_range_both ci) l fp\<rparr>
      | POpaque \<Rightarrow> ci\<lparr>ci_opaque := filter (\<lambda>x. x \<noteq> fp) (ci_opaque ci)\<rparr>)"

definition range_both_all :: "'k column_index \<Rightarrow> 'k list" where
  "range_both_all ci = map snd (post_all (ci_range_both ci))"

definition extend_all :: "'k column_index \<Rightarrow> 'k list" where
  "extend_all ci =
     post_all (ci_eq ci) @ post_all (ci_inset ci) @ post_all (ci_range_lower ci) @
     post_all (ci_range_upper ci) @ range_both_all ci"

definition extend_two_sided :: "'k column_index \<Rightarrow> value_key \<Rightarrow> value_key \<Rightarrow> 'k list" where
  "extend_two_sided ci qlo qhi =
     (if ci_range_both ci = [] then []
      else map snd (filter (\<lambda>(u, _). qhi \<le> u) (post_upto (ci_range_both ci) qlo)))"

definition extend_two_sided_lit ::
  "'k column_index \<Rightarrow> literal_value \<Rightarrow> literal_value \<Rightarrow> 'k list" where
  "extend_two_sided_lit ci qlo qhi =
     (if ci_range_both ci = [] then []
      else (case (try_new qlo, try_new qhi) of
              (Some l, Some h) \<Rightarrow> extend_two_sided ci l h
            | _ \<Rightarrow> range_both_all ci))"

definition extend_lower_covering :: "'k column_index \<Rightarrow> literal_value \<Rightarrow> 'k list" where
  "extend_lower_covering ci bound =
     (case try_new bound of
        Some k \<Rightarrow> post_upto (ci_range_lower ci) k
      | None \<Rightarrow> post_all (ci_range_lower ci))"

definition extend_upper_covering :: "'k column_index \<Rightarrow> literal_value \<Rightarrow> 'k list" where
  "extend_upper_covering ci bound =
     (case try_new bound of
        Some k \<Rightarrow> post_from (ci_range_upper ci) k
      | None \<Rightarrow> post_all (ci_range_upper ci))"

definition inset_members :: "'k column_index \<Rightarrow> value_key \<Rightarrow> value_key list \<Rightarrow> 'k list" where
  "inset_members ci first rest =
     fold (\<lambda>v members.
             if members = [] then members
             else filter (\<lambda>fp. fp \<in> set (postings (ci_inset ci) v)) members)
       rest (remdups (postings (ci_inset ci) first))"

definition containing_inset :: "'k column_index \<Rightarrow> literal_value list \<Rightarrow> 'k list" where
  "containing_inset ci s =
     (case those (map try_new s) of
        None \<Rightarrow> extend_all ci
      | Some [] \<Rightarrow> []
      | Some (first # rest) \<Rightarrow>
          (let keys = first # rest; mn = Min (set keys); mx = Max (set keys) in
           inset_members ci first rest @
           (if length keys = 1 then postings (ci_eq ci) first else []) @
           post_upto (ci_range_lower ci) mn @ post_from (ci_range_upper ci) mx @
           extend_two_sided ci mn mx))"

definition containing :: "'k column_index \<Rightarrow> column_range \<Rightarrow> 'k list" where
  "containing ci query =
     ci_opaque ci @
     (case query of
        RUnknown \<Rightarrow> extend_all ci
      | REmpty \<Rightarrow> extend_all ci
      | RUnconstrained \<Rightarrow> extend_all ci
      | REqual v \<Rightarrow>
          (case try_new v of
             Some k \<Rightarrow>
               postings (ci_eq ci) k @ postings (ci_inset ci) k @ extend_lower_covering ci v @
               extend_upper_covering ci v @ extend_two_sided_lit ci v v
           | None \<Rightarrow> extend_all ci)
      | RInSet s \<Rightarrow> containing_inset ci s
      | RRange lower upper _ \<Rightarrow>
          (case lower of Some lb \<Rightarrow> extend_lower_covering ci (rb_value lb) | None \<Rightarrow> []) @
          (case upper of Some ub \<Rightarrow> extend_upper_covering ci (rb_value ub) | None \<Rightarrow> []) @
          (case (lower, upper) of
             (Some lb, Some ub) \<Rightarrow> extend_two_sided_lit ci (rb_value lb) (rb_value ub)
           | _ \<Rightarrow> []))"

subsection \<open>All columns of a class\<close>

definition intersect_smallest_first :: "'k list list \<Rightarrow> 'k list" where
  "intersect_smallest_first per_column =
     (case sort_key length per_column of
        [] \<Rightarrow> []
      | first # rest \<Rightarrow>
          fold (\<lambda>column acc. if acc = [] then acc else filter (\<lambda>fp. fp \<in> set column) acc)
            rest (remdups first))"

record 'k complex_index =
  cx_per_column :: "'k column_index list"
  cx_len :: nat

definition cx_new :: "nat \<Rightarrow> 'k complex_index" where
  "cx_new num_columns = \<lparr>cx_per_column = replicate num_columns column_index_default, cx_len = 0\<rparr>"

text \<open>
  \<^verbatim>\<open>iter_mut().zip(ranges)\<close> stops at the shorter side; columns past the end of the ranges keep
  their contents.
\<close>

fun zip_update ::
  "(column_range \<Rightarrow> 'k column_index \<Rightarrow> 'k column_index) \<Rightarrow> 'k column_index list
   \<Rightarrow> column_range list \<Rightarrow> 'k column_index list" where
  "zip_update f (ci # cols) (r # rs) = f r ci # zip_update f cols rs"
| "zip_update f cols _ = cols"

definition cx_insert :: "'k \<Rightarrow> column_range list \<Rightarrow> 'k complex_index \<Rightarrow> 'k complex_index" where
  "cx_insert fp ranges cx =
     \<lparr>cx_per_column = zip_update (ci_insert fp) (cx_per_column cx) ranges,
      cx_len = cx_len cx + 1\<rparr>"

definition cx_remove :: "'k \<Rightarrow> column_range list \<Rightarrow> 'k complex_index \<Rightarrow> 'k complex_index" where
  "cx_remove fp ranges cx =
     \<lparr>cx_per_column = zip_update (ci_remove fp) (cx_per_column cx) ranges,
      cx_len = cx_len cx - 1\<rparr>"

definition cx_candidates :: "'k complex_index \<Rightarrow> column_range list \<Rightarrow> 'k list" where
  "cx_candidates cx query_ranges =
     (if cx_len cx = 0 then []
      else (case (cx_per_column cx, query_ranges) of
              ([], _) \<Rightarrow> []
            | ([column], [r]) \<Rightarrow> containing column r
            | (columns, ranges) \<Rightarrow>
                intersect_smallest_first (map (\<lambda>(c, r). containing c r) (zip columns ranges))))"

type_synonym column_forms = "column_range option list"

definition forms_some :: "column_forms \<Rightarrow> column_range list" where
  "forms_some forms = List.map_filter id forms"

definition cx_candidates_point :: "'k complex_index \<Rightarrow> column_forms list \<Rightarrow> 'k list" where
  "cx_candidates_point cx col_forms =
     (if cx_len cx = 0 then []
      else (case cx_per_column cx of
              [] \<Rightarrow> []
            | [column] \<Rightarrow>
                (case col_forms of
                   [] \<Rightarrow> []
                 | forms # _ \<Rightarrow> concat (map (containing column) (forms_some forms)))
            | columns \<Rightarrow>
                intersect_smallest_first
                  (map (\<lambda>(c, forms). remdups (concat (map (containing c) (forms_some forms))))
                     (zip columns col_forms))))"

definition fallback_total :: "'k complex_index \<Rightarrow> nat" where
  "fallback_total cx = sum_list (map (\<lambda>c. length (ci_opaque c)) (cx_per_column cx))"

subsection \<open>Posting lists as relations\<close>

lemma postings_entry_push [index_simps]:
  "postings (entry_push k v m) k' = (if k = k' then postings m k @ [v] else postings m k')"
  by (auto simp: postings_def split: option.splits)

lemma postings_retain [index_simps]:
  "postings (post_retain keep m k) k' =
     (if k = k' then filter keep (postings m k) else postings m k')"
  by (auto simp: postings_def post_retain_def map_of_update map_of_delete Let_def
      split: option.splits)

lemma distinct_post_retain [simp]:
  "distinct (map fst m) \<Longrightarrow> distinct (map fst (post_retain keep m k))"
  by (auto simp: post_retain_def Let_def distinct_update distinct_delete split: option.splits)

lemma in_post_filter:
  assumes "distinct (map fst m)"
  shows "v \<in> set (concat (map snd (filter (\<lambda>(l, _). P l) m))) \<longleftrightarrow>
           (\<exists>k. P k \<and> v \<in> set (postings m k))"
  using assms by (force simp: postings_def map_of_eq_Some_iff split: option.splits)

lemma in_post_all [index_simps]:
  "distinct (map fst m) \<Longrightarrow> v \<in> set (post_all m) \<longleftrightarrow> (\<exists>k. v \<in> set (postings m k))"
  using in_post_filter [of m v "\<lambda>_. True"] by (simp add: post_all_def case_prod_unfold)

lemma in_post_upto [index_simps]:
  "distinct (map fst m) \<Longrightarrow> v \<in> set (post_upto m k) \<longleftrightarrow> (\<exists>l\<le>k. v \<in> set (postings m l))"
  using in_post_filter [of m v "\<lambda>l. l \<le> k"] by (simp add: post_upto_def)

lemma in_post_from [index_simps]:
  "distinct (map fst m) \<Longrightarrow> v \<in> set (post_from m k) \<longleftrightarrow> (\<exists>l\<ge>k. v \<in> set (postings m l))"
  using in_post_filter [of m v "\<lambda>l. k \<le> l"] by (simp add: post_from_def)

lemma postings_Nil [simp]: "postings [] k = []"
  by (simp add: postings_def)

lemma postings_fold_push:
  "set (postings (fold (\<lambda>k m. entry_push k v m) ks m) k') =
     set (postings m k') \<union> (if k' \<in> set ks then {v} else {})"
  by (induction ks arbitrary: m) (auto simp: index_simps)

lemma postings_fold_remove:
  "set (postings (fold (\<lambda>k m. map_vec_remove m k v) ks m) k') =
     set (postings m k') - (if k' \<in> set ks then {v} else {})"
  by (induction ks arbitrary: m) (auto simp: index_simps map_vec_remove_def)

lemma distinct_fold_push:
  "distinct (map fst m) \<Longrightarrow> distinct (map fst (fold (\<lambda>k m. entry_push k v m) ks m))"
  by (induction ks arbitrary: m) auto

lemma distinct_fold_remove:
  "distinct (map fst m) \<Longrightarrow> distinct (map fst (fold (\<lambda>k m. map_vec_remove m k v) ks m))"
  by (induction ks arbitrary: m) (auto simp: map_vec_remove_def)

subsection \<open>The map a column index stores\<close>

text \<open>
  \<open>ci_rel ci M\<close>: every posting list of \<open>ci\<close> holds exactly the ids that \<open>M\<close> maps to a range
  placed there.
\<close>

definition ci_keys_ok :: "'k column_index \<Rightarrow> bool" where
  "ci_keys_ok ci \<longleftrightarrow>
     distinct (map fst (ci_eq ci)) \<and> distinct (map fst (ci_inset ci)) \<and>
     distinct (map fst (ci_range_lower ci)) \<and> distinct (map fst (ci_range_upper ci)) \<and>
     distinct (map fst (ci_range_both ci))"

definition placed :: "('k \<Rightarrow> column_range option) \<Rightarrow> 'k \<Rightarrow> placement \<Rightarrow> bool" where
  "placed M fp p \<longleftrightarrow> (\<exists>r. M fp = Some r \<and> placement_of r = p)"

definition ci_rel :: "'k column_index \<Rightarrow> ('k \<Rightarrow> column_range option) \<Rightarrow> bool" where
  "ci_rel ci M \<longleftrightarrow> ci_keys_ok ci \<and>
     (\<forall>fp k. fp \<in> set (postings (ci_eq ci) k) \<longleftrightarrow> placed M fp (PEq k)) \<and>
     (\<forall>fp k. fp \<in> set (postings (ci_inset ci) k) \<longleftrightarrow> (\<exists>ks. placed M fp (PInSet ks) \<and> k \<in> set ks)) \<and>
     (\<forall>fp k. fp \<in> set (postings (ci_range_lower ci) k) \<longleftrightarrow> placed M fp (PRangeLower k)) \<and>
     (\<forall>fp k. fp \<in> set (postings (ci_range_upper ci) k) \<longleftrightarrow> placed M fp (PRangeUpper k)) \<and>
     (\<forall>fp l u. (u, fp) \<in> set (postings (ci_range_both ci) l) \<longleftrightarrow> placed M fp (PRangeBoth l u)) \<and>
     (\<forall>fp. fp \<in> set (ci_opaque ci) \<longleftrightarrow> placed M fp POpaque)"

lemma ci_relD:
  assumes "ci_rel ci M"
  shows "ci_keys_ok ci"
    "fp \<in> set (postings (ci_eq ci) k) \<longleftrightarrow> placed M fp (PEq k)"
    "fp \<in> set (postings (ci_inset ci) k) \<longleftrightarrow> (\<exists>ks. placed M fp (PInSet ks) \<and> k \<in> set ks)"
    "fp \<in> set (postings (ci_range_lower ci) k) \<longleftrightarrow> placed M fp (PRangeLower k)"
    "fp \<in> set (postings (ci_range_upper ci) k) \<longleftrightarrow> placed M fp (PRangeUpper k)"
    "(u, fp) \<in> set (postings (ci_range_both ci) k) \<longleftrightarrow> placed M fp (PRangeBoth k u)"
    "fp \<in> set (ci_opaque ci) \<longleftrightarrow> placed M fp POpaque"
  using assms unfolding ci_rel_def by blast+

lemma ci_rel_default: "ci_rel column_index_default (\<lambda>_. None)"
  by (simp add: ci_rel_def ci_keys_ok_def column_index_default_def placed_def)

lemma placed_upd:
  "placed (M(fp \<mapsto> r)) fp' p \<longleftrightarrow> (if fp' = fp then placement_of r = p else placed M fp' p)"
  by (simp add: placed_def)

lemma placed_del: "placed (M(fp := None)) fp' p \<longleftrightarrow> fp' \<noteq> fp \<and> placed M fp' p"
  by (simp add: placed_def)

lemma placed_fresh: "M fp = None \<Longrightarrow> \<not> placed M fp p"
  by (simp add: placed_def)

lemma placed_known: "M fp = Some r \<Longrightarrow> placed M fp p \<longleftrightarrow> placement_of r = p"
  by (simp add: placed_def)

lemma ci_insert_rel:
  assumes "ci_rel ci M" "M fp = None"
  shows "ci_rel (ci_insert fp r ci) (M(fp \<mapsto> r))"
proof (cases "placement_of r")
  case (PInSet ks)
  with assms show ?thesis
    by (auto simp: ci_rel_def ci_insert_def ci_keys_ok_def placed_upd placed_fresh
        postings_fold_push distinct_fold_push)
qed (use assms in \<open>auto simp: ci_rel_def ci_insert_def ci_keys_ok_def placed_upd placed_fresh
       index_simps\<close>)

lemma ci_remove_rel:
  assumes "ci_rel ci M" "M fp = Some r"
  shows "ci_rel (ci_remove fp r ci) (M(fp := None))"
proof (cases "placement_of r")
  case (PInSet ks)
  with assms show ?thesis
    by (auto simp: ci_rel_def ci_remove_def ci_keys_ok_def placed_del placed_known
        postings_fold_remove distinct_fold_remove)
qed (use assms in \<open>auto simp: ci_rel_def ci_remove_def ci_keys_ok_def placed_del placed_known
       index_simps map_vec_remove_def btree_vec_remove_def btree_pair_remove_def\<close>)

subsection \<open>Containment lookup\<close>

definition keyed_range :: "column_range \<Rightarrow> bool" where
  "keyed_range r \<longleftrightarrow> r \<noteq> RInSet []"

lemma placed_somewhere:
  assumes "M fp = Some r" "keyed_range r"
  obtains k where "placed M fp (PEq k)"
  | k ks where "placed M fp (PInSet ks)" "k \<in> set ks"
  | k where "placed M fp (PRangeLower k)"
  | k where "placed M fp (PRangeUpper k)"
  | l u where "placed M fp (PRangeBoth l u)"
  | "placed M fp POpaque"
proof (cases "placement_of r")
  case (PInSet ks)
  have "ks \<noteq> []"
  proof
    assume "ks = []"
    with PInSet assms(2) show False
      by (cases r)
        (auto simp: placement_of_def keyed_range_def those_Some_iff split: option.splits prod.splits)
  qed
  with PInSet assms(1) show ?thesis using that(2) [of ks "hd ks"] by (simp add: placed_def)
qed (use assms(1) that in \<open>auto simp: placed_def\<close>)

lemma in_range_both_all:
  "ci_keys_ok ci \<Longrightarrow> fp \<in> set (range_both_all ci) \<longleftrightarrow>
     (\<exists>l u. (u, fp) \<in> set (postings (ci_range_both ci) l))"
  by (force simp: range_both_all_def in_post_all ci_keys_ok_def)

lemma in_extend_two_sided:
  "ci_keys_ok ci \<Longrightarrow> fp \<in> set (extend_two_sided ci lo hi) \<longleftrightarrow>
     (\<exists>l u. l \<le> lo \<and> hi \<le> u \<and> (u, fp) \<in> set (postings (ci_range_both ci) l))"
  by (force simp: extend_two_sided_def in_post_upto ci_keys_ok_def)

lemma ci_lookup:
  assumes "ci_rel ci M"
  shows "fp \<in> set (post_all (ci_eq ci)) \<longleftrightarrow> (\<exists>k. placed M fp (PEq k))"
    "fp \<in> set (post_all (ci_inset ci)) \<longleftrightarrow> (\<exists>ks k. placed M fp (PInSet ks) \<and> k \<in> set ks)"
    "fp \<in> set (post_all (ci_range_lower ci)) \<longleftrightarrow> (\<exists>k. placed M fp (PRangeLower k))"
    "fp \<in> set (post_all (ci_range_upper ci)) \<longleftrightarrow> (\<exists>k. placed M fp (PRangeUpper k))"
    "fp \<in> set (range_both_all ci) \<longleftrightarrow> (\<exists>l u. placed M fp (PRangeBoth l u))"
    "fp \<in> set (post_upto (ci_range_lower ci) k) \<longleftrightarrow> (\<exists>l\<le>k. placed M fp (PRangeLower l))"
    "fp \<in> set (post_from (ci_range_upper ci) k) \<longleftrightarrow> (\<exists>l\<ge>k. placed M fp (PRangeUpper l))"
    "fp \<in> set (extend_two_sided ci lo hi) \<longleftrightarrow> (\<exists>l u. l \<le> lo \<and> hi \<le> u \<and> placed M fp (PRangeBoth l u))"
  using ci_relD [OF assms]
  by (auto simp: in_post_all in_post_upto in_post_from in_range_both_all in_extend_two_sided
      ci_keys_ok_def)

lemma in_extend_all:
  assumes "ci_rel ci M"
  shows "fp \<in> set (extend_all ci) \<longleftrightarrow> (\<exists>p. p \<noteq> POpaque \<and> p \<noteq> PInSet [] \<and> placed M fp p)"
proof
  assume "fp \<in> set (extend_all ci)"
  then show "\<exists>p. p \<noteq> POpaque \<and> p \<noteq> PInSet [] \<and> placed M fp p"
    unfolding extend_all_def set_append Un_iff ci_lookup [OF assms]
    by (metis empty_iff empty_set placement.distinct placement.inject(2))
next
  assume "\<exists>p. p \<noteq> POpaque \<and> p \<noteq> PInSet [] \<and> placed M fp p"
  then obtain p where p: "p \<noteq> POpaque" "p \<noteq> PInSet []" "placed M fp p" by blast
  then show "fp \<in> set (extend_all ci)"
    unfolding extend_all_def set_append Un_iff ci_lookup [OF assms]
    by (cases p) (auto simp: neq_Nil_conv)
qed

lemma in_inset_members:
  "fp \<in> set (inset_members ci k ks) \<longleftrightarrow> (\<forall>v\<in>set (k # ks). fp \<in> set (postings (ci_inset ci) v))"
proof -
  have "fp \<in> set (fold (\<lambda>v members. if members = [] then members
            else filter (\<lambda>fp. fp \<in> set (postings (ci_inset ci) v)) members) ks ms) \<longleftrightarrow>
        fp \<in> set ms \<and> (\<forall>v\<in>set ks. fp \<in> set (postings (ci_inset ci) v))" for ms
    by (induction ks arbitrary: ms) auto
  then show ?thesis by (simp add: inset_members_def)
qed

text \<open>Keys respect the bounds test: what the precise test admits, the key order admits.\<close>

lemma value_satisfies_key:
  assumes "value_satisfies side v b = Some True" "try_new v = Some k" "try_new (rb_value b) = Some l"
  shows "side = Lower \<Longrightarrow> l \<le> k" "side = Upper \<Longrightarrow> k \<le> l"
proof -
  from assms(1) obtain r where r: "literal_value_order v (rb_value b) = Some r"
    "admits side r (rb_inclusive b)"
    by (auto simp: value_satisfies_def)
  note ord = try_new_order [OF r(1) assms(2,3)]
  show "side = Lower \<Longrightarrow> l \<le> k" using r(2) ord by (cases r) (auto simp: admits_def)
  show "side = Upper \<Longrightarrow> k \<le> l" using r(2) ord by (cases r) (auto simp: admits_def)
qed

lemma bound_tight_key:
  assumes "bound_at_least_as_tight side a b = Some True" "try_new (rb_value a) = Some k"
    "try_new (rb_value b) = Some l"
  shows "side = Lower \<Longrightarrow> l \<le> k" "side = Upper \<Longrightarrow> k \<le> l"
proof -
  from assms(1) obtain r where r: "literal_value_order (rb_value a) (rb_value b) = Some r"
    "case orient side r of OrdGreater \<Rightarrow> True | OrdLess \<Rightarrow> False
       | OrdEqual \<Rightarrow> \<not> rb_inclusive a \<or> rb_inclusive b"
    by (auto simp: bound_at_least_as_tight_def)
  note ord = try_new_order [OF r(1) assms(2,3)]
  show "side = Lower \<Longrightarrow> l \<le> k" using r(2) ord by (cases r) auto
  show "side = Upper \<Longrightarrow> k \<le> l" using r(2) ord by (cases r) auto
qed

lemma range_contains_lower:
  assumes "range_contains_value (range_view_new (Some lb) upper excl) v" "try_new v = Some k"
    "try_new (rb_value lb) = Some l"
  shows "l \<le> k"
  using assms value_satisfies_key(1) [of Lower v lb k l]
  by (simp add: range_contains_value_def range_view_new_def)

lemma range_contains_upper:
  assumes "range_contains_value (range_view_new lower (Some ub) excl) v" "try_new v = Some k"
    "try_new (rb_value ub) = Some u"
  shows "k \<le> u"
  using assms value_satisfies_key(2) [of Upper v ub k u]
  by (simp add: range_contains_value_def range_view_new_def)

lemma placed_dom: "placed M fp p \<Longrightarrow> M fp \<noteq> None"
  by (auto simp: placed_def)

lemma containing_all:
  assumes "ci_rel ci M" "M fp = Some r" "keyed_range r"
  shows "fp \<in> set (ci_opaque ci @ extend_all ci)"
  using assms(2,3)
proof (cases rule: placed_somewhere [where M = M and fp = fp])
  case (2 k ks)
  then show ?thesis by (auto simp: in_extend_all [OF assms(1)] intro!: exI [of _ "PInSet ks"])
next
  case 6
  then show ?thesis by (simp add: ci_relD(7) [OF assms(1)])
qed (auto simp: in_extend_all [OF assms(1)])

lemma in_lower_covering:
  assumes "ci_rel ci M" "placed M fp (PRangeLower l)" "\<And>k. try_new v = Some k \<Longrightarrow> l \<le> k"
  shows "fp \<in> set (extend_lower_covering ci v)"
  using assms(2,3) by (auto simp: extend_lower_covering_def ci_lookup [OF assms(1)] split: option.splits)

lemma in_upper_covering:
  assumes "ci_rel ci M" "placed M fp (PRangeUpper u)" "\<And>k. try_new v = Some k \<Longrightarrow> k \<le> u"
  shows "fp \<in> set (extend_upper_covering ci v)"
  using assms(2,3) by (auto simp: extend_upper_covering_def ci_lookup [OF assms(1)] split: option.splits)

lemma in_two_sided_lit:
  assumes "ci_rel ci M" "placed M fp (PRangeBoth l u)"
    "\<And>k. try_new v = Some k \<Longrightarrow> l \<le> k" "\<And>k. try_new w = Some k \<Longrightarrow> k \<le> u"
  shows "fp \<in> set (extend_two_sided_lit ci v w)"
proof -
  have "ci_range_both ci \<noteq> []"
    using assms(2) ci_relD(6) [OF assms(1), of u fp l] by auto
  with assms(2-4) show ?thesis
    by (auto simp: extend_two_sided_lit_def ci_lookup [OF assms(1)] split: option.splits)
qed

text \<open>The three placements of a range with bounds.\<close>

lemma range_placement_cases:
  assumes "M fp = Some (RRange lower upper excl)"
  obtains "placed M fp POpaque"
  | lb l where "lower = Some lb" "upper = None" "try_new (rb_value lb) = Some l"
      "placed M fp (PRangeLower l)"
  | ub u where "lower = None" "upper = Some ub" "try_new (rb_value ub) = Some u"
      "placed M fp (PRangeUpper u)"
  | lb ub l u where "lower = Some lb" "upper = Some ub" "try_new (rb_value lb) = Some l"
      "try_new (rb_value ub) = Some u" "placed M fp (PRangeBoth l u)"
proof (cases "placement_of (RRange lower upper excl)")
  case (PRangeLower l)
  with assms show ?thesis using that(2)
    by (cases lower; cases upper) (auto simp: placed_def placement_of_def split: option.splits)
next
  case (PRangeUpper u)
  with assms show ?thesis using that(3)
    by (cases lower; cases upper) (auto simp: placed_def placement_of_def split: option.splits)
next
  case (PRangeBoth l u)
  with assms show ?thesis using that(4)
    by (cases lower; cases upper) (auto simp: placed_def placement_of_def split: option.splits)
next
  case POpaque
  with assms show ?thesis using that(1) by (simp add: placed_def)
qed (cases lower; cases upper; auto simp: placement_of_def split: option.splits)+

lemma containing_range_equal:
  assumes "ci_rel ci M" "M fp = Some (RRange lower upper excl)" "try_new v = Some k"
    "range_contains_value (range_view_new lower upper excl) v"
  shows "fp \<in> set (containing ci (REqual v))"
  using assms(2)
proof (cases rule: range_placement_cases [where M = M and fp = fp])
  case 1
  then show ?thesis by (simp add: containing_def ci_relD(7) [OF assms(1)])
next
  case (2 lb l)
  have "l \<le> k" by (rule range_contains_lower [OF assms(4) [unfolded 2(1)] assms(3) 2(3)])
  with 2(4) assms(3) in_lower_covering [OF assms(1), of fp l v] show ?thesis
    by (simp add: containing_def)
next
  case (3 ub u)
  have "k \<le> u" by (rule range_contains_upper [OF assms(4) [unfolded 3(2)] assms(3) 3(3)])
  with 3(4) assms(3) in_upper_covering [OF assms(1), of fp u v] show ?thesis
    by (simp add: containing_def)
next
  case (4 lb ub l u)
  have "l \<le> k" by (rule range_contains_lower [OF assms(4) [unfolded 4(1)] assms(3) 4(3)])
  moreover have "k \<le> u" by (rule range_contains_upper [OF assms(4) [unfolded 4(2)] assms(3) 4(4)])
  ultimately show ?thesis using 4(5) assms(3) in_two_sided_lit [OF assms(1), of fp l u v v]
    by (simp add: containing_def)
qed

lemma those_keys:
  assumes "those (map try_new s) = Some ks" "k \<in> set ks"
  obtains v where "v \<in> set s" "try_new v = Some k"
proof -
  from assms have "Some k \<in> set (map try_new s)" by (simp add: those_Some_iff)
  then show ?thesis using that by auto
qed

lemma containing_range_inset:
  assumes "ci_rel ci M" "M fp = Some (RRange lower upper excl)" "s \<noteq> []"
    "list_all (range_contains_value (range_view_new lower upper excl)) s"
  shows "fp \<in> set (containing ci (RInSet s))"
proof (cases "those (map try_new s)")
  case None
  have "keyed_range (RRange lower upper excl)" by (simp add: keyed_range_def)
  from containing_all [OF assms(1,2) this] None show ?thesis
    by (simp add: containing_def containing_inset_def)
next
  case (Some ks)
  with assms(3) obtain k0 rest where ks: "ks = k0 # rest"
    by (cases ks) (auto simp: those_Some_iff)
  define mn where "mn = Min (set ks)"
  define mx where "mx = Max (set ks)"
  have "mn \<in> set ks" "mx \<in> set ks"
    using Min_in [of "set ks"] Max_in [of "set ks"] ks by (auto simp: mn_def mx_def)
  then obtain vn vx where v: "vn \<in> set s" "try_new vn = Some mn" "vx \<in> set s" "try_new vx = Some mx"
    using those_keys [OF Some] by metis
  then have c: "range_contains_value (range_view_new lower upper excl) vn"
    "range_contains_value (range_view_new lower upper excl) vx"
    using assms(4) by (auto simp: list_all_iff)
  have eq: "set (containing ci (RInSet s)) \<supseteq> set (ci_opaque ci) \<union> set (post_upto (ci_range_lower ci) mn)
      \<union> set (post_from (ci_range_upper ci) mx) \<union> set (extend_two_sided ci mn mx)"
    using Some by (auto simp: containing_def containing_inset_def ks mn_def mx_def Let_def)
  from assms(2) have "fp \<in> set (ci_opaque ci) \<union> set (post_upto (ci_range_lower ci) mn)
      \<union> set (post_from (ci_range_upper ci) mx) \<union> set (extend_two_sided ci mn mx)"
  proof (cases rule: range_placement_cases [where M = M and fp = fp])
    case 1
    then show ?thesis by (simp add: ci_relD(7) [OF assms(1)])
  next
    case (2 lb l)
    have "l \<le> mn" by (rule range_contains_lower [OF c(1) [unfolded 2(1)] v(2) 2(3)])
    with 2(4) show ?thesis by (auto simp: ci_lookup [OF assms(1)])
  next
    case (3 ub u)
    have "mx \<le> u" by (rule range_contains_upper [OF c(2) [unfolded 3(2)] v(4) 3(3)])
    with 3(4) show ?thesis by (auto simp: ci_lookup [OF assms(1)])
  next
    case (4 lb ub l u)
    have "l \<le> mn" by (rule range_contains_lower [OF c(1) [unfolded 4(1)] v(2) 4(3)])
    moreover have "mx \<le> u" by (rule range_contains_upper [OF c(2) [unfolded 4(2)] v(4) 4(4)])
    ultimately show ?thesis using 4(5) by (auto simp: ci_lookup [OF assms(1)])
  qed
  with eq show ?thesis by blast
qed

lemma containing_range_range:
  assumes "ci_rel ci M" "M fp = Some (RRange cl cu cne)"
    "range_subsumes_range (range_view_new cl cu cne) (range_view_new nl nu nne)"
  shows "fp \<in> set (containing ci (RRange nl nu nne))"
proof -
  from assms(3) have cov: "bound_covered Lower cl nl" "bound_covered Upper cu nu"
    by (simp_all add: range_subsumes_range_def range_view_new_def Let_def)
  from assms(2) show ?thesis
  proof (cases rule: range_placement_cases [where M = M and fp = fp])
    case 1
    then show ?thesis by (simp add: containing_def ci_relD(7) [OF assms(1)])
  next
    case (2 lb l)
    with cov(1) obtain nb where n: "nl = Some nb" "bound_at_least_as_tight Lower nb lb = Some True"
      by (cases nl) auto
    have "l \<le> k" if "try_new (rb_value nb) = Some k" for k
      using bound_tight_key(1) [OF n(2) that 2(3)] by simp
    with 2(4) n in_lower_covering [OF assms(1), of fp l "rb_value nb"] show ?thesis
      by (simp add: containing_def)
  next
    case (3 ub u)
    with cov(2) obtain nb where n: "nu = Some nb" "bound_at_least_as_tight Upper nb ub = Some True"
      by (cases nu) auto
    have "k \<le> u" if "try_new (rb_value nb) = Some k" for k
      using bound_tight_key(2) [OF n(2) that 3(3)] by simp
    with 3(4) n in_upper_covering [OF assms(1), of fp u "rb_value nb"] show ?thesis
      by (simp add: containing_def)
  next
    case (4 lb ub l u)
    with cov obtain na nb where n: "nl = Some na" "bound_at_least_as_tight Lower na lb = Some True"
      "nu = Some nb" "bound_at_least_as_tight Upper nb ub = Some True"
      by (cases nl; cases nu) auto
    have "l \<le> k" if "try_new (rb_value na) = Some k" for k
      using bound_tight_key(1) [OF n(2) that 4(3)] by simp
    moreover have "k \<le> u" if "try_new (rb_value nb) = Some k" for k
      using bound_tight_key(2) [OF n(4) that 4(4)] by simp
    ultimately show ?thesis
      using 4(5) n in_two_sided_lit [OF assms(1), of fp l u "rb_value na" "rb_value nb"]
      by (simp add: containing_def)
  qed
qed

lemma containing_inset_inset:
  assumes "ci_rel ci M" "M fp = Some (RInSet s)" "s' \<noteq> []" "set s' \<subseteq> set s"
  shows "fp \<in> set (containing ci (RInSet s'))"
proof (cases "those (map try_new s)")
  case None
  with assms(2) have "placed M fp POpaque" by (simp add: placed_def placement_of_def)
  then show ?thesis by (simp add: containing_def ci_relD(7) [OF assms(1)])
next
  case (Some ks)
  with assms(2) have p: "placed M fp (PInSet ks)" by (simp add: placed_def placement_of_def)
  note keyed = those_member [OF Some]
  have "those (map try_new s') = Some (map (\<lambda>v. the (try_new v)) s')"
    using keyed assms(4) by (force simp: those_Some_iff)
  moreover have "set (map (\<lambda>v. the (try_new v)) s') \<subseteq> set ks"
    using keyed assms(4) by force
  moreover have "map (\<lambda>v. the (try_new v)) s' \<noteq> []" using assms(3) by simp
  ultimately obtain k rest where "those (map try_new s') = Some (k # rest)" "set (k # rest) \<subseteq> set ks"
    by (metis list.exhaust)
  with p show ?thesis
    by (auto simp: containing_def containing_inset_def Let_def in_inset_members
        ci_relD(3) [OF assms(1)])
qed

lemma containing_complete:
  assumes rel: "ci_rel ci M" and fp: "M fp = Some r" and keyed: "keyed_range r" "keyed_range q"
    and sub: "column_range_subsumes r q"
  shows "fp \<in> set (containing ci q)"
proof -
  note all = containing_all [OF rel fp keyed(1)]
  show ?thesis
  proof (cases q)
    case (REqual v)
    show ?thesis
    proof (cases "try_new v")
      case None
      with REqual all show ?thesis by (simp add: containing_def)
    next
      case (Some k)
      show ?thesis
      proof (cases r)
        case (RRange lower upper excl)
        with REqual sub containing_range_equal [OF rel fp [unfolded RRange] Some] show ?thesis by simp
      next
        case (RInSet s)
        with REqual sub have "v \<in> set s" by simp
        with fp RInSet have "placed M fp POpaque \<or> (\<exists>ks. placed M fp (PInSet ks) \<and> k \<in> set ks)"
          using Some those_member [of try_new s _ v]
          by (cases "those (map try_new s)") (auto simp: placed_def placement_of_def)
        then show ?thesis using REqual Some by (auto simp: containing_def ci_relD(3,7) [OF rel])
      next
        case RUnconstrained
        with fp have "placed M fp POpaque" by (simp add: placed_def placement_of_def)
        then show ?thesis by (simp add: containing_def ci_relD(7) [OF rel])
      qed (use REqual sub fp Some in \<open>auto simp: containing_def placed_def placement_of_def
             ci_relD(2) [OF rel]\<close>)
    qed
  next
    case (RInSet s)
    then have "s \<noteq> []" using keyed(2) by (simp add: keyed_range_def)
    show ?thesis
    proof (cases r)
      case RUnconstrained
      with fp have "placed M fp POpaque" by (simp add: placed_def placement_of_def)
      then show ?thesis by (simp add: containing_def ci_relD(7) [OF rel])
    qed (use RInSet sub fp \<open>s \<noteq> []\<close> containing_inset_inset [OF rel] containing_range_inset [OF rel]
         in auto)
  next
    case (RRange nl nu nne)
    show ?thesis
    proof (cases r)
      case RUnconstrained
      with fp have "placed M fp POpaque" by (simp add: placed_def placement_of_def)
      then show ?thesis by (simp add: containing_def ci_relD(7) [OF rel])
    qed (use RRange sub fp containing_range_range [OF rel] in auto)
  qed (use all in \<open>auto simp: containing_def\<close>)
qed

lemma containing_sound:
  assumes rel: "ci_rel ci M" and "fp \<in> set (containing ci q)"
  shows "M fp \<noteq> None"
proof -
  have all: "M fp \<noteq> None" if "fp \<in> set (extend_all ci)"
    using that placed_dom by (auto simp: in_extend_all [OF rel])
  have low: "M fp \<noteq> None" if "fp \<in> set (extend_lower_covering ci v)" for v
    using that placed_dom by (auto simp: extend_lower_covering_def ci_lookup [OF rel] split: option.splits)
  have upp: "M fp \<noteq> None" if "fp \<in> set (extend_upper_covering ci v)" for v
    using that placed_dom by (auto simp: extend_upper_covering_def ci_lookup [OF rel] split: option.splits)
  have two: "M fp \<noteq> None" if "fp \<in> set (extend_two_sided_lit ci v w)" for v w
    using that placed_dom
    by (auto simp: extend_two_sided_lit_def ci_lookup [OF rel] split: option.splits if_splits)
  have ins: "M fp \<noteq> None" if "fp \<in> set (containing_inset ci s)" for s
    using that all placed_dom
    by (auto simp: containing_inset_def Let_def ci_lookup [OF rel] in_inset_members ci_relD [OF rel]
        split: option.splits list.splits if_splits)
  from assms(2) show ?thesis
    using all low upp two ins placed_dom
    by (cases q) (auto simp: containing_def ci_relD [OF rel] split: option.splits)
qed

subsection \<open>The map a complex index stores\<close>

lemma length_zip_update [simp]: "length (zip_update f cols rs) = length cols"
  by (induction f cols rs rule: zip_update.induct) auto

lemma nth_zip_update:
  "i < length cols \<Longrightarrow> i < length rs \<Longrightarrow> zip_update f cols rs ! i = f (rs ! i) (cols ! i)"
  by (induction f cols rs arbitrary: i rule: zip_update.induct) (auto simp: nth_Cons split: nat.splits)

lemma set_intersect_smallest_first:
  assumes "xss \<noteq> []"
  shows "fp \<in> set (intersect_smallest_first xss) \<longleftrightarrow> (\<forall>xs\<in>set xss. fp \<in> set xs)"
proof -
  have fold_eq: "fp \<in> set (fold (\<lambda>column acc. if acc = [] then acc
            else filter (\<lambda>fp. fp \<in> set column) acc) rest acc) \<longleftrightarrow>
        fp \<in> set acc \<and> (\<forall>xs\<in>set rest. fp \<in> set xs)" for rest acc
    by (induction rest arbitrary: acc) auto
  from assms have "sort_key length xss \<noteq> []" by (metis length_0_conv length_sort)
  then obtain first rest where s: "sort_key length xss = first # rest" by (cases "sort_key length xss") auto
  then have "set xss = set (first # rest)" by (metis set_sort)
  then show ?thesis by (simp add: intersect_smallest_first_def s fold_eq)
qed

definition cx_rel :: "nat \<Rightarrow> 'k complex_index \<Rightarrow> ('k \<Rightarrow> column_range list option) \<Rightarrow> bool" where
  "cx_rel n cx M \<longleftrightarrow> length (cx_per_column cx) = n \<and>
     (\<forall>rs\<in>ran M. length rs = n) \<and> finite (dom M) \<and> cx_len cx = card (dom M) \<and>
     (\<forall>i<n. ci_rel (cx_per_column cx ! i) (\<lambda>fp. map_option (\<lambda>rs. rs ! i) (M fp)))"

lemma cx_rel_new: "cx_rel n (cx_new n) (\<lambda>_. None)"
  by (simp add: cx_rel_def cx_new_def ci_rel_default)

lemma cx_insert_rel:
  assumes "cx_rel n cx M" "M fp = None" "length rs = n"
  shows "cx_rel n (cx_insert fp rs cx) (M(fp \<mapsto> rs))"
proof -
  have upd: "(\<lambda>fp'. map_option (\<lambda>rs. rs ! i) ((M(fp \<mapsto> rs)) fp')) =
      (\<lambda>fp. map_option (\<lambda>rs. rs ! i) (M fp))(fp \<mapsto> rs ! i)" for i
    by auto
  have "fp \<notin> dom M" using assms(2) by (simp add: domIff)
  with assms show ?thesis
    unfolding cx_rel_def upd
    by (auto simp: cx_insert_def nth_zip_update ran_def split: if_splits
        intro!: ci_insert_rel)
qed

lemma cx_remove_rel:
  assumes "cx_rel n cx M" "M fp = Some rs"
  shows "cx_rel n (cx_remove fp rs cx) (M(fp := None))"
proof -
  have upd: "(\<lambda>fp'. map_option (\<lambda>rs. rs ! i) ((M(fp := None)) fp')) =
      (\<lambda>fp. map_option (\<lambda>rs. rs ! i) (M fp))(fp := None)" for i
    by auto
  have "fp \<in> dom M" "length rs = n" using assms by (auto simp: cx_rel_def ran_def)
  with assms show ?thesis
    unfolding cx_rel_def upd
    by (auto simp: cx_remove_def nth_zip_update ran_def split: if_splits intro!: ci_remove_rel)
qed

lemma cx_rel_empty_iff: "cx_rel n cx M \<Longrightarrow> cx_len cx = 0 \<longleftrightarrow> M = (\<lambda>_. None)"
  by (auto simp: cx_rel_def)

lemma cx_candidates_iff:
  assumes rel: "cx_rel n cx M" and "M fp = Some rs" and n: "0 < n" and q: "length qs = n"
  shows "fp \<in> set (cx_candidates cx qs) \<longleftrightarrow>
           (\<forall>i<n. fp \<in> set (containing (cx_per_column cx ! i) (qs ! i)))"
proof -
  from rel have len: "length (cx_per_column cx) = n" by (simp add: cx_rel_def)
  from assms(2) cx_rel_empty_iff [OF rel] have ne: "cx_len cx \<noteq> 0" by auto
  have zip_eq: "(\<forall>xs\<in>set (map (\<lambda>(c, r). containing c r) (zip (cx_per_column cx) qs)). fp \<in> set xs)
      \<longleftrightarrow> (\<forall>i<n. fp \<in> set (containing (cx_per_column cx ! i) (qs ! i)))"
    using len q by (auto simp: set_zip)
  show ?thesis
  proof (cases "n = 1")
    case True
    with len q obtain c r where "cx_per_column cx = [c]" "qs = [r]"
      by (auto simp: length_Suc_conv)
    with True ne show ?thesis by (simp add: cx_candidates_def)
  next
    case False
    with n len obtain c c' cs where cs: "cx_per_column cx = c # c' # cs"
      by (cases "cx_per_column cx" rule: list.exhaust; cases "tl (cx_per_column cx)") auto
    moreover from False n q obtain r r' rs' where "qs = r # r' # rs'"
      by (cases qs; cases "tl qs") auto
    ultimately show ?thesis
      using ne zip_eq set_intersect_smallest_first
        [of "map (\<lambda>(c, r). containing c r) (zip (cx_per_column cx) qs)" fp]
      by (simp add: cx_candidates_def)
  qed
qed

lemma cx_candidates_complete:
  assumes rel: "cx_rel n cx M" and fp: "M fp = Some rs" and n: "0 < n" and q: "length qs = n"
    and sub: "\<forall>i<n. keyed_range (rs ! i) \<and> keyed_range (qs ! i) \<and> column_range_subsumes (rs ! i) (qs ! i)"
  shows "fp \<in> set (cx_candidates cx qs)"
proof -
  have "fp \<in> set (containing (cx_per_column cx ! i) (qs ! i))" if "i < n" for i
  proof (rule containing_complete)
    show "ci_rel (cx_per_column cx ! i) (\<lambda>fp. map_option (\<lambda>rs. rs ! i) (M fp))"
      using rel that by (simp add: cx_rel_def)
  qed (use fp sub that in auto)
  then show ?thesis by (simp add: cx_candidates_iff [OF rel fp n q])
qed

lemma cx_candidates_sound:
  assumes rel: "cx_rel n cx M" and q: "length qs = n" and mem: "fp \<in> set (cx_candidates cx qs)"
  shows "M fp \<noteq> None"
proof -
  from rel have len: "length (cx_per_column cx) = n" by (simp add: cx_rel_def)
  have step: "M fp \<noteq> None" if "i < n" "fp \<in> set (containing (cx_per_column cx ! i) (qs ! i))" for i
    using containing_sound [of "cx_per_column cx ! i" "\<lambda>fp. map_option (\<lambda>rs. rs ! i) (M fp)" fp "qs ! i"]
      rel that by (auto simp: cx_rel_def)
  show ?thesis
  proof (cases "cx_per_column cx")
    case Nil
    with mem show ?thesis by (simp add: cx_candidates_def split: if_splits)
  next
    case (Cons c cs)
    with q len obtain r rs where qs: "qs = r # rs" by (cases qs) auto
    have "fp \<in> set (containing c r)"
    proof (cases "cs = [] \<and> rs = []")
      case True
      with mem Cons qs show ?thesis by (simp add: cx_candidates_def split: if_splits)
    next
      case False
      then have "fp \<in> set (intersect_smallest_first
          (map (\<lambda>(c, r). containing c r) (zip (c # cs) (r # rs))))"
        using mem Cons qs by (cases cs; cases rs) (auto simp: cx_candidates_def split: if_splits)
      then show ?thesis by (subst (asm) set_intersect_smallest_first) auto
    qed
    with step [of 0] len Cons qs show ?thesis by auto
  qed
qed

end
