(* ===== verification/Constraint_Index.thy ===== *)
theory Constraint_Index
  imports Column_Index
begin

text \<open>
  The index over the constraints of registered queries
  (\<^verbatim>\<open>src/query/constraint_index/index.rs\<close> and \<^verbatim>\<open>point.rs\<close>): classes of entries by the set of
  columns they constrain, a hash bucket for pure equalities and a complex index for the rest.

  \<open>ix_rel\<close> says that an index stores a map from ids to constraint lists. Insertion and removal
  are update and deletion of that map, and the two probes return every entry they promise.
\<close>

subsection \<open>State\<close>

record 'k subsumption_class =
  sc_equality :: "(value_key list, 'k) post_map"
  sc_complex :: "'k complex_index"

definition sc_new :: "nat \<Rightarrow> 'k subsumption_class" where
  "sc_new num_columns = \<lparr>sc_equality = [], sc_complex = cx_new num_columns\<rparr>"

datatype membership_payload = MEquality "value_key list" | MComplex "column_range list"

record membership =
  mb_columns :: column_set
  mb_payload :: membership_payload

record 'k constraint_index =
  ix_classes :: "(column_set \<times> 'k subsumption_class) list"
  ix_membership :: "('k \<times> membership) list"

definition ix_default :: "'k constraint_index" where
  "ix_default = \<lparr>ix_classes = [], ix_membership = []\<rparr>"

subsection \<open>Updates\<close>

definition sc_is_empty :: "'k subsumption_class \<Rightarrow> bool" where
  "sc_is_empty c \<longleftrightarrow> sc_equality c = [] \<and> cx_len (sc_complex c) = 0"

fun sc_remove :: "'k \<Rightarrow> membership_payload \<Rightarrow> 'k subsumption_class \<Rightarrow> 'k subsumption_class" where
  "sc_remove fp (MEquality values) c = c\<lparr>sc_equality := map_vec_remove (sc_equality c) values fp\<rparr>"
| "sc_remove fp (MComplex shapes) c = c\<lparr>sc_complex := cx_remove fp shapes (sc_complex c)\<rparr>"

definition ix_remove :: "'k \<Rightarrow> 'k constraint_index \<Rightarrow> 'k constraint_index" where
  "ix_remove fp ix =
     (case map_of (ix_membership ix) fp of
        None \<Rightarrow> ix
      | Some m \<Rightarrow>
          (let ix' = ix\<lparr>ix_membership := AList.delete fp (ix_membership ix)\<rparr> in
           case map_of (ix_classes ix) (mb_columns m) of
             None \<Rightarrow> ix'
           | Some bucket \<Rightarrow>
               (let bucket' = sc_remove fp (mb_payload m) bucket in
                ix'\<lparr>ix_classes :=
                  (if sc_is_empty bucket' then AList.delete (mb_columns m) (ix_classes ix)
                   else AList.update (mb_columns m) bucket' (ix_classes ix))\<rparr>)))"

definition ix_insert :: "'k \<Rightarrow> table_constraint list \<Rightarrow> 'k constraint_index \<Rightarrow> 'k constraint_index" where
  "ix_insert fp table_constraints ix0 =
     (let ix = (if map_of (ix_membership ix0) fp \<noteq> None then ix_remove fp ix0 else ix0) in
      case classify table_constraints of
        EqualityPure columns values \<Rightarrow>
          ix\<lparr>ix_classes :=
               entry_update (sc_new (length columns))
                 (\<lambda>b. b\<lparr>sc_equality := entry_push values fp (sc_equality b)\<rparr>) columns (ix_classes ix),
             ix_membership :=
               AList.update fp \<lparr>mb_columns = columns, mb_payload = MEquality values\<rparr>
                 (ix_membership ix)\<rparr>
      | Complex columns \<Rightarrow>
          (let ranges = column_ranges table_constraints columns in
           ix\<lparr>ix_classes :=
                entry_update (sc_new (length columns))
                  (\<lambda>b. b\<lparr>sc_complex := cx_insert fp ranges (sc_complex b)\<rparr>) columns (ix_classes ix),
              ix_membership :=
                AList.update fp \<lparr>mb_columns = columns, mb_payload = MComplex ranges\<rparr>
                  (ix_membership ix)\<rparr>))"

subsection \<open>Region probe\<close>

text \<open>\<open>equal_key\<close> is the closure that keeps the key of an \<open>Equal\<close> range only.\<close>

fun equal_key :: "column_range \<Rightarrow> value_key option" where
  "equal_key (REqual v) = try_new v"
| "equal_key _ = None"

definition subset_probe ::
  "table_constraint list \<Rightarrow> column_set \<Rightarrow> 'k subsumption_class \<Rightarrow> 'k list" where
  "subset_probe new_constraints sub_cols bucket =
     (let ranges = column_ranges new_constraints sub_cols in
      (case those (map equal_key ranges) of
         Some key \<Rightarrow> postings (sc_equality bucket) key
       | None \<Rightarrow> []) @
      cx_candidates (sc_complex bucket) ranges)"

definition candidates :: "'k constraint_index \<Rightarrow> table_constraint list \<Rightarrow> 'k list" where
  "candidates ix new_constraints =
     (let new_columns = into_columns (classify new_constraints);
          n = length new_columns;
          powerset_is_smaller = (n < 32 \<and> 2 ^ n \<le> length (ix_classes ix))
      in remdups
           (if powerset_is_smaller then
              concat (map (\<lambda>sub_cols.
                case map_of (ix_classes ix) sub_cols of
                  Some bucket \<Rightarrow> subset_probe new_constraints sub_cols bucket
                | None \<Rightarrow> []) (column_set_powerset new_columns))
            else
              concat (map (\<lambda>(sub_cols, bucket).
                if is_subset_of sub_cols new_columns
                then subset_probe new_constraints sub_cols bucket else []) (ix_classes ix))))"

subsection \<open>Counters\<close>

definition ix_columns :: "'k constraint_index \<Rightarrow> string list" where
  "ix_columns ix = remdups (concat (map fst (ix_classes ix)))"

definition classes_len :: "'k constraint_index \<Rightarrow> nat" where
  "classes_len ix = length (ix_classes ix)"

definition complex_total :: "'k constraint_index \<Rightarrow> nat" where
  "complex_total ix = sum_list (map (\<lambda>(_, c). cx_len (sc_complex c)) (ix_classes ix))"

definition complex_fallback_total :: "'k constraint_index \<Rightarrow> nat" where
  "complex_fallback_total ix = sum_list (map (\<lambda>(_, c). fallback_total (sc_complex c)) (ix_classes ix))"

subsection \<open>Point probe\<close>

type_synonym column_keys = "value_key option list"

text \<open>The keys of one column, in slot order; empty slots are skipped.\<close>

definition keys_some :: "column_keys \<Rightarrow> value_key list" where
  "keys_some ks = List.map_filter id ks"

definition value_key_product :: "column_keys list \<Rightarrow> value_key list list" where
  "value_key_product key_sets =
     fold (\<lambda>ks result. concat (map (\<lambda>prefix. map (\<lambda>k. prefix @ [k]) (keys_some ks)) result))
       key_sets [[]]"

definition form_keys :: "column_forms \<Rightarrow> column_keys" where
  "form_keys forms = map (\<lambda>slot. Option.bind slot equal_key) forms"

definition tuple_matches :: "column_keys list \<Rightarrow> value_key list \<Rightarrow> bool" where
  "tuple_matches key_sets tuple =
     list_all (\<lambda>(ks, t). list_all (\<lambda>k. k = None) ks \<or> t \<in> set (keys_some ks))
       (zip key_sets tuple)"

definition class_probe ::
  "(string \<Rightarrow> column_forms) \<Rightarrow> column_set \<Rightarrow> 'k subsumption_class \<Rightarrow> 'k list" where
  "class_probe col_forms_fn column_set cls =
     (let col_forms = map col_forms_fn column_set;
          key_sets = map form_keys col_forms
      in (if list_all (list_ex (\<lambda>k. k \<noteq> None)) key_sets then
            concat (map (postings (sc_equality cls)) (value_key_product key_sets))
          else
            concat (map (\<lambda>(tuple, fps). if tuple_matches key_sets tuple then fps else [])
              (sc_equality cls))) @
         cx_candidates_point (sc_complex cls) col_forms)"

text \<open>The set the caller passes in is cleared first, so only the new contents appear.\<close>

definition candidates_point_into :: "'k constraint_index \<Rightarrow> (string \<Rightarrow> column_forms) \<Rightarrow> 'k list" where
  "candidates_point_into ix col_forms_fn =
     remdups (concat (map (\<lambda>(column_set, cls). class_probe col_forms_fn column_set cls)
       (ix_classes ix)))"

subsection \<open>The map an index stores\<close>

definition membership_of :: "table_constraint list \<Rightarrow> membership" where
  "membership_of cs =
     (case classify cs of
        EqualityPure columns values \<Rightarrow> \<lparr>mb_columns = columns, mb_payload = MEquality values\<rparr>
      | Complex columns \<Rightarrow>
          \<lparr>mb_columns = columns, mb_payload = MComplex (column_ranges cs columns)\<rparr>)"

definition complex_members :: "('k \<Rightarrow> membership option) \<Rightarrow> column_set \<Rightarrow> 'k \<Rightarrow> column_range list option" where
  "complex_members Mb cols fp =
     (case Mb fp of
        None \<Rightarrow> None
      | Some m \<Rightarrow>
          if mb_columns m = cols
          then (case mb_payload m of MComplex rs \<Rightarrow> Some rs | MEquality _ \<Rightarrow> None) else None)"

definition sc_rel :: "column_set \<Rightarrow> 'k subsumption_class \<Rightarrow> ('k \<Rightarrow> membership option) \<Rightarrow> bool" where
  "sc_rel cols c Mb \<longleftrightarrow>
     distinct (map fst (sc_equality c)) \<and> (\<forall>k. map_of (sc_equality c) k \<noteq> Some []) \<and>
     (\<forall>values fp. fp \<in> set (postings (sc_equality c) values) \<longleftrightarrow>
        Mb fp = Some \<lparr>mb_columns = cols, mb_payload = MEquality values\<rparr>) \<and>
     cx_rel (length cols) (sc_complex c) (complex_members Mb cols)"

definition class_at :: "'k constraint_index \<Rightarrow> column_set \<Rightarrow> 'k subsumption_class" where
  "class_at ix cols =
     (case map_of (ix_classes ix) cols of None \<Rightarrow> sc_new (length cols) | Some c \<Rightarrow> c)"

definition ix_rel :: "'k constraint_index \<Rightarrow> ('k \<Rightarrow> table_constraint list option) \<Rightarrow> bool" where
  "ix_rel ix A \<longleftrightarrow> distinct (map fst (ix_classes ix)) \<and>
     map_of (ix_membership ix) = (\<lambda>fp. map_option membership_of (A fp)) \<and>
     (\<forall>cols. sc_rel cols (class_at ix cols) (map_of (ix_membership ix))) \<and>
     (\<forall>(cols, c)\<in>set (ix_classes ix). \<not> sc_is_empty c)"

lemma complex_members_upd:
  "complex_members (Mb(fp \<mapsto> m)) cols =
     (complex_members Mb cols)(fp :=
        (if mb_columns m = cols
         then (case mb_payload m of MComplex rs \<Rightarrow> Some rs | MEquality _ \<Rightarrow> None) else None))"
  by (auto simp: complex_members_def)

lemma complex_members_del:
  "complex_members (Mb(fp := None)) cols = (complex_members Mb cols)(fp := None)"
  by (auto simp: complex_members_def)

lemma complex_members_None: "Mb fp = None \<Longrightarrow> complex_members Mb cols fp = None"
  by (simp add: complex_members_def)

lemma complex_members_skip:
  "Mb fp = None \<Longrightarrow> (complex_members Mb cols)(fp := None) = complex_members Mb cols"
  by (auto simp: complex_members_def)

lemma sc_rel_new:
  assumes no: "\<And>fp m. Mb fp = Some m \<Longrightarrow> mb_columns m \<noteq> cols"
  shows "sc_rel cols (sc_new (length cols)) Mb"
proof -
  have "complex_members Mb cols = (\<lambda>_. None)"
    using no by (auto simp: complex_members_def fun_eq_iff split: option.splits)
  moreover have "Mb fp \<noteq> Some \<lparr>mb_columns = cols, mb_payload = p\<rparr>" for fp p
    using no [of fp] by auto
  ultimately show ?thesis by (simp add: sc_rel_def sc_new_def cx_rel_new)
qed

lemma sc_insert_equality:
  assumes "sc_rel cols c Mb" "Mb fp = None"
  shows "sc_rel cols (c\<lparr>sc_equality := entry_push values fp (sc_equality c)\<rparr>)
           (Mb(fp \<mapsto> \<lparr>mb_columns = cols, mb_payload = MEquality values\<rparr>))"
  using assms by (auto simp: sc_rel_def index_simps complex_members_upd complex_members_skip)

lemma sc_insert_complex:
  assumes "sc_rel cols c Mb" "Mb fp = None" "length rs = length cols"
  shows "sc_rel cols (c\<lparr>sc_complex := cx_insert fp rs (sc_complex c)\<rparr>)
           (Mb(fp \<mapsto> \<lparr>mb_columns = cols, mb_payload = MComplex rs\<rparr>))"
  using assms cx_insert_rel [of "length cols" "sc_complex c" "complex_members Mb cols" fp rs]
  by (auto simp: sc_rel_def complex_members_upd complex_members_None)

lemma sc_insert_other:
  assumes "sc_rel cols c Mb" "Mb fp = None" "mb_columns m \<noteq> cols"
  shows "sc_rel cols c (Mb(fp \<mapsto> m))"
  using assms by (auto simp: sc_rel_def complex_members_upd complex_members_skip)

lemma sc_remove_rel:
  assumes "sc_rel cols c Mb" "Mb fp = Some m" "mb_columns m = cols"
  shows "sc_rel cols (sc_remove fp (mb_payload m) c) (Mb(fp := None))"
proof (cases "mb_payload m")
  case (MEquality vals)
  have m: "m = \<lparr>mb_columns = cols, mb_payload = MEquality vals\<rparr>"
    using MEquality assms(3) by (cases m) simp
  then have skip: "(complex_members Mb cols)(fp := None) = complex_members Mb cols"
    using assms(2) by (auto simp: complex_members_def)
  have ne: "map_of (post_retain (\<lambda>x. x \<noteq> fp) (sc_equality c) vals) k \<noteq> Some []" for k
    using assms(1)
    by (auto simp: sc_rel_def post_retain_def Let_def map_of_update map_of_delete split: option.splits)
  show ?thesis
    using assms m MEquality ne
    by (auto simp: sc_rel_def map_vec_remove_def index_simps complex_members_del skip)
next
  case (MComplex rs)
  have m: "m = \<lparr>mb_columns = cols, mb_payload = MComplex rs\<rparr>"
    using MComplex assms(3) by (cases m) simp
  then have "complex_members Mb cols fp = Some rs" using assms(2) by (simp add: complex_members_def)
  with assms m MComplex cx_remove_rel [of "length cols" "sc_complex c" "complex_members Mb cols" fp rs]
  show ?thesis by (auto simp: sc_rel_def complex_members_del)
qed

lemma sc_remove_other:
  assumes "sc_rel cols c Mb" "Mb fp = Some m" "mb_columns m \<noteq> cols"
  shows "sc_rel cols c (Mb(fp := None))"
proof -
  have "(complex_members Mb cols)(fp := None) = complex_members Mb cols"
    using assms(2,3) by (auto simp: complex_members_def)
  with assms show ?thesis by (auto simp: sc_rel_def complex_members_del)
qed

lemma sc_empty_members:
  assumes "sc_rel cols c Mb" "sc_is_empty c" "Mb fp = Some m"
  shows "mb_columns m \<noteq> cols"
proof
  assume cols: "mb_columns m = cols"
  from assms(1,2) cx_rel_empty_iff have none: "complex_members Mb cols = (\<lambda>_. None)"
    by (auto simp: sc_rel_def sc_is_empty_def)
  from assms(1,2) have "Mb fp \<noteq> Some \<lparr>mb_columns = cols, mb_payload = MEquality vs\<rparr>" for vs
    by (auto simp: sc_rel_def sc_is_empty_def)
  with fun_cong [OF none, of fp] cols assms(3) show False
    by (cases m; cases "mb_payload m") (auto simp: complex_members_def)
qed

lemma ix_relD:
  assumes "ix_rel ix A"
  shows "distinct (map fst (ix_classes ix))"
    "map_of (ix_membership ix) = (\<lambda>fp. map_option membership_of (A fp))"
    "sc_rel cols (class_at ix cols) (map_of (ix_membership ix))"
    "(cols, c) \<in> set (ix_classes ix) \<Longrightarrow> \<not> sc_is_empty c"
  using assms unfolding ix_rel_def by blast+

lemma ix_rel_default: "ix_rel ix_default (\<lambda>_. None)"
  by (auto simp: ix_rel_def ix_default_def class_at_def intro!: sc_rel_new)

lemma class_at_update:
  "class_at (ix\<lparr>ix_classes := AList.update cols c (ix_classes ix)\<rparr>) cols' =
     (if cols = cols' then c else class_at ix cols')"
  by (simp add: class_at_def map_of_update)

lemma class_at_delete:
  "class_at (ix\<lparr>ix_classes := AList.delete cols (ix_classes ix)\<rparr>) cols' =
     (if cols = cols' then sc_new (length cols) else class_at ix cols')"
  by (auto simp: class_at_def map_of_delete)

lemma class_at_membership [simp]: "class_at (ix\<lparr>ix_membership := mb\<rparr>) cols = class_at ix cols"
  by (simp add: class_at_def)

lemma class_at_entry:
  "class_at (ix\<lparr>ix_classes := entry_update (sc_new (length cols)) f cols (ix_classes ix)\<rparr>) cols' =
     (if cols = cols' then f (class_at ix cols) else class_at ix cols')"
  by (auto simp: class_at_def split: option.splits)

lemma classes_nonempty_iff:
  assumes "distinct (map fst cls)"
  shows "(\<forall>(cols, c)\<in>set cls. P c) \<longleftrightarrow> (\<forall>cols c. map_of cls cols = Some c \<longrightarrow> P c)"
  using map_of_Some_iff [OF assms] by auto

lemma member_class:
  assumes "ix_rel ix A" "map_of (ix_membership ix) fp = Some m"
  obtains c where "map_of (ix_classes ix) (mb_columns m) = Some c"
    "sc_rel (mb_columns m) c (map_of (ix_membership ix))"
proof (cases "map_of (ix_classes ix) (mb_columns m)")
  case None
  then have "class_at ix (mb_columns m) = sc_new (length (mb_columns m))" by (simp add: class_at_def)
  with ix_relD(3) [OF assms(1), of "mb_columns m"]
  have "sc_rel (mb_columns m) (sc_new (length (mb_columns m))) (map_of (ix_membership ix))" by simp
  from sc_empty_members [OF this _ assms(2)] show ?thesis
    by (simp add: sc_is_empty_def sc_new_def cx_new_def)
next
  case (Some c)
  with ix_relD(3) [OF assms(1), of "mb_columns m"] that show ?thesis by (simp add: class_at_def)
qed

lemma ix_remove_rel:
  assumes rel: "ix_rel ix A"
  shows "ix_rel (ix_remove fp ix) (A(fp := None))"
proof (cases "map_of (ix_membership ix) fp")
  case None
  then have "A fp = None" using ix_relD(2) [OF rel] by (metis option.map_disc_iff)
  then have "A(fp := None) = A" by auto
  with None rel show ?thesis by (simp add: ix_remove_def)
next
  case (Some m)
  let ?Mb = "map_of (ix_membership ix)"
  obtain c where c: "map_of (ix_classes ix) (mb_columns m) = Some c" "sc_rel (mb_columns m) c ?Mb"
    by (rule member_class [OF rel Some])
  let ?c' = "sc_remove fp (mb_payload m) c"
  let ?ix' = "ix_remove fp ix"
  have c': "sc_rel (mb_columns m) ?c' (?Mb(fp := None))" by (rule sc_remove_rel [OF c(2) Some refl])
  have mem: "map_of (ix_membership ?ix') = ?Mb(fp := None)"
    using Some c(1) by (auto simp: ix_remove_def Let_def map_of_delete)
  have cls: "ix_classes ?ix' =
      (if sc_is_empty ?c' then AList.delete (mb_columns m) (ix_classes ix)
       else AList.update (mb_columns m) ?c' (ix_classes ix))"
    using Some c(1) by (simp add: ix_remove_def Let_def)
  have dist: "distinct (map fst (ix_classes ?ix'))"
    using ix_relD(1) [OF rel] by (simp add: cls distinct_update distinct_delete)
  have "class_at ?ix' cols = (if cols = mb_columns m then
      (if sc_is_empty ?c' then sc_new (length cols) else ?c') else class_at ix cols)" for cols
    by (auto simp: class_at_def cls map_of_update map_of_delete)
  moreover have "sc_rel (mb_columns m) (sc_new (length (mb_columns m))) (?Mb(fp := None))"
    if "sc_is_empty ?c'"
    by (rule sc_rel_new) (rule sc_empty_members [OF c' that])
  moreover have "sc_rel cols (class_at ix cols) (?Mb(fp := None))" if "cols \<noteq> mb_columns m" for cols
    by (rule sc_remove_other [OF ix_relD(3) [OF rel] Some]) (use that in auto)
  ultimately have classes: "sc_rel cols (class_at ?ix' cols) (?Mb(fp := None))" for cols
    using c' by simp
  have "\<forall>cols c. map_of (ix_classes ?ix') cols = Some c \<longrightarrow> \<not> sc_is_empty c"
    using ix_relD(4) [OF rel] map_of_SomeD [of "ix_classes ix"]
    by (auto simp: cls map_of_update map_of_delete split: if_splits)
  then show ?thesis
    using dist mem classes ix_relD(2) [OF rel]
    by (auto simp: ix_rel_def classes_nonempty_iff [OF dist])
qed

lemma ix_insert_fresh:
  assumes rel: "ix_rel ix A" and fresh: "A fp = None"
    and cls: "ix_classes ix' = entry_update (sc_new (length cols)) f cols (ix_classes ix)"
    and mem: "ix_membership ix' = AList.update fp (membership_of cs) (ix_membership ix)"
    and cols: "mb_columns (membership_of cs) = cols"
    and f: "sc_rel cols (f (class_at ix cols)) ((map_of (ix_membership ix))(fp \<mapsto> membership_of cs))"
    and ne: "\<And>c. \<not> sc_is_empty (f c)"
  shows "ix_rel ix' (A(fp \<mapsto> cs))"
proof -
  let ?Mb = "map_of (ix_membership ix)"
  from fresh ix_relD(2) [OF rel] have none: "?Mb fp = None" by simp
  have mem': "map_of (ix_membership ix') = ?Mb(fp \<mapsto> membership_of cs)" by (auto simp: mem map_of_update)
  have dist: "distinct (map fst (ix_classes ix'))" using ix_relD(1) [OF rel] by (simp add: cls)
  have "class_at ix' c' = (if cols = c' then f (class_at ix cols) else class_at ix c')" for c'
    by (auto simp: class_at_def cls split: option.splits)
  moreover have "sc_rel c' (class_at ix c') (?Mb(fp \<mapsto> membership_of cs))" if "cols \<noteq> c'" for c'
    by (rule sc_insert_other [OF ix_relD(3) [OF rel] none]) (use that cols in auto)
  ultimately have "sc_rel c' (class_at ix' c') (?Mb(fp \<mapsto> membership_of cs))" for c'
    using f by auto
  moreover have "\<forall>c' c. map_of (ix_classes ix') c' = Some c \<longrightarrow> \<not> sc_is_empty c"
    using ix_relD(4) [OF rel] map_of_SomeD [of "ix_classes ix"] ne
    by (auto simp: cls split: if_splits)
  ultimately show ?thesis
    using dist mem' ix_relD(2) [OF rel] by (auto simp: ix_rel_def classes_nonempty_iff [OF dist])
qed

lemma ix_insert_rel:
  assumes "ix_rel ix0 A"
  shows "ix_rel (ix_insert fp cs ix0) (A(fp \<mapsto> cs))"
proof -
  define ix where "ix = (if map_of (ix_membership ix0) fp \<noteq> None then ix_remove fp ix0 else ix0)"
  have rel: "ix_rel ix (A(fp := None))"
  proof (cases "map_of (ix_membership ix0) fp")
    case None
    then have "A(fp := None) = A" using ix_relD(2) [OF assms] by (auto simp: fun_eq_iff)
    with None assms show ?thesis by (simp add: ix_def)
  next
    case Some
    then show ?thesis using ix_remove_rel [OF assms] by (simp add: ix_def)
  qed
  have none: "map_of (ix_membership ix) fp = None" using ix_relD(2) [OF rel] by simp
  have "ix_rel (ix_insert fp cs ix0) ((A(fp := None))(fp \<mapsto> cs))"
  proof (cases "classify cs")
    case (EqualityPure columns vals)
    then have m: "membership_of cs = \<lparr>mb_columns = columns, mb_payload = MEquality vals\<rparr>"
      by (simp add: membership_of_def)
    let ?f = "\<lambda>b. b\<lparr>sc_equality := entry_push vals fp (sc_equality b)\<rparr>"
    show ?thesis
    proof (rule ix_insert_fresh [OF rel, where f = ?f and cols = columns])
      show "sc_rel columns (?f (class_at ix columns)) ((map_of (ix_membership ix))(fp \<mapsto> membership_of cs))"
        unfolding m by (rule sc_insert_equality [OF ix_relD(3) [OF rel] none])
      show "\<not> sc_is_empty (?f c)" for c :: "'a subsumption_class"
      proof
        assume "sc_is_empty (?f c)"
        then have "map_of (entry_push vals fp (sc_equality c)) vals = None" by (simp add: sc_is_empty_def)
        then show False by simp
      qed
    qed (use EqualityPure in \<open>simp_all add: ix_insert_def ix_def m Let_def\<close>)
  next
    case (Complex columns)
    let ?rs = "column_ranges cs columns"
    from Complex have m: "membership_of cs = \<lparr>mb_columns = columns, mb_payload = MComplex ?rs\<rparr>"
      by (simp add: membership_of_def)
    let ?f = "\<lambda>b. b\<lparr>sc_complex := cx_insert fp ?rs (sc_complex b)\<rparr>"
    show ?thesis
    proof (rule ix_insert_fresh [OF rel, where f = ?f and cols = columns])
      show "sc_rel columns (?f (class_at ix columns)) ((map_of (ix_membership ix))(fp \<mapsto> membership_of cs))"
        unfolding m by (rule sc_insert_complex [OF ix_relD(3) [OF rel] none]) (simp add: column_ranges_def)
    qed (use Complex in \<open>simp_all add: ix_insert_def ix_def m Let_def sc_is_empty_def
           cx_insert_def\<close>)
  qed
  then show ?thesis by simp
qed

subsection \<open>Shapes of reduced ranges\<close>

definition simple_shape :: "column_range \<Rightarrow> bool" where
  "simple_shape r \<longleftrightarrow> r \<noteq> RUnconstrained \<and> (\<forall>s. r \<noteq> RInSet s)"

lemma comparison_step_shape: "comparison_step op v st = Inl r \<Longrightarrow> simple_shape r"
  by (auto simp: comparison_step_def simple_shape_def split: if_splits option.splits)

lemma comparison_loop_shape: "comparison_loop cs st = Inl r \<Longrightarrow> simple_shape r"
  by (induction cs st rule: comparison_loop.induct)
    (auto dest: comparison_step_shape split: sum.splits)

lemma equal_bounds_shape: "equal_bounds_check v bs = Some r \<Longrightarrow> simple_shape r"
  by (induction v bs rule: equal_bounds_check.induct)
    (auto simp: simple_shape_def split: option.splits bool.splits)

lemma simple_shape_simps [simp]:
  "simple_shape RUnknown" "simple_shape REmpty" "simple_shape (REqual v)" "simple_shape (RRange l u ne)"
  by (simp_all add: simple_shape_def)

lemma comparison_finish_shape: "simple_shape (comparison_finish st)"
proof (cases "cs_equal st")
  case None
  then show ?thesis by (auto simp: comparison_finish_def split: option.splits ordering.splits)
next
  case (Some v)
  then show ?thesis
    using equal_bounds_shape [of v "[(Lower, cs_lower st), (Upper, cs_upper st)]"]
    by (cases "equal_bounds_check v [(Lower, cs_lower st), (Upper, cs_upper st)]")
      (simp_all add: comparison_finish_def del: equal_bounds_check.simps)
qed

lemma comparison_range_shape: "cs \<noteq> [] \<Longrightarrow> simple_shape (comparison_range_build cs)"
  using comparison_loop_shape [of cs cmp_state_new] comparison_finish_shape
  by (auto simp: comparison_range_build_def split: sum.splits)

lemma in_set_range_shape:
  "keyed_range (in_set_range_build vs cs) \<and> in_set_range_build vs cs \<noteq> RUnconstrained"
  by (auto simp: in_set_range_build_def keyed_range_def split: column_range.splits list.splits)

lemma column_range_build_shape:
  "keyed_range (column_range_build cs)" "cs \<noteq> [] \<Longrightarrow> column_range_build cs \<noteq> RUnconstrained"
proof -
  have part: "c \<noteq> []" if "cs \<noteq> []" "constraints_partition cs [] None = Some (c, None)" for c
  proof -
    have "constraints_partition cs cmps ins = Some (c, None) \<Longrightarrow> c = [] \<Longrightarrow> cs = []" for cmps ins
    proof (induction cs arbitrary: cmps ins)
      case (Cons tc cs)
      have keep: "constraints_partition cs x y = Some (c, None) \<Longrightarrow> set x \<subseteq> set c" for x y
        by (induction cs x y rule: constraints_partition.induct) (auto split: option.splits)
      have ins: "constraints_partition cs x (Some y) \<noteq> Some (c, None)" for x y
        by (induction cs x "Some y" arbitrary: y rule: constraints_partition.induct) auto
      from Cons.prems keep ins show ?case
        by (cases tc) (fastforce split: option.splits)+
    qed simp
    with that show ?thesis by blast
  qed
  show "keyed_range (column_range_build cs)"
  proof (cases "constraints_partition cs [] None")
    case (Some p)
    then show ?thesis
      using part [of "fst p"] comparison_range_shape [of "fst p"] in_set_range_shape [of _ "fst p"]
      by (cases p; cases "snd p")
        (auto simp: column_range_build_def keyed_range_def simple_shape_def)
  qed (simp add: column_range_build_def keyed_range_def)
  show "column_range_build cs \<noteq> RUnconstrained" if "cs \<noteq> []"
  proof (cases "constraints_partition cs [] None")
    case (Some p)
    then show ?thesis
      using that part [of "fst p"] comparison_range_shape [of "fst p"] in_set_range_shape [of _ "fst p"]
      by (cases p; cases "snd p") (auto simp: column_range_build_def simple_shape_def)
  qed (simp add: column_range_build_def that)
qed

lemma column_range_of_keyed: "keyed_range (column_range_of cs c)"
  using column_range_build_shape(1) by (simp add: column_range_of_def) (simp add: keyed_range_def)

lemma constraints_partition_equal:
  assumes "\<forall>tc\<in>set cs. \<exists>c. tc = Comparison c Equal v"
  shows "constraints_partition cs cmps None = Some (cmps @ replicate (length cs) (Equal, v), None)"
  using assms
proof (induction cs arbitrary: cmps)
  case (Cons tc cs)
  then show ?case by (auto simp: replicate_append_same)
qed simp

lemma comparison_loop_equal:
  "\<not> literal_value_is_incomparable v \<Longrightarrow>
   comparison_loop (replicate n (Equal, v)) \<lparr>cs_equal = Some v, cs_lower = None, cs_upper = None, cs_not_equal = []\<rparr> =
   Inr \<lparr>cs_equal = Some v, cs_lower = None, cs_upper = None, cs_not_equal = []\<rparr>"
  by (induction n) (auto simp: comparison_step_def)

lemma column_range_build_equal:
  assumes "cs \<noteq> []" "\<forall>tc\<in>set cs. \<exists>c. tc = Comparison c Equal v" "\<not> literal_value_is_incomparable v"
  shows "column_range_build cs = REqual v"
proof -
  from assms(1) obtain n where n: "length cs = Suc n" by (cases cs) auto
  have "comparison_range_build (replicate (length cs) (Equal, v)) = REqual v"
    using comparison_loop_equal [OF assms(3), of n] assms(3)
    by (simp add: n comparison_range_build_def comparison_step_def cmp_state_new_def comparison_finish_def)
  then show ?thesis using assms(1) constraints_partition_equal [OF assms(2), of "[]"]
    by (simp add: column_range_build_def)
qed

subsection \<open>Classification\<close>

definition classify_inv :: "table_constraint list \<Rightarrow> classify_state \<Rightarrow> bool" where
  "classify_inv cs st \<longleftrightarrow> set (cy_all_columns st) = tc_column ` set cs \<and>
     (\<not> cy_complex st \<longrightarrow>
        (\<forall>tc\<in>set cs. \<exists>c v. tc = Comparison c Equal v \<and> map_of (cy_equality st) c = Some v))"

lemma classify_step_inv:
  assumes "classify_inv cs st"
  shows "classify_inv (cs @ [tc]) (classify_step tc st)"
proof (cases tc)
  case (Comparison col op v)
  show ?thesis
  proof (cases "op = Equal")
    case True
    then show ?thesis
      using assms Comparison
      by (cases "map_of (cy_equality st) col")
        (auto simp: classify_inv_def Let_def map_of_update, (metis option.distinct(1))+)
  qed (use assms Comparison in \<open>auto simp: classify_inv_def\<close>)
qed (use assms in \<open>auto simp: classify_inv_def\<close>)

lemma classify_fold_inv:
  "classify_inv cs (fold classify_step cs \<lparr>cy_equality = [], cy_all_columns = [], cy_complex = False\<rparr>)"
proof (induction cs rule: rev_induct)
  case (snoc tc cs)
  from classify_step_inv [OF this] show ?case by simp
qed (simp add: classify_inv_def)

lemma into_columns_classify: "into_columns (classify cs) = column_set_new (cy_all_columns
    (fold classify_step cs \<lparr>cy_equality = [], cy_all_columns = [], cy_complex = False\<rparr>))"
  by (simp add: classify_def Let_def split: option.splits)

lemma set_classify_columns: "set (into_columns (classify cs)) = tc_column ` set cs"
  using classify_fold_inv [of cs] by (simp add: into_columns_classify classify_inv_def)

lemma classify_columns_ok: "column_set_ok (into_columns (classify cs))"
  by (simp add: into_columns_classify column_set_new_ok)

lemma membership_columns: "mb_columns (membership_of cs) = into_columns (classify cs)"
  by (simp add: membership_of_def split: classification.splits)

lemma keyed_comparable: "try_new v = Some k \<Longrightarrow> \<not> literal_value_is_incomparable v"
  by (cases v) auto

lemma classify_pure:
  assumes "classify cs = EqualityPure cols vals"
  shows "\<forall>tc\<in>set cs. \<not> tc_is_cast tc"
    "those (map (\<lambda>c. equal_key (column_range_of cs c)) cols) = Some vals"
proof -
  define st where "st = fold classify_step cs \<lparr>cy_equality = [], cy_all_columns = [], cy_complex = False\<rparr>"
  have inv: "classify_inv cs st" unfolding st_def by (rule classify_fold_inv)
  from assms have st: "\<not> cy_complex st" "cols = column_set_new (cy_all_columns st)"
    "those (map (\<lambda>c. Option.bind (map_of (cy_equality st) c) try_new) cols) = Some vals"
    by (auto simp: classify_def Let_def st_def split: if_splits option.splits)
  have eqs: "\<exists>c v. tc = Comparison c Equal v \<and> map_of (cy_equality st) c = Some v"
    if "tc \<in> set cs" for tc
    using inv st(1) that by (simp add: classify_inv_def)
  then show no_cast: "\<forall>tc\<in>set cs. \<not> tc_is_cast tc" by fastforce
  have "equal_key (column_range_of cs c) = Option.bind (map_of (cy_equality st) c) try_new"
    if c: "c \<in> set cols" for c
  proof -
    have "c \<in> tc_column ` set cs" using c inv st(2) by (simp add: classify_inv_def)
    then obtain tc where tc: "tc \<in> set cs" "tc_column tc = c" by auto
    with eqs [OF tc(1)] obtain v where v: "tc = Comparison c Equal v" "map_of (cy_equality st) c = Some v"
      by auto
    have "\<exists>k. Option.bind (map_of (cy_equality st) c) try_new = Some k"
      using those_member [OF st(3) c] by auto
    with v(2) obtain k where k: "try_new v = Some k" by auto
    let ?f = "filter (\<lambda>tc. tc_column tc = c \<and> \<not> tc_is_cast tc) cs"
    have "tc \<in> set ?f" using tc v by auto
    then have ne: "?f \<noteq> []" by (metis list.set(1) empty_iff)
    have "\<forall>tc\<in>set ?f. \<exists>c. tc = Comparison c Equal v" using eqs v(2) by fastforce
    from column_range_build_equal [OF ne this keyed_comparable [OF k]]
    have "column_range_of cs c = REqual v" using no_cast by (auto simp: column_range_of_def list_ex_iff)
    with v(2) show ?thesis by simp
  qed
  with st(3) show "those (map (\<lambda>c. equal_key (column_range_of cs c)) cols) = Some vals"
    by (metis (mono_tags, lifting) map_cong)
qed

lemma classify_complex_columns:
  assumes "classify cs = Complex cols"
  shows "cols \<noteq> []"
proof
  assume "cols = []"
  with assms set_classify_columns [of cs] have "cs = []" by simp
  with assms show False by (simp add: classify_def column_set_new_def)
qed

subsection \<open>The region probe is complete\<close>

definition buckets_subsumed :: "table_constraint list \<Rightarrow> table_constraint list \<Rightarrow> bool" where
  "buckets_subsumed new cached \<longleftrightarrow>
     (\<forall>b. filter (\<lambda>tc. tc_bucket tc = b) cached \<noteq> [] \<longrightarrow>
        column_range_subsumes (column_range_build (filter (\<lambda>tc. tc_bucket tc = b) cached))
          (column_range_build (filter (\<lambda>tc. tc_bucket tc = b) new)))"

lemma table_subsumed_buckets:
  assumes "table_constraints_subsumed new cached t"
  shows "buckets_subsumed (table_cs new t) (table_cs cached t)"
proof (cases "map_of (qc_table_constraints cached) t")
  case None
  then show ?thesis by (simp add: table_cs_def buckets_subsumed_def)
next
  case (Some ccs)
  with assms obtain ncs where ncs: "map_of (qc_table_constraints new) t = Some ncs"
    by (auto simp: table_constraints_subsumed_def split: if_splits option.splits)
  show ?thesis
    using assms Some ncs
    by (force simp: buckets_subsumed_def table_constraints_subsumed_def table_cs_def list_all_iff
        group_by_column_mem group_by_column_lookup Let_def column_range_build_def [of "[]"]
        split: if_splits)
qed

lemma bare_bucket: "tc_bucket tc = (c, None) \<longleftrightarrow> tc_column tc = c \<and> \<not> tc_is_cast tc"
  by (cases tc) auto

lemma fst_tc_bucket: "fst (tc_bucket tc) = tc_column tc"
  by (cases tc) auto

lemma column_range_of_bare:
  "column_range_of cs c =
     (if list_ex (\<lambda>tc. tc_column tc = c \<and> tc_is_cast tc) cs then RUnknown
      else column_range_build (filter (\<lambda>tc. tc_bucket tc = (c, None)) cs))"
  by (simp add: column_range_of_def bare_bucket)

lemma buckets_subsumed_columns:
  assumes "buckets_subsumed new cached"
  shows "tc_column ` set cached \<subseteq> tc_column ` set new"
proof
  fix c assume "c \<in> tc_column ` set cached"
  then obtain tc where tc: "tc \<in> set cached" "tc_column tc = c" by auto
  let ?in = "filter (\<lambda>tc'. tc_bucket tc' = tc_bucket tc)"
  from tc have ne: "?in cached \<noteq> []" by (auto simp: filter_empty_conv)
  with assms have sub: "column_range_subsumes (column_range_build (?in cached)) (column_range_build (?in new))"
    unfolding buckets_subsumed_def by blast
  have "?in new \<noteq> []"
  proof
    assume "?in new = []"
    then have "column_range_build (?in new) = RUnconstrained" by (simp add: column_range_build_def)
    with sub column_range_build_shape(2) [OF ne] show False
      by (cases "column_range_build (?in cached)") auto
  qed
  then obtain tc' where "tc' \<in> set new" "tc_bucket tc' = tc_bucket tc" by (auto simp: filter_empty_conv)
  then show "c \<in> tc_column ` set new" using tc(2) by (metis fst_tc_bucket image_eqI)
qed

definition may_subsume :: "column_range \<Rightarrow> column_range \<Rightarrow> bool" where
  "may_subsume r q \<longleftrightarrow> r = RUnknown \<or> q = RUnknown \<or> column_range_subsumes r q"

lemma buckets_may_subsume:
  assumes "buckets_subsumed new cached" "c \<in> tc_column ` set cached"
  shows "may_subsume (column_range_of cached c) (column_range_of new c)"
proof (cases "list_ex (\<lambda>tc. tc_column tc = c \<and> tc_is_cast tc) cached \<or>
              list_ex (\<lambda>tc. tc_column tc = c \<and> tc_is_cast tc) new")
  case True
  then show ?thesis by (auto simp: may_subsume_def column_range_of_def)
next
  case False
  then have "filter (\<lambda>tc. tc_bucket tc = (c, None)) cached \<noteq> []"
    using assms(2) by (auto simp: filter_empty_conv bare_bucket list_ex_iff)
  with assms(1) False show ?thesis
    by (auto simp: may_subsume_def column_range_of_bare buckets_subsumed_def)
qed

lemma containing_may:
  assumes "ci_rel ci M" "M fp = Some r" "keyed_range r" "keyed_range q" "may_subsume r q"
  shows "fp \<in> set (containing ci q)"
proof -
  consider "r = RUnknown" | "q = RUnknown" | "column_range_subsumes r q"
    using assms(5) by (auto simp: may_subsume_def)
  then show ?thesis
  proof cases
    case 1
    with assms(2) have "placed M fp POpaque" by (simp add: placed_def placement_of_def)
    then show ?thesis by (simp add: containing_def ci_relD(7) [OF assms(1)])
  next
    case 2
    with containing_all [OF assms(1-3)] show ?thesis by (simp add: containing_def)
  next
    case 3
    then show ?thesis by (rule containing_complete [OF assms(1-4)])
  qed
qed

text \<open>Class by class: the probe of the class that holds an entry returns the entry.\<close>

lemma subset_probe_complex:
  assumes rel: "sc_rel cols c Mb" and fp: "Mb fp = Some \<lparr>mb_columns = cols, mb_payload = MComplex (column_ranges pcs cols)\<rparr>"
    and cols: "cols \<noteq> []" and sub: "\<And>c. c \<in> set cols \<Longrightarrow> may_subsume (column_range_of pcs c) (column_range_of ncs c)"
  shows "fp \<in> set (subset_probe ncs cols c)"
proof -
  let ?M = "complex_members Mb cols" and ?n = "length cols"
  have cx: "cx_rel ?n (sc_complex c) ?M" using rel by (simp add: sc_rel_def)
  have M: "?M fp = Some (column_ranges pcs cols)" using fp by (simp add: complex_members_def)
  have "fp \<in> set (containing (cx_per_column (sc_complex c) ! i) (column_ranges ncs cols ! i))"
    if "i < ?n" for i
  proof (rule containing_may)
    show "ci_rel (cx_per_column (sc_complex c) ! i) (\<lambda>fp. map_option (\<lambda>rs. rs ! i) (?M fp))"
      using cx that by (simp add: cx_rel_def)
  qed (use that M sub [of "cols ! i"] in \<open>auto simp: column_ranges_def column_range_of_keyed\<close>)
  moreover have "0 < ?n" "length (column_ranges ncs cols) = ?n" using cols by (simp_all add: column_ranges_def)
  ultimately have "fp \<in> set (cx_candidates (sc_complex c) (column_ranges ncs cols))"
    using cx_candidates_iff [OF cx M] by blast
  then show ?thesis by (simp add: subset_probe_def Let_def)
qed

lemma subset_probe_equality:
  assumes rel: "sc_rel cols c Mb" and fp: "Mb fp = Some \<lparr>mb_columns = cols, mb_payload = MEquality vals\<rparr>"
    and keys: "those (map (\<lambda>c. equal_key (column_range_of ncs c)) cols) = Some vals"
  shows "fp \<in> set (subset_probe ncs cols c)"
proof -
  have "map equal_key (column_ranges ncs cols) = map (\<lambda>c. equal_key (column_range_of ncs c)) cols"
    by (simp add: column_ranges_def)
  with assms show ?thesis by (simp add: subset_probe_def Let_def sc_rel_def)
qed

lemma candidates_class:
  assumes "distinct (map fst (ix_classes ix))" "map_of (ix_classes ix) cols = Some c"
    and "column_set_ok cols" "set cols \<subseteq> tc_column ` set ncs" "fp \<in> set (subset_probe ncs cols c)"
  shows "fp \<in> set (candidates ix ncs)"
proof -
  let ?new = "into_columns (classify ncs)"
  have sub: "set cols \<subseteq> set ?new" using assms(4) by (simp add: set_classify_columns)
  then have "cols \<in> set (column_set_powerset ?new)" "is_subset_of cols ?new"
    using column_set_powerset_complete [OF assms(3) classify_columns_ok]
      is_subset_of_iff [OF assms(3) classify_columns_ok] by auto
  with assms(2,5) map_of_SomeD [OF assms(2)] show ?thesis
    by (force simp: candidates_def Let_def)
qed

lemma pure_keys:
  assumes sub: "buckets_subsumed ncs pcs" and pure: "classify pcs = EqualityPure cols vals"
    and known: "\<forall>c\<in>set cols. column_range_of ncs c \<noteq> REmpty \<and>
                  \<not> list_ex (\<lambda>tc. tc_column tc = c \<and> tc_is_cast tc) ncs"
  shows "those (map (\<lambda>c. equal_key (column_range_of ncs c)) cols) = Some vals"
proof -
  note p = classify_pure [OF pure]
  have "equal_key (column_range_of ncs c) = equal_key (column_range_of pcs c)" if c: "c \<in> set cols" for c
  proof -
    from c have "c \<in> tc_column ` set pcs" using set_classify_columns [of pcs] pure by simp
    then have ne: "filter (\<lambda>tc. tc_bucket tc = (c, None)) pcs \<noteq> []"
      using p(1) by (auto simp: filter_empty_conv bare_bucket)
    from p(1) have rp: "column_range_of pcs c = column_range_build (filter (\<lambda>tc. tc_bucket tc = (c, None)) pcs)"
      by (auto simp: column_range_of_bare list_ex_iff)
    from known c have rn: "column_range_of ncs c = column_range_build (filter (\<lambda>tc. tc_bucket tc = (c, None)) ncs)"
      by (auto simp: column_range_of_bare)
    from sub ne have s: "column_range_subsumes (column_range_of pcs c) (column_range_of ncs c)"
      unfolding rp rn by (simp add: buckets_subsumed_def)
    have "equal_key (column_range_of pcs c) \<in> Some ` set vals" by (rule those_member [OF p(2) c])
    then obtain v where "column_range_of pcs c = REqual v"
      by (cases "column_range_of pcs c") auto
    with s known c show ?thesis by (cases "column_range_of ncs c") auto
  qed
  then show ?thesis using p(2) by (metis (mono_tags, lifting) map_cong)
qed

lemma candidates_complete:
  assumes rel: "ix_rel ix A" and fp: "A fp = Some pcs" and sub: "buckets_subsumed ncs pcs"
    and known: "\<And>cols vals c. classify pcs = EqualityPure cols vals \<Longrightarrow> c \<in> set cols \<Longrightarrow>
      column_range_of ncs c \<noteq> REmpty \<and> \<not> list_ex (\<lambda>tc. tc_column tc = c \<and> tc_is_cast tc) ncs"
  shows "fp \<in> set (candidates ix ncs)"
proof -
  let ?m = "membership_of pcs" and ?cols = "into_columns (classify pcs)"
  have m: "map_of (ix_membership ix) fp = Some ?m" using ix_relD(2) [OF rel] fp by simp
  obtain c where c: "map_of (ix_classes ix) ?cols = Some c" "sc_rel ?cols c (map_of (ix_membership ix))"
    using member_class [OF rel m] by (auto simp: membership_columns)
  have "fp \<in> set (subset_probe ncs ?cols c)"
  proof (cases "classify pcs")
    case (EqualityPure cols vals)
    with c m pure_keys [OF sub EqualityPure] known show ?thesis
      by (auto intro!: subset_probe_equality simp: membership_of_def)
  next
    case (Complex cols)
    with c(2) m classify_complex_columns [OF Complex] buckets_may_subsume [OF sub]
      set_classify_columns [of pcs]
    show ?thesis by (auto intro!: subset_probe_complex simp: membership_of_def)
  qed
  moreover have "set ?cols \<subseteq> tc_column ` set ncs"
    using buckets_subsumed_columns [OF sub] by (simp add: set_classify_columns)
  ultimately show ?thesis
    by (intro candidates_class [OF ix_relD(1) [OF rel] c(1) classify_columns_ok])
qed

subsection \<open>Probes return members only\<close>

lemma class_at_mem:
  assumes "ix_rel ix A" "(cols, c) \<in> set (ix_classes ix)"
  shows "sc_rel cols c (map_of (ix_membership ix))"
proof -
  have "map_of (ix_classes ix) cols = Some c"
    using map_of_Some_iff [OF ix_relD(1) [OF assms(1)]] assms(2) by blast
  with ix_relD(3) [OF assms(1), of cols] show ?thesis by (simp add: class_at_def)
qed

lemma complex_members_dom: "complex_members Mb cols fp \<noteq> None \<Longrightarrow> Mb fp \<noteq> None"
  by (auto simp: complex_members_def split: option.splits)

lemma subset_probe_sound:
  assumes rel: "sc_rel cols c Mb" and mem: "fp \<in> set (subset_probe ncs cols c)"
  shows "Mb fp \<noteq> None"
proof -
  have len: "length (column_ranges ncs cols) = length cols" by (simp add: column_ranges_def)
  have "cx_rel (length cols) (sc_complex c) (complex_members Mb cols)" using rel by (simp add: sc_rel_def)
  from cx_candidates_sound [OF this len, of fp] complex_members_dom [of Mb cols fp]
  have "fp \<in> set (cx_candidates (sc_complex c) (column_ranges ncs cols)) \<Longrightarrow> Mb fp \<noteq> None" by blast
  with mem rel show ?thesis
    by (auto simp: subset_probe_def Let_def sc_rel_def split: option.splits)
qed

lemma candidates_sound:
  assumes rel: "ix_rel ix A" and mem: "fp \<in> set (candidates ix ncs)"
  shows "A fp \<noteq> None"
proof -
  from mem obtain cols c where "(cols, c) \<in> set (ix_classes ix)" "fp \<in> set (subset_probe ncs cols c)"
    unfolding candidates_def Let_def
    by (cases "length (into_columns (classify ncs)) < 32 \<and>
          2 ^ length (into_columns (classify ncs)) \<le> length (ix_classes ix)")
      (auto dest: map_of_SomeD [OF sym] split: if_splits)
  with subset_probe_sound [OF class_at_mem [OF rel]] ix_relD(2) [OF rel] show ?thesis by fastforce
qed

subsection \<open>The point probe is complete\<close>

text \<open>What the posting lists admit for a key, exactly.\<close>

fun key_admits :: "placement \<Rightarrow> value_key \<Rightarrow> bool" where
  "key_admits (PEq k') k = (k' = k)"
| "key_admits (PInSet ks) k = (k \<in> set ks)"
| "key_admits (PRangeLower l) k = (l \<le> k)"
| "key_admits (PRangeUpper u) k = (k \<le> u)"
| "key_admits (PRangeBoth l u) k = (l \<le> k \<and> k \<le> u)"
| "key_admits POpaque k = True"

lemma containing_equal_iff:
  assumes rel: "ci_rel ci M" and fp: "M fp = Some r" and k: "try_new v = Some k"
  shows "fp \<in> set (containing ci (REqual v)) \<longleftrightarrow> key_admits (placement_of r) k"
proof -
  have two: "fp \<in> set (extend_two_sided_lit ci v v) \<longleftrightarrow>
      (\<exists>l u. l \<le> k \<and> k \<le> u \<and> placed M fp (PRangeBoth l u))"
  proof (cases "ci_range_both ci = []")
    case True
    then have "\<not> placed M fp (PRangeBoth l u)" for l u
      using ci_relD(6) [OF rel, of u fp l] by simp
    with True show ?thesis by (simp add: extend_two_sided_lit_def)
  qed (simp add: extend_two_sided_lit_def k ci_lookup [OF rel])
  show ?thesis
    using placed_known [of M fp r, OF fp]
    by (cases "placement_of r") (auto simp: containing_def k two extend_lower_covering_def
        extend_upper_covering_def ci_lookup [OF rel] ci_relD [OF rel])
qed

text \<open>
  A column is matched by the forms of a row value if they are the wildcard, or one of them is an
  equality whose key the stored range admits.
\<close>

definition forms_match :: "column_range \<Rightarrow> column_forms \<Rightarrow> bool" where
  "forms_match r forms \<longleftrightarrow>
     (RUnknown \<in> set (forms_some forms) \<and> list_all (\<lambda>k. k = None) (form_keys forms)) \<or>
     (\<exists>v k. REqual v \<in> set (forms_some forms) \<and> try_new v = Some k \<and> key_admits (placement_of r) k)"

lemma in_forms_some: "q \<in> set (forms_some forms) \<longleftrightarrow> Some q \<in> set forms"
  by (induction forms) (auto simp: forms_some_def List.map_filter_def)

lemma in_keys_some: "k \<in> set (keys_some ks) \<longleftrightarrow> Some k \<in> set ks"
  by (induction ks) (auto simp: keys_some_def List.map_filter_def)

lemma in_form_keys: "Some k \<in> set (form_keys forms) \<longleftrightarrow>
    (\<exists>v. REqual v \<in> set (forms_some forms) \<and> try_new v = Some k)"
proof
  assume "Some k \<in> set (form_keys forms)"
  then obtain slot where "slot \<in> set forms" "Option.bind slot equal_key = Some k"
    by (auto simp: form_keys_def)
  then show "\<exists>v. REqual v \<in> set (forms_some forms) \<and> try_new v = Some k"
    by (cases slot rule: option.exhaust; cases "the slot" rule: column_range.exhaust)
      (auto simp: in_forms_some)
next
  assume "\<exists>v. REqual v \<in> set (forms_some forms) \<and> try_new v = Some k"
  then show "Some k \<in> set (form_keys forms)"
    by (force simp: form_keys_def in_forms_some)
qed

lemma forms_match_containing:
  assumes rel: "ci_rel ci M" and fp: "M fp = Some r" and keyed: "keyed_range r"
    and match: "forms_match r forms"
  shows "\<exists>q\<in>set (forms_some forms). fp \<in> set (containing ci q)"
proof -
  from match consider "RUnknown \<in> set (forms_some forms)"
    | v k where "REqual v \<in> set (forms_some forms)" "try_new v = Some k" "key_admits (placement_of r) k"
    by (auto simp: forms_match_def)
  then show ?thesis
  proof cases
    case 1
    with containing_all [OF rel fp keyed] show ?thesis by (force simp: containing_def)
  next
    case 2
    with containing_equal_iff [OF rel fp] show ?thesis by blast
  qed
qed

lemma cx_point_complete:
  assumes rel: "cx_rel n cx M" and fp: "M fp = Some rs" and n: "0 < n" and q: "length qs = n"
    and match: "\<forall>i<n. keyed_range (rs ! i) \<and> forms_match (rs ! i) (qs ! i)"
  shows "fp \<in> set (cx_candidates_point cx qs)"
proof -
  from rel have len: "length (cx_per_column cx) = n" by (simp add: cx_rel_def)
  from fp cx_rel_empty_iff [OF rel] have ne: "cx_len cx \<noteq> 0" by auto
  have each: "\<exists>q\<in>set (forms_some (qs ! i)). fp \<in> set (containing (cx_per_column cx ! i) q)" if "i < n" for i
  proof (rule forms_match_containing)
    show "ci_rel (cx_per_column cx ! i) (\<lambda>fp. map_option (\<lambda>rs. rs ! i) (M fp))"
      using rel that by (simp add: cx_rel_def)
  qed (use fp match that in auto)
  show ?thesis
  proof (cases "n = 1")
    case True
    with len q obtain c f where "cx_per_column cx = [c]" "qs = [f]" by (auto simp: length_Suc_conv)
    with True ne each [of 0] show ?thesis by (simp add: cx_candidates_point_def)
  next
    case False
    with n len obtain c c' cs where cs: "cx_per_column cx = c # c' # cs"
      by (cases "cx_per_column cx" rule: list.exhaust; cases "tl (cx_per_column cx)") auto
    let ?f = "\<lambda>(c, forms). remdups (concat (map (containing c) (forms_some forms)))"
    have "\<forall>xs\<in>set (map ?f (zip (cx_per_column cx) qs)). fp \<in> set xs"
      using each len q by (auto simp: set_zip)
    moreover have "map ?f (zip (cx_per_column cx) qs) \<noteq> []" using cs n q by (cases qs) auto
    ultimately have "fp \<in> set (intersect_smallest_first (map ?f (zip (cx_per_column cx) qs)))"
      by (simp add: set_intersect_smallest_first)
    with ne cs show ?thesis by (simp add: cx_candidates_point_def)
  qed
qed

lemma in_value_key_product:
  "t \<in> set (value_key_product kss) \<longleftrightarrow> list_all2 (\<lambda>k ks. k \<in> set (keys_some ks)) t kss"
proof -
  let ?ext = "\<lambda>ks result. concat (map (\<lambda>prefix. map (\<lambda>k. prefix @ [k]) (keys_some ks)) result)"
  let ?all = "list_all2 (\<lambda>k ks. k \<in> set (keys_some ks))"
  have "t \<in> set (fold ?ext kss res) \<longleftrightarrow> (\<exists>p\<in>set res. \<exists>s. t = p @ s \<and> ?all s kss)" for res
  proof (induction kss arbitrary: res)
    case (Cons ks kss)
    have "t \<in> set (fold ?ext (ks # kss) res) \<longleftrightarrow>
        (\<exists>p\<in>set (?ext ks res). \<exists>s. t = p @ s \<and> ?all s kss)"
      using Cons.IH [of "?ext ks res"] by simp
    also have "\<dots> \<longleftrightarrow> (\<exists>p\<in>set res. \<exists>k\<in>set (keys_some ks). \<exists>s. t = p @ k # s \<and> ?all s kss)"
      by simp
    also have "\<dots> \<longleftrightarrow> (\<exists>p\<in>set res. \<exists>s. t = p @ s \<and> ?all s (ks # kss))"
      by (simp only: list_all2_Cons2) blast
    finally show ?case .
  qed simp
  from this [of "[[]]"] show ?thesis by (simp add: value_key_product_def)
qed

lemma equal_key_placement: "equal_key r = Some k \<Longrightarrow> placement_of r = PEq k"
  by (cases r) (auto simp: placement_of_def)

lemma class_probe_equality:
  assumes rel: "sc_rel cols c Mb" and fp: "Mb fp = Some \<lparr>mb_columns = cols, mb_payload = MEquality vals\<rparr>"
    and len: "length vals = length cols"
    and match: "\<forall>i<length cols. list_all (\<lambda>k. k = None) (form_keys (F (cols ! i))) \<or>
                  Some (vals ! i) \<in> set (form_keys (F (cols ! i)))"
  shows "fp \<in> set (class_probe F cols c)"
proof -
  let ?ks = "map form_keys (map F cols)"
  have post: "fp \<in> set (postings (sc_equality c) vals)" using rel fp by (simp add: sc_rel_def)
  show ?thesis
  proof (cases "list_all (list_ex (\<lambda>k. k \<noteq> None)) ?ks")
    case True
    have "vals ! i \<in> set (keys_some (form_keys (F (cols ! i))))" if i: "i < length cols" for i
    proof -
      from True i have "list_ex (\<lambda>k. k \<noteq> None) (form_keys (F (cols ! i)))" by (simp add: list_all_length)
      then have "\<not> list_all (\<lambda>k. k = None) (form_keys (F (cols ! i)))" by (auto simp: list_ex_iff list_all_iff)
      with match i show ?thesis unfolding in_keys_some by blast
    qed
    then have "list_all2 (\<lambda>k ks. k \<in> set (keys_some ks)) vals ?ks"
      using len by (simp add: list_all2_conv_all_nth)
    then have "vals \<in> set (value_key_product ?ks)" by (simp only: in_value_key_product)
    then show ?thesis
      unfolding class_probe_def Let_def set_append if_P [OF True] set_concat set_map
      using post by blast
  next
    case False
    have "tuple_matches ?ks vals"
      using match len by (auto simp: tuple_matches_def list_all_length in_keys_some)
    moreover obtain fps where "(vals, fps) \<in> set (sc_equality c)" "fp \<in> set fps"
      using post by (auto simp: postings_def dest: map_of_SomeD [OF sym] split: option.splits)
    ultimately have "fp \<in> set (concat (map (\<lambda>(tuple, fps). if tuple_matches ?ks tuple then fps else [])
        (sc_equality c)))"
      by (auto simp: comp_def intro!: bexI [of _ "(vals, fps)"])
    then show ?thesis unfolding class_probe_def Let_def set_append if_not_P [OF False] by blast
  qed
qed

lemma class_probe_complex:
  assumes rel: "sc_rel cols c Mb" and fp: "Mb fp = Some \<lparr>mb_columns = cols, mb_payload = MComplex (column_ranges pcs cols)\<rparr>"
    and cols: "cols \<noteq> []" and match: "\<forall>c\<in>set cols. forms_match (column_range_of pcs c) (F c)"
  shows "fp \<in> set (class_probe F cols c)"
proof -
  have cx: "cx_rel (length cols) (sc_complex c) (complex_members Mb cols)" using rel by (simp add: sc_rel_def)
  have "complex_members Mb cols fp = Some (column_ranges pcs cols)" using fp by (simp add: complex_members_def)
  from cx_point_complete [OF cx this, of "map F cols"] cols match
  have "fp \<in> set (cx_candidates_point (sc_complex c) (map F cols))"
    by (auto simp: column_ranges_def column_range_of_keyed)
  then show ?thesis by (simp add: class_probe_def Let_def)
qed

lemma candidates_point_complete:
  assumes rel: "ix_rel ix A" and fp: "A fp = Some pcs"
    and match: "\<forall>c\<in>tc_column ` set pcs. forms_match (column_range_of pcs c) (F c)"
  shows "fp \<in> set (candidates_point_into ix F)"
proof -
  let ?m = "membership_of pcs" and ?cols = "into_columns (classify pcs)"
  have m: "map_of (ix_membership ix) fp = Some ?m" using ix_relD(2) [OF rel] fp by simp
  obtain c where c: "map_of (ix_classes ix) ?cols = Some c" "sc_rel ?cols c (map_of (ix_membership ix))"
    using member_class [OF rel m] by (auto simp: membership_columns)
  have "fp \<in> set (class_probe F ?cols c)"
  proof (cases "classify pcs")
    case (EqualityPure cols vals)
    note keys = classify_pure(2) [OF EqualityPure]
    then have map: "map (\<lambda>c. equal_key (column_range_of pcs c)) cols = map Some vals"
      by (simp add: those_Some_iff)
    then have len: "length vals = length cols" by (metis length_map)
    have "list_all (\<lambda>k. k = None) (form_keys (F (cols ! i))) \<or>
        Some (vals ! i) \<in> set (form_keys (F (cols ! i)))" if i: "i < length cols" for i
    proof -
      have "equal_key (column_range_of pcs (cols ! i)) = Some (vals ! i)"
        using arg_cong [OF map, of "\<lambda>xs. xs ! i"] i len by simp
      then have p: "placement_of (column_range_of pcs (cols ! i)) = PEq (vals ! i)"
        by (rule equal_key_placement)
      have "cols ! i \<in> tc_column ` set pcs"
        using i set_classify_columns [of pcs] EqualityPure nth_mem [OF i] by simp
      with match p show ?thesis by (auto simp: forms_match_def in_form_keys)
    qed
    with EqualityPure c(2) m len show ?thesis
      by (auto intro!: class_probe_equality simp: membership_of_def)
  next
    case (Complex cols)
    with c(2) m classify_complex_columns [OF Complex] match set_classify_columns [of pcs]
    show ?thesis by (auto intro!: class_probe_complex simp: membership_of_def)
  qed
  with map_of_SomeD [OF c(1)] show ?thesis
    by (auto simp: candidates_point_into_def intro!: bexI [of _ "(?cols, c)"])
qed

subsection \<open>Integer rows\<close>

text \<open>
  The cast of an integer to a float may round, but it is monotone: a row value that a range
  accepts is never separated from it by the keys.
\<close>

lemma int_key_admits:
  assumes "\<forall>l\<in>range_lits r. is_int_lit l" "range_sem num_dl num_lt r (Some (Num (Fin (of_int n))))"
  shows "key_admits (placement_of r) (VkNum (i64_as_f64 n))"
proof (cases r)
  case (RInSet s)
  then obtain m where "LInteger m \<in> set s" "m = n" using assms by (auto simp: is_int_lit_iff)
  then have "try_new (LInteger n) \<in> Some ` set ks" if "those (map try_new s) = Some ks" for ks
    using those_member [OF that] by blast
  then show ?thesis by (auto simp: RInSet placement_of_def split: option.splits)
next
  case (RRange lo up ne)
  have low: "\<exists>m. rb_value b = LInteger m \<and> m \<le> n" if "lo = Some b" for b
    using assms that by (auto simp: RRange is_int_lit_iff bound_sem_def less_f64_def)
  have upp: "\<exists>m. rb_value b = LInteger m \<and> n \<le> m" if "up = Some b" for b
    using assms that by (auto simp: RRange is_int_lit_iff bound_sem_def less_f64_def)
  show ?thesis
    using low upp i64_as_f64_mono by (cases lo; cases up) (fastforce simp: RRange placement_of_def)+
qed (use assms in \<open>auto simp: placement_of_def is_int_lit_iff\<close>)

lemma int_row_forms_match:
  assumes lits: "\<forall>tc\<in>set cs. \<forall>l\<in>tc_lits tc. is_int_lit l"
    and row: "\<forall>tc\<in>set cs. tc_column tc = c \<longrightarrow> tc_sem num_dl num_lt tc (Some (Num (Fin (of_int n))))"
    and forms: "Some (REqual (LFloat (i64_as_f64 n))) \<in> set forms"
  shows "forms_match (column_range_of cs c) forms"
proof -
  have "key_admits (placement_of (column_range_of cs c)) (VkNum (i64_as_f64 n))"
  proof (cases "column_range_of cs c = RUnknown")
    case True
    then show ?thesis by (simp add: placement_of_def)
  next
    case False
    let ?cs = "filter (\<lambda>tc. tc_column tc = c \<and> \<not> tc_is_cast tc) cs"
    from False have eq: "column_range_of cs c = column_range_build ?cs"
      by (auto simp: column_range_of_def split: if_splits)
    have li: "\<forall>tc\<in>set ?cs. \<forall>l\<in>tc_lits tc. is_int_lit l" using lits by auto
    note known = False [unfolded eq]
    show ?thesis
      unfolding eq
    proof (rule int_key_admits)
      show "\<forall>l\<in>range_lits (column_range_build ?cs). is_int_lit l"
        by (rule int_col.column_range_build_lits [OF li known])
      show "range_sem num_dl num_lt (column_range_build ?cs) (Some (Num (Fin (of_int n))))"
        using row int_col.column_range_build_exact [OF li known] by auto
    qed
  qed
  with forms show ?thesis by (force simp: forms_match_def in_forms_some)
qed

subsection \<open>Stores of entries by id\<close>

text \<open>
  The interface the writer relies on: insertion replaces the entry of an id, removal drops it, and
  nothing else changes. An operation is an id with the new constraints, or with \<open>None\<close> to remove.
\<close>

locale id_store =
  fixes rel :: "'s \<Rightarrow> ('k \<Rightarrow> 'c option) \<Rightarrow> bool"
    and empty :: 's
    and ins :: "'k \<Rightarrow> 'c \<Rightarrow> 's \<Rightarrow> 's"
    and del :: "'k \<Rightarrow> 's \<Rightarrow> 's"
  assumes rel_empty: "rel empty (\<lambda>_. None)"
    and rel_ins: "rel s A \<Longrightarrow> rel (ins k c s) (A(k \<mapsto> c))"
    and rel_del: "rel s A \<Longrightarrow> rel (del k s) (A(k := None))"
begin

lemma rel_run_from:
  "rel s A \<Longrightarrow>
   rel (fold (\<lambda>(k, x). case x of Some c \<Rightarrow> ins k c | None \<Rightarrow> del k) ops s)
     (fold (\<lambda>(k, x) A. A(k := x)) ops A)"
proof (induction ops arbitrary: s A)
  case (Cons op ops)
  show ?case
  proof (cases "snd op")
    case None
    with Cons.IH [OF rel_del [OF Cons.prems]] show ?thesis by (cases op) simp
  next
    case (Some c)
    with Cons.IH [OF rel_ins [OF Cons.prems]] show ?thesis by (cases op) simp
  qed
qed simp

lemma rel_run:
  "rel (fold (\<lambda>(k, x). case x of Some c \<Rightarrow> ins k c | None \<Rightarrow> del k) ops empty)
     (fold (\<lambda>(k, x) A. A(k := x)) ops (\<lambda>_. None))"
  by (rule rel_run_from [OF rel_empty])

end

interpretation ixs: id_store ix_rel ix_default ix_insert ix_remove
  by unfold_locales (rule ix_rel_default, erule ix_insert_rel, erule ix_remove_rel)

type_synonym 'k index_op = "'k \<times> table_constraint list option"

definition ix_run :: "'k index_op list \<Rightarrow> 'k constraint_index" where
  "ix_run ops = fold (\<lambda>(k, x). case x of Some c \<Rightarrow> ix_insert k c | None \<Rightarrow> ix_remove k) ops ix_default"

definition registered :: "'k index_op list \<Rightarrow> 'k \<Rightarrow> table_constraint list option" where
  "registered ops = fold (\<lambda>(k, x) A. A(k := x)) ops (\<lambda>_. None)"

lemma ix_run_rel: "ix_rel (ix_run ops) (registered ops)"
  unfolding ix_run_def registered_def by (rule ixs.rel_run)

lemma ix_rel_empty:
  assumes "ix_rel ix (\<lambda>_. None)"
  shows "ix_classes ix = []"
proof (rule ccontr)
  assume "ix_classes ix \<noteq> []"
  then obtain cols c where mem: "(cols, c) \<in> set (ix_classes ix)" by (cases "ix_classes ix") auto
  have none: "map_of (ix_membership ix) = (\<lambda>_. None)" using ix_relD(2) [OF assms] by simp
  from class_at_mem [OF assms mem]
  have rel: "sc_rel cols c (\<lambda>_. None)" by (simp add: none)
  have "sc_equality c = []"
  proof (rule ccontr)
    assume "sc_equality c \<noteq> []"
    then have "map_of (sc_equality c) (fst (hd (sc_equality c))) = Some (snd (hd (sc_equality c)))"
      by (cases "sc_equality c") auto
    then obtain k vs where kv: "map_of (sc_equality c) k = Some vs" by blast
    then obtain fp where "fp \<in> set (postings (sc_equality c) k)"
      using rel by (cases vs) (auto simp: sc_rel_def postings_def)
    with rel show False by (simp add: sc_rel_def)
  qed
  moreover have "cx_len (sc_complex c) = 0"
    using rel by (simp add: sc_rel_def cx_rel_def complex_members_def [abs_def])
  ultimately show False using ix_relD(4) [OF assms mem] by (simp add: sc_is_empty_def)
qed

subsection \<open>Properties\<close>

text \<open>
  C14. The index never misses a true subsumer: after any sequence of insertions and removals, if a
  registered query's constraints on a table subsume those of a new query, its id is among the
  candidates the index returns for the new query. For an entry of pure equalities this needs that
  the new query's constraints on the entry's columns are not contradictory and compare no cast of
  them; for other entries it needs nothing.
\<close>

theorem candidates_never_miss:
  assumes "registered ops fp = Some (table_cs cached t)"
    and "table_constraints_subsumed new cached t"
    and "\<forall>cols keys. classify (table_cs cached t) = EqualityPure cols keys \<longrightarrow>
      (\<forall>c\<in>set cols. column_range_of (table_cs new t) c \<noteq> REmpty \<and>
         \<not> list_ex (\<lambda>tc. tc_column tc = c \<and> tc_is_cast tc) (table_cs new t))"
  shows "fp \<in> set (candidates (ix_run ops) (table_cs new t))"
  using assms(3) by (intro candidates_complete [OF ix_run_rel assms(1) table_subsumed_buckets [OF assms(2)]]) blast

definition sample_constraints :: "binary_op \<Rightarrow> int \<Rightarrow> query_constraints" where
  "sample_constraints op n =
     query_constraints_default
       \<lparr>qc_table_constraints := [(''t'', [Comparison ''x'' op (LInteger n)])],
        qc_where_analysis_complete := True\<rparr>"

lemma sample_table_cs: "table_cs (sample_constraints op n) ''t'' = [Comparison ''x'' op (LInteger n)]"
  by (simp add: table_cs_def sample_constraints_def)

theorem candidates_never_miss_witness:
  "(7 :: nat) \<in> set (candidates
     (ix_run [(7, Some [Comparison ''x'' GreaterThan (LInteger 3)]), (8, Some []), (8, None)])
     [Comparison ''x'' Equal (LInteger 5)])"
proof -
  have "table_constraints_subsumed (sample_constraints Equal 5) (sample_constraints GreaterThan 3) ''t''"
    by (simp add: table_constraints_subsumed_def sample_constraints_def constraints_group_by_column_def
        entry_push_def entry_update_def range_simps)
  moreover have "column_range_of [Comparison ''x'' Equal (LInteger 5)] c \<noteq> REmpty" for c
    by (cases "c = ''x''") (auto simp: column_range_of_def range_simps)
  ultimately show ?thesis
    using candidates_never_miss
      [of "[(7 :: nat, Some [Comparison ''x'' GreaterThan (LInteger 3)]), (8, Some []), (8, None)]" 7
          "sample_constraints GreaterThan 3" "''t''" "sample_constraints Equal 5"]
    by (simp add: sample_table_cs registered_def)
qed

text \<open>
  C15. A region probe returns only ids that are registered when it runs: an id that was removed,
  or never inserted, is not a candidate.
\<close>

theorem candidates_registered:
  "set (candidates (ix_run ops) ncs) \<subseteq> dom (registered ops)"
  using candidates_sound [OF ix_run_rel] by (auto simp: domIff)

text \<open>
  C16. The point probe never under-returns on integer rows: after any sequence of insertions and
  removals, if a row satisfies all constraints of a registered entry over integer literals, and
  the probe is given the float form of every column value, the entry is returned. The cast of
  64-bit integers to floats may round both sides; it cannot lose the entry.
\<close>

theorem point_probe_integer_rows:
  assumes "registered ops fp = Some cs"
    and "\<forall>tc\<in>set cs. \<forall>l\<in>tc_lits tc. is_int_lit l"
    and "\<forall>tc\<in>set cs. tc_sem num_dl num_lt tc (Some (Num (Fin (of_int (row (tc_column tc))))))"
    and "\<forall>c. Some (REqual (LFloat (i64_as_f64 (row c)))) \<in> set (forms c)"
  shows "fp \<in> set (candidates_point_into (ix_run ops) forms)"
  using assms(2-4)
  by (intro candidates_point_complete [OF ix_run_rel assms(1)])
    (auto intro!: int_row_forms_match)

theorem point_probe_integer_rows_witness:
  "(7 :: nat) \<in> set (candidates_point_into
     (ix_run [(7, Some [Comparison ''x'' LessThanOrEqual (LInteger 9007199254740993)])])
     (\<lambda>_. [None, Some (REqual (LFloat (i64_as_f64 9007199254740993))), None]))"
  using point_probe_integer_rows
    [of "[(7 :: nat, Some [Comparison ''x'' LessThanOrEqual (LInteger 9007199254740993)])]" 7
        "[Comparison ''x'' LessThanOrEqual (LInteger 9007199254740993)]" "\<lambda>_. 9007199254740993"
        "\<lambda>_. [None, Some (REqual (LFloat (i64_as_f64 9007199254740993))), None]"]
  by (simp add: registered_def cmp_sem_def)

text \<open>
  C17. Nothing leaks: when every id that was inserted has been removed again, the index has no
  class left, whatever the order of the operations and of re-insertions under the same id.
\<close>

theorem index_empty_after_removals:
  assumes "registered ops = (\<lambda>_. None)"
  shows "ix_classes (ix_run ops) = []"
  using ix_run_rel [of ops] by (simp add: assms ix_rel_empty)

theorem index_empty_after_removals_witness:
  "ix_classes (ix_run [(7 :: nat, Some [Comparison ''x'' Equal (LInteger 5)]), (7, Some []), (7, None)]) = []"
  using index_empty_after_removals
    [of "[(7 :: nat, Some [Comparison ''x'' Equal (LInteger 5)]), (7, Some []), (7, None)]"]
  by (simp add: registered_def)

text \<open>
  The two conditions of the first property are needed: the probe of an equality bucket ignores a
  class on which the new query adds a cast comparison, or is contradictory, although the precise
  test would accept the entry.
\<close>

lemma pure_entry_missed_under_cast:
  "buckets_subsumed
     [Comparison ''x'' Equal (LInteger 5), CastComparison ''x'' CText Equal (LString ''5'')]
     [Comparison ''x'' Equal (LInteger 5)] \<and>
   candidates (ix_run [(7 :: nat, Some [Comparison ''x'' Equal (LInteger 5)])])
     [Comparison ''x'' Equal (LInteger 5), CastComparison ''x'' CText Equal (LString ''5'')] = []"
proof
  show "buckets_subsumed
     [Comparison ''x'' Equal (LInteger 5), CastComparison ''x'' CText Equal (LString ''5'')]
     [Comparison ''x'' Equal (LInteger 5)]"
    by (auto simp: buckets_subsumed_def range_simps)
qed code_simp

end
