(* ===== verification/Row_Values.thy ===== *)
theory Row_Values
  imports Constraint_Index
begin

text \<open>
  Rows of a table as change data capture delivers them, and the keys the constraint index is
  probed with.

  A row is a list of wire texts, one per column in table order, \<open>None\<close> for SQL \<open>NULL\<close>. The
  table metadata (\<^verbatim>\<open>src/catalog.rs\<close>) gives the position of a column. \<open>parse_f64\<close> is
  \<^verbatim>\<open>str::parse::<f64>\<close>: the decimal text is read as an exact rational and rounded to the
  nearest double, ties to even, with gradual underflow and overflow to infinity.
  \<open>row_value_forms\<close> (\<^verbatim>\<open>src/query/constraint_index/point.rs\<close>) turns the text of a column into
  the forms of the point probe.

  The lemmas show that decimal text is read back exactly: \<open>parse_i64\<close> inverts the decimal
  rendering of every 64-bit integer, and \<open>parse_f64\<close> of that text is the float the index keys
  the integer by.
\<close>

subsection \<open>Table metadata\<close>

record column_store =
  cst_sorted :: "column_metadata list"
  cst_by_name :: "(string \<times> nat) list"

definition column_store_new :: "column_metadata list \<Rightarrow> column_store" where
  "column_store_new columns =
     (let sorted = sort_key cm_position columns
      in \<lparr>cst_sorted = sorted,
          cst_by_name = fold (\<lambda>(i, c). AList.update (cm_name c) i) (List.enumerate 0 sorted) []\<rparr>)"

definition list_get :: "'a list \<Rightarrow> nat \<Rightarrow> 'a option" where
  "list_get xs i = (if i < length xs then Some (xs ! i) else None)"

definition cst_get :: "column_store \<Rightarrow> string \<Rightarrow> column_metadata option" where
  "cst_get store name =
     (case map_of (cst_by_name store) name of
        None \<Rightarrow> None
      | Some idx \<Rightarrow> list_get (cst_sorted store) idx)"

record table_metadata =
  tm_relation_oid :: oid
  tm_name :: string
  tm_schema :: string
  tm_primary_key_columns :: "string list"
  tm_columns :: column_store
  tm_replica_identity_full :: bool

text \<open>\<^verbatim>\<open>ColumnPosition::index\<close>: positions are 1-based, and the subtraction saturates.\<close>

definition cm_index :: "column_metadata \<Rightarrow> nat" where
  "cm_index c = cm_position c - 1"

definition from_attnum :: "int \<Rightarrow> nat option" where
  "from_attnum attnum = (if 1 \<le> attnum \<and> attnum < 2 ^ 15 then Some (nat attnum) else None)"

definition from_index :: "nat \<Rightarrow> nat option" where
  "from_index index = from_attnum (int index + 1)"

type_synonym row_data = "string option list"

subsection \<open>Reading doubles\<close>

datatype float_text = FNaN | FNum f64

definition pow2 :: "int \<Rightarrow> rat" where
  "pow2 e = (if 0 \<le> e then 2 ^ nat e else 1 / 2 ^ nat (- e))"

definition rat_round_even :: "rat \<Rightarrow> int" where
  "rat_round_even x =
     (let f = \<lfloor>x\<rfloor>; r = x - of_int f
      in if 1 / 2 < r \<or> (r = 1 / 2 \<and> odd f) then f + 1 else f)"

text \<open>The exponent of the leading bit of a positive rational.\<close>

definition rat_exponent :: "rat \<Rightarrow> int" where
  "rat_exponent q =
     (let (n, d) = quotient_of q;
          k = int (bit_len (nat n)) - int (bit_len (nat d))
      in if pow2 k \<le> q then k else k - 1)"

definition f64_round_pos :: "rat \<Rightarrow> f64" where
  "f64_round_pos q =
     (let u = max (rat_exponent q - 52) (- 1074);
          r = of_int (rat_round_even (q / pow2 u)) * pow2 u
      in if pow2 1024 \<le> r then PosInf else Fin r)"

fun f64_neg :: "f64 \<Rightarrow> f64" where
  "f64_neg NegInf = PosInf"
| "f64_neg PosInf = NegInf"
| "f64_neg (Fin r) = Fin (- r)"

definition f64_round :: "rat \<Rightarrow> f64" where
  "f64_round q =
     (if q = 0 then Fin 0 else if q < 0 then f64_neg (f64_round_pos (- q)) else f64_round_pos q)"

definition sign_split :: "string \<Rightarrow> bool \<times> string" where
  "sign_split s =
     (case s of
        c # r \<Rightarrow> if c = CHR ''-'' then (True, r) else if c = CHR ''+'' then (False, r) else (False, s)
      | [] \<Rightarrow> (False, []))"

text \<open>The exponent part after the mantissa; \<open>None\<close> is a parse error.\<close>

definition parse_exponent :: "string \<Rightarrow> int option" where
  "parse_exponent s =
     (case s of
        [] \<Rightarrow> Some 0
      | c # r \<Rightarrow>
          if c = CHR ''e'' \<or> c = CHR ''E'' then
            (let (neg, ds) = sign_split r
             in if ds \<noteq> [] \<and> list_all is_digit ds
                then Some (if neg then - digits_val ds else digits_val ds) else None)
          else None)"

definition decimal_value :: "string \<Rightarrow> string \<Rightarrow> int \<Rightarrow> rat" where
  "decimal_value ip fp e =
     (let m = of_int (digits_val (ip @ fp)); k = e - int (length fp)
      in if 0 \<le> k then m * 10 ^ nat k else m / 10 ^ nat (- k))"

definition parse_mantissa :: "string \<Rightarrow> (string \<times> string) \<times> string" where
  "parse_mantissa s =
     (let ip = takeWhile is_digit s; rest = dropWhile is_digit s
      in case rest of
           c # t \<Rightarrow>
             if c = CHR ''.'' then ((ip, takeWhile is_digit t), dropWhile is_digit t)
             else ((ip, []), rest)
         | [] \<Rightarrow> ((ip, []), []))"

definition parse_number :: "bool \<Rightarrow> string \<Rightarrow> float_text option" where
  "parse_number neg s =
     (let ((ip, fp), rest) = parse_mantissa s
      in if ip = [] \<and> fp = [] then None
         else (case parse_exponent rest of
                 None \<Rightarrow> None
               | Some e \<Rightarrow>
                   (let r = f64_round (decimal_value ip fp e)
                    in Some (FNum (if neg then f64_neg r else r)))))"

definition parse_f64 :: "string \<Rightarrow> float_text option" where
  "parse_f64 s =
     (let (neg, r) = sign_split s
      in if eq_ignore_ascii_case r ''inf'' \<or> eq_ignore_ascii_case r ''infinity''
         then Some (FNum (if neg then NegInf else PosInf))
         else if eq_ignore_ascii_case r ''nan'' then Some FNaN
         else parse_number neg r)"

subsection \<open>The forms of a row value\<close>

definition bool_wire_text_parse :: "string \<Rightarrow> bool option" where
  "bool_wire_text_parse t =
     (if t = ''t'' \<or> t = ''true'' then Some True
      else if t = ''f'' \<or> t = ''false'' then Some False else None)"

text \<open>\<^verbatim>\<open>NotNan::new\<close> on the parsed float.\<close>

fun not_nan :: "float_text \<Rightarrow> f64 option" where
  "not_nan FNaN = None"
| "not_nan (FNum f) = Some f"

definition row_value_forms :: "table_metadata \<Rightarrow> row_data \<Rightarrow> string \<Rightarrow> column_forms" where
  "row_value_forms table_metadata row_data column =
     (case cst_get (tm_columns table_metadata) column of
        None \<Rightarrow> [Some RUnknown, None, None]
      | Some meta \<Rightarrow>
          (case list_get row_data (cm_index meta) of
             Some (Some t) \<Rightarrow>
               [Some (REqual (LString t)),
                map_option (\<lambda>n. REqual (LFloat n)) (Option.bind (parse_f64 t) not_nan),
                map_option (\<lambda>b. REqual (LBoolean b)) (bool_wire_text_parse t)]
           | _ \<Rightarrow> [Some RUnknown, None, None]))"

subsection \<open>Decimal text of integers\<close>

fun nat_text :: "nat \<Rightarrow> string" where
  "nat_text n =
     (if n < 10 then [char_of (48 + n)] else nat_text (n div 10) @ [char_of (48 + n mod 10)])"

declare nat_text.simps [simp del]

definition int_text :: "int \<Rightarrow> string" where
  "int_text n = (if n < 0 then CHR ''-'' # nat_text (nat (- n)) else nat_text (nat n))"

lemma of_char_digit: "n < 10 \<Longrightarrow> (of_char (char_of (48 + n) :: char) :: nat) = 48 + n"
  by simp

lemma digit_char [simp]:
  assumes "n < 10"
  shows "is_digit (char_of (48 + n))" "digit_val (char_of (48 + n)) = int n"
  using assms by (simp_all add: is_digit_def digit_val_def of_char_digit)

lemma digits_val_append: "digits_val (ds @ [c]) = 10 * digits_val ds + digit_val c"
  by (simp add: digits_val_def)

lemma nat_text_digits: "list_all is_digit (nat_text n)"
  by (induction n rule: nat_text.induct) (subst nat_text.simps, auto)

lemma nat_text_value: "digits_val (nat_text n) = int n"
proof (induction n rule: nat_text.induct)
  case (1 n)
  show ?case
  proof (cases "n < 10")
    case True
    then show ?thesis by (subst nat_text.simps) (simp add: digits_val_def)
  next
    case False
    with 1 have "digits_val (nat_text (n div 10)) = int (n div 10)" by simp
    with False show ?thesis by (subst nat_text.simps) (simp add: digits_val_append zdiv_int zmod_int)
  qed
qed

lemma nat_text_nonempty [simp]: "nat_text n \<noteq> []"
  by (subst nat_text.simps) simp

lemma not_sign: "is_digit c \<Longrightarrow> c \<noteq> CHR ''-'' \<and> c \<noteq> CHR ''+''"
  by (auto simp: is_digit_def)

lemma sign_split_digits: "list_all is_digit ds \<Longrightarrow> sign_split ds = (False, ds)"
  by (cases ds) (auto simp: sign_split_def dest: not_sign)

lemma sign_split_text: "sign_split (int_text n) = (n < 0, nat_text (nat \<bar>n\<bar>))"
  using sign_split_digits [OF nat_text_digits] by (simp add: int_text_def) (simp add: sign_split_def)

lemma parse_i64_sign_split:
  "parse_i64 s =
     (let (neg, ds) = sign_split s; n = (if neg then - digits_val ds else digits_val ds)
      in if ds \<noteq> [] \<and> list_all is_digit ds \<and> i64_range n then Some n else None)"
  by (simp add: parse_i64_def sign_split_def)

lemma parse_i64_text: "i64_range n \<Longrightarrow> parse_i64 (int_text n) = Some n"
  by (simp add: parse_i64_sign_split sign_split_text nat_text_value nat_text_digits Let_def)

subsection \<open>Integers read as doubles\<close>

lemma pow2_nonneg: "pow2 (int s) = 2 ^ s"
  by (simp add: pow2_def)

lemma pow2_neg: "pow2 (- int s) = 1 / 2 ^ s"
  by (cases "s = 0") (simp_all add: pow2_def)

lemma rat_round_even_int [simp]: "rat_round_even (of_int n) = n"
  by (simp add: rat_round_even_def)

lemma rat_round_even_div:
  "rat_round_even (of_nat m / 2 ^ s) = int (round_half_even s m)"
proof -
  let ?q = "m div 2 ^ s" and ?r = "m mod 2 ^ s"
  have m: "of_nat m = (of_nat ?q * 2 ^ s + of_nat ?r :: rat)"
    by (metis (mono_tags) div_mult_mod_eq of_nat_add of_nat_mult of_nat_numeral of_nat_power)
  then have x: "of_nat m / 2 ^ s = (of_nat ?q + of_nat ?r / 2 ^ s :: rat)"
    by (simp add: field_simps)
  have r: "of_nat ?r < (2 ^ s :: rat)"
    by (metis mod_less_divisor of_nat_less_iff of_nat_numeral of_nat_power pos2 zero_less_power)
  have f: "\<lfloor>of_nat m / 2 ^ s :: rat\<rfloor> = int ?q"
    unfolding x using r by (intro floor_unique) (auto simp: field_simps)
  have lt: "1 / 2 < (of_nat ?r / 2 ^ s :: rat) \<longleftrightarrow> 2 ^ s < 2 * ?r"
  proof -
    have "1 / 2 < (of_nat ?r / 2 ^ s :: rat) \<longleftrightarrow> (2 ^ s :: rat) < 2 * of_nat ?r" by (simp add: field_simps)
    also have "\<dots> \<longleftrightarrow> (of_nat (2 ^ s) :: rat) < of_nat (2 * ?r)" by simp
    finally show ?thesis by (simp only: of_nat_less_iff)
  qed
  have eq: "(of_nat ?r / 2 ^ s :: rat) = 1 / 2 \<longleftrightarrow> 2 * ?r = 2 ^ s"
  proof -
    have "(of_nat ?r / 2 ^ s :: rat) = 1 / 2 \<longleftrightarrow> 2 * of_nat ?r = (2 ^ s :: rat)" by (auto simp: field_simps)
    also have "\<dots> \<longleftrightarrow> (of_nat (2 * ?r) :: rat) = of_nat (2 ^ s)" by simp
    finally show ?thesis by (simp only: of_nat_eq_iff)
  qed
  show ?thesis
    unfolding rat_round_even_def Let_def f round_half_even_def
    using lt eq by (simp add: x)
qed

lemma bit_len_pos: "0 < m \<Longrightarrow> 0 < bit_len m"
  by (subst bit_len.simps) simp

lemma rat_exponent_nat:
  assumes "0 < m"
  shows "rat_exponent (of_nat m) = int (bit_len m) - 1"
proof -
  have "quotient_of (of_nat m) = (int m, 1)"
    using quotient_of_int [of "int m"] by simp
  moreover have "pow2 (int (bit_len m) - 1) = of_nat (2 ^ (bit_len m - 1))"
    using pow2_nonneg [of "bit_len m - 1"] bit_len_pos [OF assms] by (simp add: of_nat_diff)
  moreover have "(of_nat (2 ^ (bit_len m - 1)) :: rat) \<le> of_nat m"
    using bit_len_lower [OF assms] by (simp only: of_nat_le_iff)
  moreover have "bit_len 1 = 1" by (simp add: bit_len.simps)
  ultimately show ?thesis by (simp add: rat_exponent_def)
qed

lemma f64_round_pos_nat:
  assumes "0 < m" "bit_len m \<le> 64"
  shows "f64_round_pos (of_nat m) = Fin (of_nat (f64_round_nat m))"
proof -
  let ?u = "int (bit_len m) - 53"
  have u: "max (rat_exponent (of_nat m) - 52) (- 1074) = ?u"
    using rat_exponent_nat [OF assms(1)] by simp
  have r: "of_int (rat_round_even (of_nat m / pow2 ?u)) * pow2 ?u = (of_nat (f64_round_nat m) :: rat)"
  proof (cases "53 \<le> bit_len m")
    case True
    then have "?u = int (bit_len m - 53)" by simp
    then show ?thesis
      by (simp only: pow2_nonneg rat_round_even_div f64_round_nat_def Let_def) simp
  next
    case False
    let ?s = "53 - bit_len m"
    from False have "?u = - int ?s" by simp
    then have p: "pow2 ?u = 1 / 2 ^ ?s" by (simp only: pow2_neg)
    have "of_nat m / pow2 ?u = of_int (int m * 2 ^ ?s)" by (simp add: p)
    then have "rat_round_even (of_nat m / pow2 ?u) = int m * 2 ^ ?s" by (simp only: rat_round_even_int)
    then show ?thesis using False by (simp add: p f64_round_nat_def)
  qed
  have "f64_round_nat m \<le> 2 ^ max 53 (bit_len m)" by (rule f64_round_nat_upper)
  also have "\<dots> \<le> 2 ^ 64" using assms(2) by (intro power_increasing) auto
  also have "\<dots> < 2 ^ 1024" by (rule power_strict_increasing) auto
  finally have "(of_nat (f64_round_nat m) :: rat) < of_nat (2 ^ 1024)" by (simp only: of_nat_less_iff)
  then have "\<not> pow2 1024 \<le> (of_nat (f64_round_nat m) :: rat)" using pow2_nonneg [of 1024] by simp
  then show ?thesis unfolding f64_round_pos_def Let_def u r by simp
qed

lemma bit_len_le: "m < 2 ^ k \<Longrightarrow> bit_len m \<le> k"
proof (cases "m = 0")
  case False
  assume "m < 2 ^ k"
  with False bit_len_lower [of m] have "2 ^ (bit_len m - 1) < (2 :: nat) ^ k" by linarith
  then have "bit_len m - 1 < k" by (rule power_less_imp_less_exp [rotated]) simp
  then show ?thesis by linarith
qed simp

lemma f64_round_nat_text:
  assumes "m < 2 ^ 64"
  shows "f64_round (of_nat m) = Fin (of_nat (f64_round_nat m))"
proof (cases "m = 0")
  case True
  then show ?thesis by (simp add: f64_round_def f64_round_nat_def)
next
  case False
  with f64_round_pos_nat [of m] bit_len_le [OF assms] show ?thesis by (simp add: f64_round_def)
qed

lemma not_letter: "is_digit c \<Longrightarrow> to_ascii_lower c = c"
  by (auto simp: is_digit_def to_ascii_lower_def)

lemma digits_not_word:
  assumes "list_all is_digit ds" "ds \<noteq> []"
  shows "\<not> eq_ignore_ascii_case ds ''inf''" "\<not> eq_ignore_ascii_case ds ''infinity''"
    "\<not> eq_ignore_ascii_case ds ''nan''"
  using assms
  by (cases ds; auto simp: eq_ignore_ascii_case_def not_letter; auto simp: is_digit_def to_ascii_lower_def)+

lemma parse_number_digits:
  assumes "list_all is_digit ds" "ds \<noteq> []"
  shows "parse_number neg ds =
    Some (FNum (if neg then f64_neg (f64_round (of_int (digits_val ds))) else f64_round (of_int (digits_val ds))))"
proof -
  have t: "takeWhile is_digit ds = ds" and d: "dropWhile is_digit ds = []"
    using assms(1) by (simp_all add: list_all_iff)
  have "parse_mantissa ds = ((ds, []), [])" unfolding parse_mantissa_def Let_def t d by simp
  then show ?thesis using assms(2) by (simp add: parse_number_def parse_exponent_def decimal_value_def)
qed

lemma digits_val_nonneg:
  assumes "list_all is_digit ds"
  shows "0 \<le> digits_val ds"
proof -
  have "0 \<le> n \<Longrightarrow> 0 \<le> foldl (\<lambda>n c. 10 * n + digit_val c) n ds" for n
    using assms
    by (induction ds arbitrary: n) (auto simp: is_digit_def digit_val_def)
  then show ?thesis by (simp add: digits_val_def)
qed

lemma parse_f64_of_i64:
  assumes "parse_i64 t = Some n"
  shows "parse_f64 t = Some (FNum (i64_as_f64 n))"
proof -
  obtain neg ds where split: "sign_split t = (neg, ds)" by (cases "sign_split t")
  with assms have ds: "list_all is_digit ds" "ds \<noteq> []"
    and n: "n = (if neg then - digits_val ds else digits_val ds)" "i64_range n"
    by (auto simp: parse_i64_sign_split Let_def split: if_splits)
  note pos = digits_val_nonneg [OF ds(1)]
  define m where "m = nat (digits_val ds)"
  have v: "digits_val ds = int m" using pos by (simp add: m_def)
  have m: "m < 2 ^ 64" using n v by (auto simp: i64_range_def i64_min_def i64_max_def split: if_splits)
  have "parse_f64 t = parse_number neg ds"
    using digits_not_word [OF ds] by (simp add: parse_f64_def split)
  also have "\<dots> = Some (FNum (i64_as_f64 n))"
    unfolding parse_number_digits [OF ds] n(1) v
    using f64_round_nat_text [OF m] by (cases "neg \<and> m \<noteq> 0") (auto simp: i64_as_f64_def f64_round_nat_def)
  finally show ?thesis .
qed

lemma parse_f64_text: "i64_range n \<Longrightarrow> parse_f64 (int_text n) = Some (FNum (i64_as_f64 n))"
  by (rule parse_f64_of_i64 [OF parse_i64_text])

end
