(* ===== verification/Extract.thy ===== *)
theory Extract
  imports Subsumption
begin

text \<open>
  Constraint extraction (\<^verbatim>\<open>src/query/constraints/extract.rs\<close>): the walk over a resolved
  \<open>SELECT\<close> that collects column constraints and column equivalences, their propagation through
  the equivalences, and the per-table result.

  A \<^verbatim>\<open>HashSet\<close> of constraints is a list into which \<open>cc_insert\<close> adds an element only if no
  equal one is present; equality leaves the table alias of the column out, as
  \<^verbatim>\<open>PartialEq for ResolvedColumnNode\<close> does.
\<close>

subsection \<open>Sets of constraints and equivalences\<close>

fun cc_eq :: "column_constraint \<Rightarrow> column_constraint \<Rightarrow> bool" where
  "cc_eq (CcComparison c op v) (CcComparison c' op' v') = (column_eq c c' \<and> op = op' \<and> v = v')"
| "cc_eq (CcInSet c vs) (CcInSet c' vs') = (column_eq c c' \<and> vs = vs')"
| "cc_eq (CcCastComparison c t op v) (CcCastComparison c' t' op' v') =
     (column_eq c c' \<and> t = t' \<and> op = op' \<and> v = v')"
| "cc_eq _ _ = False"

definition cc_insert :: "column_constraint \<Rightarrow> column_constraint list \<Rightarrow> column_constraint list" where
  "cc_insert c s = (if list_ex (cc_eq c) s then s else s @ [c])"

definition equiv_eq :: "column_equivalence \<Rightarrow> column_equivalence \<Rightarrow> bool" where
  "equiv_eq a b \<longleftrightarrow> column_eq (eq_left a) (eq_left b) \<and> column_eq (eq_right a) (eq_right b)"

definition equiv_insert ::
  "column_equivalence \<Rightarrow> column_equivalence list \<Rightarrow> column_equivalence list" where
  "equiv_insert e s = (if list_ex (equiv_eq e) s then s else s @ [e])"

record constraint_collector =
  cl_constraints :: "column_constraint list"
  cl_equivalences :: "column_equivalence list"
  cl_complete :: bool

subsection \<open>Canonical value lists\<close>

text \<open>
  \<^verbatim>\<open>sort_by(literal_value_canonical_order)\<close> is stable; on the lists where the comparison is a
  total preorder every stable sort gives the same result as this insertion sort.
\<close>

fun insert_canonical :: "literal_value \<Rightarrow> literal_value list \<Rightarrow> literal_value list" where
  "insert_canonical v [] = [v]"
| "insert_canonical v (w # ws) =
     (if literal_value_canonical_order v w = OrdGreater then w # insert_canonical v ws
      else v # w # ws)"

definition sort_canonical :: "literal_value list \<Rightarrow> literal_value list" where
  "sort_canonical vs = foldr insert_canonical vs []"

definition dedup :: "literal_value list \<Rightarrow> literal_value list" where
  "dedup = remdups_adj"

subsection \<open>Extraction from multi-operand expressions\<close>

definition between_bounds ::
  "multi_op \<Rightarrow> literal_value \<Rightarrow> literal_value \<Rightarrow> (literal_value \<times> literal_value) option" where
  "between_bounds op low high =
     (if op = MBetweenSymmetric then
        (case literal_value_order low high of
           Some OrdGreater \<Rightarrow> Some (high, low)
         | Some _ \<Rightarrow> Some (low, high)
         | None \<Rightarrow> None)
      else Some (low, high))"

fun between_constraints_extract ::
  "multi_op \<Rightarrow> resolved_where_expr list \<Rightarrow> column_constraint list \<Rightarrow> column_constraint list" where
  "between_constraints_extract op
     [WScalar (SColumn col), WScalar (SLiteral low), WScalar (SLiteral high)] constraints =
     (case between_bounds op low high of
        None \<Rightarrow> constraints
      | Some (lo, hi) \<Rightarrow>
          cc_insert (CcComparison col LessThanOrEqual hi)
            (cc_insert (CcComparison col GreaterThanOrEqual lo) constraints))"
| "between_constraints_extract op _ constraints = constraints"

text \<open>The loop of \<^verbatim>\<open>in_constraints_extract\<close> that collects the literals; \<open>None\<close> is its early return.\<close>

fun in_literals :: "resolved_where_expr list \<Rightarrow> literal_value list option" where
  "in_literals [] = Some []"
| "in_literals (WScalar (SLiteral v) # es) =
     (if literal_value_is_incomparable v then None else map_option ((#) v) (in_literals es))"
| "in_literals (_ # es) = None"

fun in_constraints_extract ::
  "resolved_where_expr list \<Rightarrow> column_constraint list \<Rightarrow> column_constraint list" where
  "in_constraints_extract (WScalar (SColumn col) # values) constraints =
     (case in_literals values of
        None \<Rightarrow> constraints
      | Some literal_values \<Rightarrow>
          cc_insert (CcInSet col (dedup (sort_canonical literal_values))) constraints)"
| "in_constraints_extract _ constraints = constraints"

fun array_literals :: "resolved_scalar_expr list \<Rightarrow> literal_value list option" where
  "array_literals [] = Some []"
| "array_literals (SLiteral v # es) = map_option ((#) v) (array_literals es)"
| "array_literals (_ # es) = None"

fun any_literals :: "resolved_scalar_expr \<Rightarrow> literal_value list option" where
  "any_literals (SLiteral (LArray values _)) = Some values"
| "any_literals (SArray elems) = array_literals elems"
| "any_literals _ = None"

fun any_eq_array_constraints_extract ::
  "resolved_where_expr list \<Rightarrow> column_constraint list \<times> bool \<Rightarrow> column_constraint list \<times> bool" where
  "any_eq_array_constraints_extract [WScalar (SColumn col), WScalar rhs] (constraints, whole) =
     (case any_literals rhs of
        None \<Rightarrow> (constraints, False)
      | Some literal_values \<Rightarrow>
          if list_ex literal_value_is_incomparable literal_values then (constraints, False)
          else (cc_insert (CcInSet col (dedup (sort_canonical literal_values))) constraints,
                whole))"
| "any_eq_array_constraints_extract _ (constraints, whole) = (constraints, False)"

fun not_in_loop ::
  "resolved_column_node \<Rightarrow> resolved_where_expr list \<Rightarrow> column_constraint list
   \<Rightarrow> column_constraint list" where
  "not_in_loop col [] constraints = constraints"
| "not_in_loop col (WScalar (SLiteral v) # es) constraints =
     (if literal_value_is_incomparable v then constraints
      else not_in_loop col es (cc_insert (CcComparison col NotEqual v) constraints))"
| "not_in_loop col (_ # es) constraints = constraints"

fun not_in_constraints_extract ::
  "resolved_where_expr list \<Rightarrow> column_constraint list \<Rightarrow> column_constraint list" where
  "not_in_constraints_extract (WScalar (SColumn col) # values) constraints =
     not_in_loop col values constraints"
| "not_in_constraints_extract _ constraints = constraints"

subsection \<open>The collector\<close>

definition comparison_analyze ::
  "binary_op \<Rightarrow> resolved_where_expr \<Rightarrow> resolved_where_expr \<Rightarrow> constraint_collector
   \<Rightarrow> constraint_collector" where
  "comparison_analyze op lexpr rexpr cl =
     (case canonicalize_comparison op lexpr rexpr of
        Some (col, None, op', val) \<Rightarrow>
          cl\<lparr>cl_constraints := cc_insert (CcComparison col op' val) (cl_constraints cl)\<rparr>
      | Some (col, Some cast, op', val) \<Rightarrow>
          if cast_target_is_coercion_supported cast (cm_data_type (rc_column_metadata col))
          then cl\<lparr>cl_constraints :=
                    cc_insert (CcCastComparison col cast op' val) (cl_constraints cl)\<rparr>
          else cl\<lparr>cl_complete := False\<rparr>
      | None \<Rightarrow>
          (case (resolved_where_scalar_leaf lexpr, resolved_where_scalar_leaf rexpr) of
             (Some (SColumn left), Some (SColumn right)) \<Rightarrow>
               if op = Equal
               then cl\<lparr>cl_equivalences :=
                         equiv_insert \<lparr>eq_left = left, eq_right = right\<rparr> (cl_equivalences cl)\<rparr>
               else cl\<lparr>cl_complete := False\<rparr>
           | _ \<Rightarrow> cl\<lparr>cl_complete := False\<rparr>))"

fun multi_analyze ::
  "multi_op \<Rightarrow> resolved_where_expr list \<Rightarrow> constraint_collector \<Rightarrow> constraint_collector" where
  "multi_analyze MBetween exprs cl =
     cl\<lparr>cl_constraints := between_constraints_extract MBetween exprs (cl_constraints cl)\<rparr>"
| "multi_analyze MBetweenSymmetric exprs cl =
     cl\<lparr>cl_constraints :=
          between_constraints_extract MBetweenSymmetric exprs (cl_constraints cl)\<rparr>"
| "multi_analyze MIn exprs cl =
     cl\<lparr>cl_constraints := in_constraints_extract exprs (cl_constraints cl)\<rparr>"
| "multi_analyze MNotIn exprs cl =
     cl\<lparr>cl_constraints := not_in_constraints_extract exprs (cl_constraints cl)\<rparr>"
| "multi_analyze (MAny Equal) exprs cl =
     (let (constraints, whole) =
            any_eq_array_constraints_extract exprs (cl_constraints cl, cl_complete cl)
      in cl\<lparr>cl_constraints := constraints, cl_complete := whole\<rparr>)"
| "multi_analyze _ exprs cl = cl\<lparr>cl_complete := False\<rparr>"

fun where_analyze :: "resolved_where_expr \<Rightarrow> constraint_collector \<Rightarrow> constraint_collector" where
  "where_analyze (WBinary op lexpr rexpr) cl =
     (if is_comparison op then comparison_analyze op lexpr rexpr cl
      else if op = And then where_analyze rexpr (where_analyze lexpr cl)
      else cl\<lparr>cl_complete := False\<rparr>)"
| "where_analyze (WMulti op exprs) cl = multi_analyze op exprs cl"
| "where_analyze (WScalar _) cl = cl\<lparr>cl_complete := False\<rparr>"
| "where_analyze (WUnary _ _) cl = cl\<lparr>cl_complete := False\<rparr>"
| "where_analyze (WSubquery _ _ _ _) cl = cl\<lparr>cl_complete := False\<rparr>"

fun join_source_analyze :: "resolved_table_source \<Rightarrow> constraint_collector \<Rightarrow> constraint_collector"
  where
  "join_source_analyze (SrcJoin jt left right qual) cl =
     join_source_analyze right
       (join_source_analyze left
          (case join_predicate qual of Some condition \<Rightarrow> where_analyze condition cl | None \<Rightarrow> cl))"
| "join_source_analyze _ cl = cl"

definition collector_new :: constraint_collector where
  "collector_new = \<lparr>cl_constraints = [], cl_equivalences = [], cl_complete = True\<rparr>"

definition collect_query_constraints :: "select_node \<Rightarrow> constraint_collector" where
  "collect_query_constraints resolved =
     fold join_source_analyze (sn_from resolved)
       (case sn_where_clause resolved of
          Some where_expr \<Rightarrow> where_analyze where_expr collector_new
        | None \<Rightarrow> collector_new)"

subsection \<open>Propagation\<close>

fun constraint_retarget ::
  "resolved_column_node \<Rightarrow> column_constraint \<Rightarrow> column_constraint option" where
  "constraint_retarget other (CcComparison _ op v) = Some (CcComparison other op v)"
| "constraint_retarget other (CcInSet _ vs) = Some (CcInSet other vs)"
| "constraint_retarget other (CcCastComparison _ _ _ _) = None"

definition across :: "column_constraint \<Rightarrow> column_equivalence \<Rightarrow> column_constraint option" where
  "across c eqv =
     (if column_eq (cc_column c) (eq_left eqv) then constraint_retarget (eq_right eqv) c
      else if column_eq (cc_column c) (eq_right eqv) then constraint_retarget (eq_left eqv) c
      else None)"

definition propagate_new ::
  "column_equivalence list \<Rightarrow> column_constraint list \<Rightarrow> column_constraint list" where
  "propagate_new equivalences constraints =
     concat (map (\<lambda>eqv. List.map_filter (\<lambda>c. across c eqv) constraints) equivalences)"

definition propagate_round ::
  "column_equivalence list \<Rightarrow> column_constraint list \<Rightarrow> column_constraint list" where
  "propagate_round equivalences constraints =
     fold cc_insert (propagate_new equivalences constraints) constraints"

text \<open>The loop ends when a round inserts nothing; inserting never removes or reorders.\<close>

function propagate_constraints ::
  "column_constraint list \<Rightarrow> column_equivalence list \<Rightarrow> column_constraint list" where
  "propagate_constraints constraints equivalences =
     (let constraints' = propagate_round equivalences constraints in
      if length constraints' = length constraints then constraints'
      else propagate_constraints constraints' equivalences)"
  by pat_completeness auto

text \<open>
  Termination: up to the alias, every constraint ever inserted carries the payload of a
  constraint that is already there on a column of an equivalence, and these are finitely many.
\<close>

definition col_key :: "resolved_column_node \<Rightarrow> resolved_column_node" where
  "col_key c = c\<lparr>rc_table_alias := None\<rparr>"

fun cc_key :: "column_constraint \<Rightarrow> column_constraint" where
  "cc_key (CcComparison c op v) = CcComparison (col_key c) op v"
| "cc_key (CcInSet c vs) = CcInSet (col_key c) vs"
| "cc_key (CcCastComparison c t op v) = CcCastComparison (col_key c) t op v"

lemma column_eq_key: "column_eq a b \<longleftrightarrow> col_key a = col_key b"
  by (cases a; cases b) (auto simp: column_eq_def col_key_def)

lemma cc_eq_key: "cc_eq a b \<longleftrightarrow> cc_key a = cc_key b"
  by (cases a; cases b) (auto simp: column_eq_key)

lemma cc_insert_keys [simp]: "cc_key ` set (cc_insert c s) = insert (cc_key c) (cc_key ` set s)"
  by (auto simp: cc_insert_def list_ex_iff cc_eq_key)

lemma cc_insert_fold_keys:
  "cc_key ` set (fold cc_insert cs s) = cc_key ` set cs \<union> cc_key ` set s"
  by (induction cs arbitrary: s) auto

lemma set_cc_insert_mono: "set s \<subseteq> set (cc_insert c s)"
  by (auto simp: cc_insert_def)

lemma set_cc_insert_bound: "set (cc_insert c s) \<subseteq> insert c (set s)"
  by (auto simp: cc_insert_def)

lemma set_cc_insert_fold_mono: "set s \<subseteq> set (fold cc_insert cs s)"
proof (induction cs arbitrary: s)
  case (Cons c cs)
  from Cons [of "cc_insert c s"] set_cc_insert_mono [of s c] show ?case by auto
qed simp

lemma set_cc_insert_fold_bound: "set (fold cc_insert cs s) \<subseteq> set cs \<union> set s"
proof (induction cs arbitrary: s)
  case (Cons c cs)
  from Cons [of "cc_insert c s"] set_cc_insert_bound [of c s] show ?case by auto
qed simp

lemma fold_cc_insert_prefix: "\<exists>t. fold cc_insert cs s = s @ t"
proof (induction cs arbitrary: s)
  case (Cons c cs)
  from Cons [of "cc_insert c s"] show ?case by (auto simp: cc_insert_def split: if_splits)
qed simp

lemma distinct_cc_insert: "distinct (map cc_key s) \<Longrightarrow> distinct (map cc_key (cc_insert c s))"
  by (auto simp: cc_insert_def list_ex_iff cc_eq_key)

lemma propagate_round_same:
  "length (propagate_round es cs) = length cs \<longleftrightarrow> propagate_round es cs = cs"
  using fold_cc_insert_prefix [of "propagate_new es cs" cs] by (auto simp: propagate_round_def)

definition payloads :: "column_constraint list \<Rightarrow> column_constraint set" where
  "payloads cs = {d. \<exists>c\<in>set cs. constraint_retarget undefined c = Some d}"

definition key_universe ::
  "column_equivalence list \<Rightarrow> column_constraint list \<Rightarrow> column_constraint set" where
  "key_universe es cs = cc_key ` set cs \<union>
     {k. \<exists>e\<in>set es. \<exists>col\<in>{eq_left e, eq_right e}. \<exists>p\<in>payloads cs. \<exists>d.
        constraint_retarget col p = Some d \<and> k = cc_key d}"

lemma finite_key_universe: "finite (key_universe es cs)"
proof -
  have fp: "finite (payloads cs)"
  proof (rule finite_subset)
    show "payloads cs \<subseteq> (\<lambda>c. the (constraint_retarget undefined c)) ` set cs"
      by (force simp: payloads_def)
  qed simp
  have "finite ((\<lambda>(col, p). cc_key (the (constraint_retarget col p))) `
      ((eq_left ` set es \<union> eq_right ` set es) \<times> payloads cs))"
    using fp by simp
  moreover have "key_universe es cs \<subseteq> cc_key ` set cs \<union> (\<lambda>(col, p). cc_key (the (constraint_retarget col p))) `
      ((eq_left ` set es \<union> eq_right ` set es) \<times> payloads cs)"
    by (force simp: key_universe_def)
  ultimately show ?thesis by (meson finite_UnI finite_imageI finite_set finite_subset)
qed

lemma retarget_retarget:
  "constraint_retarget b c = Some d \<Longrightarrow> constraint_retarget a d = constraint_retarget a c"
  by (cases c) auto

lemma propagate_new_mem:
  "d \<in> set (propagate_new es cs) \<longleftrightarrow> (\<exists>e\<in>set es. \<exists>c\<in>set cs. across c e = Some d)"
  by (auto simp: propagate_new_def List.map_filter_def) force+

lemma across_retarget:
  "across c e = Some d \<Longrightarrow> \<exists>col\<in>{eq_left e, eq_right e}. constraint_retarget col c = Some d"
  by (auto simp: across_def split: if_splits)

lemma payloads_round: "payloads (propagate_round es cs) = payloads cs"
proof -
  have "constraint_retarget undefined d \<in> constraint_retarget undefined ` set cs"
    if "d \<in> set (propagate_new es cs)" for d
    using that across_retarget retarget_retarget [of _ _ d undefined]
    by (fastforce simp: propagate_new_mem)
  then show ?thesis
    using set_cc_insert_fold_mono [of cs "propagate_new es cs"]
      set_cc_insert_fold_bound [of "propagate_new es cs" cs]
    by (fastforce simp: payloads_def propagate_round_def)
qed

lemma key_universe_round: "key_universe es (propagate_round es cs) \<subseteq> key_universe es cs"
proof -
  have "cc_key d \<in> key_universe es cs" if d: "d \<in> set (propagate_new es cs)" for d
  proof -
    from d obtain e c col where e: "e \<in> set es" "c \<in> set cs" "col \<in> {eq_left e, eq_right e}"
        "constraint_retarget col c = Some d"
      using across_retarget by (force simp: propagate_new_mem)
    then obtain p where p: "constraint_retarget undefined c = Some p" by (cases c) auto
    then have "p \<in> payloads cs" using e(2) by (auto simp: payloads_def)
    moreover have "constraint_retarget col p = Some d"
      using retarget_retarget [OF p, of col] e(4) by simp
    ultimately show ?thesis using e(1,3) unfolding key_universe_def by blast
  qed
  then have "cc_key ` set (propagate_round es cs) \<subseteq> key_universe es cs"
    by (auto simp: propagate_round_def cc_insert_fold_keys) (auto simp: key_universe_def)
  then show ?thesis
    unfolding key_universe_def [of es "propagate_round es cs"] payloads_round
    by (auto simp: key_universe_def)
qed

lemma propagate_round_grows:
  assumes "length (propagate_round es cs) \<noteq> length cs"
  shows "cc_key ` set cs \<subset> cc_key ` set (propagate_round es cs)"
proof (rule ccontr)
  assume "\<not> ?thesis"
  then have same: "cc_key ` set (propagate_new es cs) \<subseteq> cc_key ` set cs"
    by (auto simp: propagate_round_def cc_insert_fold_keys)
  have "fold cc_insert ds cs = cs" if "cc_key ` set ds \<subseteq> cc_key ` set cs" for ds
    using that
  proof (induction ds)
    case (Cons d ds)
    then have "cc_insert d cs = cs" by (auto simp: cc_insert_def list_ex_iff cc_eq_key)
    with Cons show ?case by simp
  qed simp
  with same assms show False by (simp add: propagate_round_def)
qed

termination propagate_constraints
proof (relation "measure (\<lambda>(cs, es). card (key_universe es cs) - card (cc_key ` set cs))")
  fix cs es cs'
  assume cs': "cs' = propagate_round es cs" "length cs' \<noteq> length cs"
  let ?U = "key_universe es cs" and ?U' = "key_universe es cs'"
  have "cc_key ` set cs \<subset> cc_key ` set cs'" using propagate_round_grows cs' by simp
  then have "card (cc_key ` set cs) < card (cc_key ` set cs')" by (intro psubset_card_mono) simp_all
  moreover have "card ?U' \<le> card ?U"
    using key_universe_round cs' by (intro card_mono finite_key_universe) simp
  moreover have "card (cc_key ` set cs') \<le> card ?U'"
    by (intro card_mono finite_key_universe) (auto simp: key_universe_def)
  ultimately show "((cs', es), (cs, es)) \<in>
      measure (\<lambda>(cs, es). card (key_universe es cs) - card (cc_key ` set cs))" by simp
qed simp

declare propagate_constraints.simps [simp del]

subsection \<open>Analysis of a query\<close>

fun table_constraint_of :: "column_constraint \<Rightarrow> table_constraint" where
  "table_constraint_of (CcComparison c op v) = Comparison (rc_column c) op v"
| "table_constraint_of (CcInSet c vs) = AnyOf (rc_column c) vs"
| "table_constraint_of (CcCastComparison c t op v) = CastComparison (rc_column c) t op v"

definition analyze_query_constraints :: "select_node \<Rightarrow> query_constraints" where
  "analyze_query_constraints resolved =
     (let cl = collect_query_constraints resolved;
          column_constraints = propagate_constraints (cl_constraints cl) (cl_equivalences cl)
      in \<lparr>qc_column_constraints = column_constraints,
          qc_equivalences = cl_equivalences cl,
          qc_table_constraints =
            fold (\<lambda>c m. entry_push (rc_table (cc_column c)) (table_constraint_of c) m)
              column_constraints [],
          qc_where_analysis_complete = cl_complete cl\<rparr>)"

end
