(* ===== verification/Evaluate.thy ===== *)
theory Evaluate
  imports Row_Values Extract
begin

text \<open>
  Evaluation of a \<open>WHERE\<close> clause against a single changed row
  (\<^verbatim>\<open>src/query/evaluate.rs\<close>), and the compiled predicate that change data capture runs instead
  (\<^verbatim>\<open>src/query/predicate.rs\<close>).

  The evaluator is two-valued: a comparison with \<open>NULL\<close>, with a column of another table or with
  text that does not parse is \<open>False\<close>. \<open>sql3\<close> is the three-valued truth of the same expression
  on typed cells; the evaluator agrees with it wherever the SQL answer is known, on the shapes
  \<open>row_decidable\<close> describes. The compiled predicate is equal to the evaluator on all shapes.
\<close>

subsection \<open>Comparisons\<close>

fun ordering_satisfies_op :: "ordering \<Rightarrow> binary_op \<Rightarrow> bool" where
  "ordering_satisfies_op ord Equal = (ord = OrdEqual)"
| "ordering_satisfies_op ord NotEqual = (ord \<noteq> OrdEqual)"
| "ordering_satisfies_op ord LessThan = (ord = OrdLess)"
| "ordering_satisfies_op ord LessThanOrEqual = (ord \<noteq> OrdGreater)"
| "ordering_satisfies_op ord GreaterThan = (ord = OrdGreater)"
| "ordering_satisfies_op ord GreaterThanOrEqual = (ord \<noteq> OrdLess)"
| "ordering_satisfies_op ord _ = False"

fun literal_as_bool :: "literal_value \<Rightarrow> bool option" where
  "literal_as_bool (LBoolean b) = Some b"
| "literal_as_bool (LString s) = bool_literal_parse s"
| "literal_as_bool (LInteger n) = (if n = 1 then Some True else if n = 0 then Some False else None)"
| "literal_as_bool _ = None"

definition literal_pair_as_bool :: "literal_value \<Rightarrow> literal_value \<Rightarrow> (bool \<times> bool) option" where
  "literal_pair_as_bool left right =
     Option.bind (literal_as_bool left)
       (\<lambda>lb. map_option (\<lambda>rb. (lb, rb)) (literal_as_bool right))"

text \<open>The \<^verbatim>\<open>match\<close> of \<^verbatim>\<open>literal_compare\<close> that yields the ordering; \<open>None\<close> is \<^verbatim>\<open>return false\<close>.\<close>

fun literal_ordering :: "literal_value \<Rightarrow> literal_value \<Rightarrow> ordering option" where
  "literal_ordering (LInteger a) (LInteger b) = Some (cmp a b)"
| "literal_ordering (LInteger a) (LString s) = map_option (cmp a) (parse_i64 s)"
| "literal_ordering (LString s) (LInteger b) = map_option (\<lambda>a. cmp a b) (parse_i64 s)"
| "literal_ordering (LString a) (LString b) = Some (cmp a b)"
| "literal_ordering (LString a) (LStringWithCast b _) = Some (cmp a b)"
| "literal_ordering (LStringWithCast a _) (LString b) = Some (cmp a b)"
| "literal_ordering _ _ = None"

definition literal_compare :: "literal_value \<Rightarrow> binary_op \<Rightarrow> literal_value \<Rightarrow> bool" where
  "literal_compare left op right =
     (case literal_pair_as_bool left right of
        Some (a, b) \<Rightarrow> (if op = Equal then a = b else if op = NotEqual then a \<noteq> b else False)
      | None \<Rightarrow>
          (case literal_ordering left right of
             Some ord \<Rightarrow> ordering_satisfies_op ord op
           | None \<Rightarrow> False))"

definition f64_epsilon :: f64 where
  "f64_epsilon = Fin (1 / 2 ^ 52)"

fun f64_sub :: "f64 \<Rightarrow> f64 \<Rightarrow> float_text" where
  "f64_sub (Fin a) (Fin b) = FNum (f64_round (a - b))"
| "f64_sub NegInf NegInf = FNaN"
| "f64_sub PosInf PosInf = FNaN"
| "f64_sub NegInf _ = FNum NegInf"
| "f64_sub PosInf _ = FNum PosInf"
| "f64_sub _ NegInf = FNum PosInf"
| "f64_sub _ PosInf = FNum NegInf"

fun f64_abs :: "f64 \<Rightarrow> f64" where
  "f64_abs (Fin r) = Fin \<bar>r\<bar>"
| "f64_abs _ = PosInf"

definition f64_difference_test :: "f64 \<Rightarrow> f64 \<Rightarrow> (f64 \<Rightarrow> bool) \<Rightarrow> bool" where
  "f64_difference_test a b P = (case f64_sub a b of FNaN \<Rightarrow> False | FNum d \<Rightarrow> P (f64_abs d))"

definition float_text_compare :: "string \<Rightarrow> f64 \<Rightarrow> binary_op \<Rightarrow> bool" where
  "float_text_compare row_value_str filter_float op =
     (case parse_f64 row_value_str of
        Some (FNum row_float) \<Rightarrow>
          (case op of
             Equal \<Rightarrow> f64_difference_test row_float filter_float (\<lambda>d. d < f64_epsilon)
           | NotEqual \<Rightarrow> f64_difference_test row_float filter_float (\<lambda>d. f64_epsilon \<le> d)
           | LessThan \<Rightarrow> row_float < filter_float
           | LessThanOrEqual \<Rightarrow> row_float \<le> filter_float
           | GreaterThan \<Rightarrow> filter_float < row_float
           | GreaterThanOrEqual \<Rightarrow> filter_float \<le> row_float
           | _ \<Rightarrow> False)
      | _ \<Rightarrow> False)"

definition bool_text_compare :: "string \<Rightarrow> bool \<Rightarrow> binary_op \<Rightarrow> bool" where
  "bool_text_compare row_value_str filter_bool op =
     (case bool_wire_text_parse row_value_str of
        Some row_bool \<Rightarrow>
          (if op = Equal then row_bool = filter_bool
           else if op = NotEqual then row_bool \<noteq> filter_bool else False)
      | None \<Rightarrow> False)"

fun where_value_compare_string :: "literal_value \<Rightarrow> string \<Rightarrow> binary_op \<Rightarrow> bool" where
  "where_value_compare_string (LString filter_str) row_value_str op =
     ordering_satisfies_op (cmp row_value_str filter_str) op"
| "where_value_compare_string (LStringWithCast filter_str _) row_value_str op =
     ordering_satisfies_op (cmp row_value_str filter_str) op"
| "where_value_compare_string (LInteger filter_int) row_value_str op =
     (case parse_i64 row_value_str of
        Some row_int \<Rightarrow> ordering_satisfies_op (cmp row_int filter_int) op
      | None \<Rightarrow> False)"
| "where_value_compare_string (LFloat filter_float) row_value_str op =
     float_text_compare row_value_str filter_float op"
| "where_value_compare_string (LBoolean filter_bool) row_value_str op =
     bool_text_compare row_value_str filter_bool op"
| "where_value_compare_string LNull row_value_str op = False"
| "where_value_compare_string (LNullWithCast _) row_value_str op = False"
| "where_value_compare_string (LParameter _) row_value_str op = False"
| "where_value_compare_string (LArray _ _) row_value_str op = False"

subsection \<open>The evaluator\<close>

datatype column_row_value = CrvPresent string | CrvNull | CrvNotInTable

definition column_value_get :: "resolved_column_node \<Rightarrow> row_data \<Rightarrow> string \<Rightarrow> string option" where
  "column_value_get col row_data table_name =
     (if rc_table col \<noteq> table_name then None
      else (case list_get row_data (cm_index (rc_column_metadata col)) of
              None \<Rightarrow> None
            | Some v \<Rightarrow> v))"

definition column_row_value_get ::
  "resolved_column_node \<Rightarrow> row_data \<Rightarrow> string \<Rightarrow> column_row_value" where
  "column_row_value_get col row_data table_name =
     (if rc_table col \<noteq> table_name then CrvNotInTable
      else (case list_get row_data (cm_index (rc_column_metadata col)) of
              Some (Some v) \<Rightarrow> CrvPresent v
            | Some None \<Rightarrow> CrvNull
            | None \<Rightarrow> CrvNotInTable))"

definition expr_comparison_evaluate ::
  "binary_op \<Rightarrow> resolved_where_expr \<Rightarrow> resolved_where_expr \<Rightarrow> row_data \<Rightarrow> string \<Rightarrow> bool" where
  "expr_comparison_evaluate binop lexpr rexpr row_data table_name =
     (case canonicalize_comparison binop lexpr rexpr of
        None \<Rightarrow> False
      | Some (column_ref, target, op, v) \<Rightarrow>
          (case column_row_value_get column_ref row_data table_name of
             CrvPresent row_value_str \<Rightarrow>
               (case target of
                  None \<Rightarrow> where_value_compare_string v row_value_str op
                | Some cast \<Rightarrow>
                    (case cast_target_coerce_text cast row_value_str of
                       None \<Rightarrow> False
                     | Some coerced \<Rightarrow> literal_compare coerced op v))
           | CrvNull \<Rightarrow> target = None \<and> op = Equal \<and> v = LNull
           | CrvNotInTable \<Rightarrow> False))"

text \<open>The tests of a present or absent text; \<open>UNot\<close> is decided by the callers.\<close>

definition text_in :: "string option \<Rightarrow> string list \<Rightarrow> bool" where
  "text_in v ts = (case v of Some t \<Rightarrow> t \<in> set ts | None \<Rightarrow> False)"

fun value_test :: "unary_op \<Rightarrow> string option \<Rightarrow> bool" where
  "value_test UIsNull v = (v = None)"
| "value_test UIsNotNull v = (v \<noteq> None)"
| "value_test UIsTrue v = text_in v [''t'', ''true'']"
| "value_test UIsNotTrue v = (\<not> text_in v [''t'', ''true''])"
| "value_test UIsFalse v = text_in v [''f'', ''false'']"
| "value_test UIsNotFalse v = (\<not> text_in v [''f'', ''false''])"
| "value_test UNot v = False"

text \<open>\<open>inner\<close> is the recursive call \<^verbatim>\<open>where_expr_evaluate(expr, row_data, table_name)\<close>.\<close>

definition unary_expr_evaluate ::
  "unary_op \<Rightarrow> resolved_where_expr \<Rightarrow> bool \<Rightarrow> row_data \<Rightarrow> string \<Rightarrow> bool" where
  "unary_expr_evaluate op expr inner row_data table_name =
     (let v = (case expr of
                 WScalar (SColumn col) \<Rightarrow> column_value_get col row_data table_name
               | _ \<Rightarrow> None)
      in if op = UNot then \<not> inner else value_test op v)"

fun where_expr_evaluate :: "resolved_where_expr \<Rightarrow> row_data \<Rightarrow> string \<Rightarrow> bool" where
  "where_expr_evaluate (WBinary op lexpr rexpr) row_data table_name =
     (if is_comparison op then expr_comparison_evaluate op lexpr rexpr row_data table_name
      else if op = And then
        where_expr_evaluate lexpr row_data table_name \<and>
        where_expr_evaluate rexpr row_data table_name
      else if op = Or then
        where_expr_evaluate lexpr row_data table_name \<or>
        where_expr_evaluate rexpr row_data table_name
      else False)"
| "where_expr_evaluate (WUnary op expr) row_data table_name =
     unary_expr_evaluate op expr (where_expr_evaluate expr row_data table_name) row_data table_name"
| "where_expr_evaluate (WScalar _) row_data table_name = False"
| "where_expr_evaluate (WMulti _ _) row_data table_name = False"
| "where_expr_evaluate (WSubquery _ _ _ _) row_data table_name = False"

subsection \<open>Which shapes are supported\<close>

fun literal_is_canonical_date :: "literal_value \<Rightarrow> bool" where
  "literal_is_canonical_date (LString s) = is_canonical_date_literal s"
| "literal_is_canonical_date (LStringWithCast s _) = is_canonical_date_literal s"
| "literal_is_canonical_date _ = False"

definition is_simple_comparison ::
  "binary_op \<Rightarrow> resolved_where_expr \<Rightarrow> resolved_where_expr \<Rightarrow> bool" where
  "is_simple_comparison binop lexpr rexpr =
     (case canonicalize_comparison binop lexpr rexpr of
        None \<Rightarrow> False
      | Some (col, None, _, literal) \<Rightarrow> True
      | Some (col, Some target, _, literal) \<Rightarrow>
          if \<not> cast_target_is_coercion_supported target (cm_data_type (rc_column_metadata col))
          then False
          else if target = CDate then literal_is_canonical_date literal
          else True)"

fun resolved_where_expr_supported :: "resolved_where_expr \<Rightarrow> bool" where
  "resolved_where_expr_supported (WScalar scalar) =
     (case scalar of SColumn _ \<Rightarrow> True | SLiteral _ \<Rightarrow> True | _ \<Rightarrow> False)"
| "resolved_where_expr_supported (WBinary op lexpr rexpr) =
     (if op = And \<or> op = Or
      then resolved_where_expr_supported lexpr \<and> resolved_where_expr_supported rexpr
      else if is_comparison op then is_simple_comparison op lexpr rexpr
      else False)"
| "resolved_where_expr_supported (WUnary op expr) = resolved_where_expr_supported expr"
| "resolved_where_expr_supported (WMulti _ _) = False"
| "resolved_where_expr_supported (WSubquery _ _ _ _) = False"

subsection \<open>The compiled predicate\<close>

datatype compiled_predicate =
    CpAnd compiled_predicate compiled_predicate
  | CpOr compiled_predicate compiled_predicate
  | CpNot compiled_predicate
  | CpNullCheck unary_op "nat option"
  | CpCompare (cp_col: nat) (cp_in_table: bool) (cp_target: "cast_target option")
      (cp_op: binary_op) (cp_value: literal_value)
  | CpConstFalse

fun column_position_in_table :: "resolved_where_expr \<Rightarrow> string \<Rightarrow> nat option" where
  "column_position_in_table (WScalar (SColumn col)) table_name =
     (if rc_table col = table_name then Some (cm_index (rc_column_metadata col)) else None)"
| "column_position_in_table _ table_name = None"

fun compile :: "resolved_where_expr \<Rightarrow> string \<Rightarrow> compiled_predicate" where
  "compile (WBinary op lexpr rexpr) table_name =
     (if op = And then CpAnd (compile lexpr table_name) (compile rexpr table_name)
      else if op = Or then CpOr (compile lexpr table_name) (compile rexpr table_name)
      else if is_comparison op then
        (case canonicalize_comparison op lexpr rexpr of
           Some (col, target, op', v) \<Rightarrow>
             CpCompare (cm_index (rc_column_metadata col)) (rc_table col = table_name) target op' v
         | None \<Rightarrow> CpConstFalse)
      else CpConstFalse)"
| "compile (WUnary op expr) table_name =
     (if op = UNot then CpNot (compile expr table_name)
      else CpNullCheck op (column_position_in_table expr table_name))"
| "compile (WScalar _) table_name = CpConstFalse"
| "compile (WMulti _ _) table_name = CpConstFalse"
| "compile (WSubquery _ _ _ _) table_name = CpConstFalse"

fun cp_eval :: "compiled_predicate \<Rightarrow> row_data \<Rightarrow> bool" where
  "cp_eval (CpAnd l r) row_data = (cp_eval l row_data \<and> cp_eval r row_data)"
| "cp_eval (CpOr l r) row_data = (cp_eval l row_data \<or> cp_eval r row_data)"
| "cp_eval (CpNot inner) row_data = (\<not> cp_eval inner row_data)"
| "cp_eval (CpNullCheck op col) row_data =
     value_test op
       (case col of
          None \<Rightarrow> None
        | Some pos \<Rightarrow> (case list_get row_data pos of None \<Rightarrow> None | Some v \<Rightarrow> v))"
| "cp_eval (CpCompare col in_table target op v) row_data =
     (if \<not> in_table then False
      else (case list_get row_data col of
              None \<Rightarrow> False
            | Some None \<Rightarrow> target = None \<and> op = Equal \<and> v = LNull
            | Some (Some row_str) \<Rightarrow>
                (case target of
                   None \<Rightarrow> where_value_compare_string v row_str op
                 | Some cast \<Rightarrow>
                     (case cast_target_coerce_text cast row_str of
                        Some coerced \<Rightarrow> literal_compare coerced op v
                      | None \<Rightarrow> False))))"
| "cp_eval CpConstFalse row_data = False"

lemma compare_eval:
  "cp_eval (CpCompare (cm_index (rc_column_metadata col)) (rc_table col = tn) target op v) row =
     (case column_row_value_get col row tn of
        CrvPresent t \<Rightarrow>
          (case target of
             None \<Rightarrow> where_value_compare_string v t op
           | Some cast \<Rightarrow>
               (case cast_target_coerce_text cast t of
                  None \<Rightarrow> False
                | Some coerced \<Rightarrow> literal_compare coerced op v))
      | CrvNull \<Rightarrow> target = None \<and> op = Equal \<and> v = LNull
      | CrvNotInTable \<Rightarrow> False)"
  by (cases "list_get row (cm_index (rc_column_metadata col))" rule: option.exhaust;
      cases "the (list_get row (cm_index (rc_column_metadata col)))" rule: option.exhaust)
    (auto simp: column_row_value_get_def)

lemma compile_comparison:
  assumes "\<not> (op = And \<or> op = Or)"
  shows "cp_eval (compile (WBinary op l r) tn) row = where_expr_evaluate (WBinary op l r) row tn"
proof (cases "is_comparison op")
  case True
  then have "compile (WBinary op l r) tn =
      (case canonicalize_comparison op l r of
         Some (col, target, op', v) \<Rightarrow>
           CpCompare (cm_index (rc_column_metadata col)) (rc_table col = tn) target op' v
       | None \<Rightarrow> CpConstFalse)" using assms by simp
  with True show ?thesis
    by (cases "canonicalize_comparison op l r" rule: option.exhaust)
      (auto simp: expr_comparison_evaluate_def compare_eval simp del: is_comparison.simps cp_eval.simps(5))
qed (use assms in auto)

lemma null_check_value:
  "(case column_position_in_table e tn of
      None \<Rightarrow> None
    | Some pos \<Rightarrow> (case list_get row pos of None \<Rightarrow> None | Some v \<Rightarrow> v)) =
   (case e of WScalar (SColumn col) \<Rightarrow> column_value_get col row tn | _ \<Rightarrow> None)"
  by (simp add: column_value_get_def split: resolved_where_expr.split resolved_scalar_expr.split)

text \<open>
  C24. The compiled predicate is an exact replacement of the evaluator: for every \<open>WHERE\<close>
  expression, table and row, running the predicate compiled once at registration gives the same
  answer as walking the expression.
\<close>

theorem compiled_predicate_equivalent:
  "cp_eval (compile expr table_name) row_data = where_expr_evaluate expr row_data table_name"
proof (induction expr table_name rule: compile.induct)
  case (1 op l r table_name)
  show ?case
  proof (cases "op = And \<or> op = Or")
    case True
    with 1 show ?thesis by auto
  next
    case False
    then show ?thesis by (rule compile_comparison)
  qed
next
  case (2 op e table_name)
  then show ?case by (simp add: unary_expr_evaluate_def null_check_value)
qed simp_all

subsection \<open>Three-valued truth on typed cells\<close>

datatype cell = CellInt int | CellText string | CellBool bool

fun cell_text :: "cell \<Rightarrow> string" where
  "cell_text (CellInt n) = int_text n"
| "cell_text (CellText s) = s"
| "cell_text (CellBool b) = (if b then ''t'' else ''f'')"

text \<open>The order of text is that of the column's collation, a parameter.\<close>

fun cell_lt :: "(string \<Rightarrow> string \<Rightarrow> bool) \<Rightarrow> cell \<Rightarrow> cell \<Rightarrow> bool" where
  "cell_lt coll (CellInt a) (CellInt b) = (a < b)"
| "cell_lt coll (CellText a) (CellText b) = coll a b"
| "cell_lt coll (CellBool a) (CellBool b) = (a < b)"
| "cell_lt coll _ _ = False"

fun literal_cell :: "literal_value \<Rightarrow> cell option" where
  "literal_cell (LInteger n) = Some (CellInt n)"
| "literal_cell (LString s) = Some (CellText s)"
| "literal_cell (LBoolean b) = Some (CellBool b)"
| "literal_cell _ = None"

definition cell_at :: "string \<Rightarrow> cell option list \<Rightarrow> resolved_column_node \<Rightarrow> cell option" where
  "cell_at tn cells col =
     (if rc_table col = tn
      then Option.bind (list_get cells (cm_index (rc_column_metadata col))) id else None)"

text \<open>An identity cast to text renders the cell; every other identity cast keeps it.\<close>

fun scalar_cell :: "string \<Rightarrow> cell option list \<Rightarrow> resolved_scalar_expr \<Rightarrow> cell option" where
  "scalar_cell tn cells (SColumn col) = cell_at tn cells col"
| "scalar_cell tn cells (SLiteral v) = literal_cell v"
| "scalar_cell tn cells (STypeCast (SColumn col) target) =
     (if cast_target_is_identity_on target (cm_data_type (rc_column_metadata col))
      then (if target = CText then map_option (\<lambda>c. CellText (cell_text c)) (cell_at tn cells col)
            else cell_at tn cells col)
      else None)"
| "scalar_cell tn cells _ = None"

fun operand_cell :: "string \<Rightarrow> cell option list \<Rightarrow> resolved_where_expr \<Rightarrow> cell option" where
  "operand_cell tn cells (WScalar s) = scalar_cell tn cells s"
| "operand_cell tn cells _ = None"

definition and3 :: "bool option \<Rightarrow> bool option \<Rightarrow> bool option" where
  "and3 a b =
     (if a = Some False \<or> b = Some False then Some False
      else if a = Some True \<and> b = Some True then Some True else None)"

definition or3 :: "bool option \<Rightarrow> bool option \<Rightarrow> bool option" where
  "or3 a b =
     (if a = Some True \<or> b = Some True then Some True
      else if a = Some False \<and> b = Some False then Some False else None)"

definition compare3 :: "(string \<Rightarrow> string \<Rightarrow> bool) \<Rightarrow> binary_op \<Rightarrow> cell option \<Rightarrow> cell option \<Rightarrow> bool option" where
  "compare3 coll op a b =
     (case (a, b) of (Some x, Some y) \<Rightarrow> Some (op_sem (cell_lt coll) op x y) | _ \<Rightarrow> None)"

text \<open>The tests \<open>IS ...\<close> of a boolean or of a column; they are never unknown.\<close>

fun is_test :: "unary_op \<Rightarrow> cell option \<Rightarrow> bool option" where
  "is_test UIsNull c = Some (c = None)"
| "is_test UIsNotNull c = Some (c \<noteq> None)"
| "is_test UIsTrue c = Some (c = Some (CellBool True))"
| "is_test UIsNotTrue c = Some (c \<noteq> Some (CellBool True))"
| "is_test UIsFalse c = Some (c = Some (CellBool False))"
| "is_test UIsNotFalse c = Some (c \<noteq> Some (CellBool False))"
| "is_test UNot c = None"

fun bool_cell :: "cell option \<Rightarrow> bool option" where
  "bool_cell (Some (CellBool b)) = Some b"
| "bool_cell _ = None"

fun sql3 :: "(string \<Rightarrow> string \<Rightarrow> bool) \<Rightarrow> string \<Rightarrow> cell option list \<Rightarrow> resolved_where_expr \<Rightarrow> bool option" where
  "sql3 coll tn cells (WBinary op l r) =
     (if op = And then and3 (sql3 coll tn cells l) (sql3 coll tn cells r)
      else if op = Or then or3 (sql3 coll tn cells l) (sql3 coll tn cells r)
      else if is_comparison op then compare3 coll op (operand_cell tn cells l) (operand_cell tn cells r)
      else None)"
| "sql3 coll tn cells (WUnary op e) =
     (if op = UNot then map_option Not (sql3 coll tn cells e)
      else is_test op
             (case e of
                WScalar s \<Rightarrow> scalar_cell tn cells s
              | _ \<Rightarrow> map_option CellBool (sql3 coll tn cells e)))"
| "sql3 coll tn cells (WScalar s) = bool_cell (scalar_cell tn cells s)"
| "sql3 coll tn cells _ = None"

subsection \<open>Where the evaluator agrees\<close>

definition row_text :: "cell option list \<Rightarrow> row_data" where
  "row_text cells = map (map_option cell_text) cells"

fun cell_ok :: "cell \<Rightarrow> bool" where
  "cell_ok (CellInt n) = i64_range n"
| "cell_ok _ = True"

text \<open>
  Two operands the evaluator compares as SQL does: both of one kind; booleans for equality only;
  texts for equality, and for an ordering if the collation orders the two as their bytes do, which is
  how the evaluator compares them. \<open>NULL\<close> on either side is always fine.
\<close>

fun cells_comparable :: "(string \<Rightarrow> string \<Rightarrow> bool) \<Rightarrow> binary_op \<Rightarrow> cell option \<Rightarrow> cell option \<Rightarrow> bool" where
  "cells_comparable coll op (Some (CellInt a)) (Some (CellInt b)) = True"
| "cells_comparable coll op (Some (CellText a)) (Some (CellText b)) =
     (op = Equal \<or> op = NotEqual \<or> (coll a b \<longleftrightarrow> a < b) \<and> (coll b a \<longleftrightarrow> b < a))"
| "cells_comparable coll op (Some (CellBool a)) (Some (CellBool b)) = (op = Equal \<or> op = NotEqual)"
| "cells_comparable coll op None _ = True"
| "cells_comparable coll op _ None = True"
| "cells_comparable coll op _ _ = False"

fun is_column_operand :: "resolved_where_expr \<Rightarrow> bool" where
  "is_column_operand (WScalar (SColumn _)) = True"
| "is_column_operand _ = False"

text \<open>Whether an \<open>IS TRUE\<close> or \<open>IS FALSE\<close> test reads a boolean column, as SQL requires.\<close>

definition test_column_ok :: "unary_op \<Rightarrow> cell option \<Rightarrow> bool" where
  "test_column_ok op c \<longleftrightarrow>
     op \<in> {UIsNull, UIsNotNull} \<or> (case c of Some (CellBool _) \<Rightarrow> True | None \<Rightarrow> True | _ \<Rightarrow> False)"

fun row_decidable :: "(string \<Rightarrow> string \<Rightarrow> bool) \<Rightarrow> string \<Rightarrow> cell option list \<Rightarrow> resolved_where_expr \<Rightarrow> bool" where
  "row_decidable coll tn cells (WBinary op l r) =
     (if op = And \<or> op = Or then row_decidable coll tn cells l \<and> row_decidable coll tn cells r
      else is_comparison op \<and>
           (case canonicalize_comparison op l r of Some (_, None, _, _) \<Rightarrow> True | _ \<Rightarrow> False) \<and>
           cells_comparable coll op (operand_cell tn cells l) (operand_cell tn cells r))"
| "row_decidable coll tn cells (WUnary op e) =
     (if op = UNot then row_decidable coll tn cells e
      else is_column_operand e \<and> test_column_ok op (operand_cell tn cells e))"
| "row_decidable coll tn cells _ = False"

lemma list_get_map: "list_get (map f xs) i = map_option f (list_get xs i)"
  by (simp add: list_get_def)

lemma ordering_op_sem:
  "is_comparison op \<Longrightarrow> ordering_satisfies_op (cmp a b) op = op_sem (<) op a b"
  by (cases op) (auto simp: cmp_def)

lemma op_sem_cell:
  "is_comparison op \<Longrightarrow> op_sem (cell_lt coll) op (CellInt a) (CellInt b) = op_sem (<) op a b"
  "is_comparison op \<Longrightarrow> cells_comparable coll op (Some (CellText s)) (Some (CellText t)) \<Longrightarrow>
     op_sem (cell_lt coll) op (CellText s) (CellText t) = op_sem (<) op s t"
  by (cases op; auto)+

lemma op_sem_flip: "op_flip op = Some op' \<Longrightarrow> op_sem lt op x y = op_sem lt op' y x"
  by (cases op) auto

lemma bool_wire_cell [simp]: "bool_wire_text_parse (cell_text (CellBool b)) = Some b"
  by (simp add: bool_wire_text_parse_def)

text \<open>A stripped operand: the code reads the text of the column, whatever the identity cast.\<close>

lemma stripped_column:
  assumes "resolved_where_scalar_leaf e = Some (SColumn col)"
  shows "operand_cell tn cells e = cell_at tn cells col \<or>
    operand_cell tn cells e = map_option (\<lambda>c. CellText (cell_text c)) (cell_at tn cells col)"
proof (cases e)
  case (WScalar s)
  with assms have "resolved_strip_identity_cast s = SColumn col" by simp
  then show ?thesis
    using WScalar by (cases s rule: resolved_strip_identity_cast.cases) (auto split: if_splits)
qed (use assms in auto)

lemma stripped_literal:
  assumes "resolved_where_scalar_leaf e = Some (SLiteral v)"
  shows "operand_cell tn cells e = literal_cell v"
proof (cases e)
  case (WScalar s)
  with assms have "resolved_strip_identity_cast s = SLiteral v" by simp
  then show ?thesis
    using WScalar by (cases s rule: resolved_strip_identity_cast.cases) (auto split: if_splits)
qed (use assms in auto)

lemma cell_compare:
  assumes "is_comparison op" "cell_ok c" "operand = c \<or> operand = CellText (cell_text c)"
    and "literal_cell v = Some d" "cells_comparable coll op (Some operand) (Some d)"
  shows "where_value_compare_string v (cell_text c) op = op_sem (cell_lt coll) op operand d"
proof (cases v)
  case (LInteger n)
  with assms have "d = CellInt n" "\<exists>m. operand = CellInt m \<and> c = CellInt m"
    by (auto elim: cells_comparable.elims)
  with LInteger assms(1,2) show ?thesis by (auto simp: parse_i64_text ordering_op_sem op_sem_cell)
next
  case (LString s)
  with assms have "d = CellText s" "operand = CellText (cell_text c)"
    by (auto elim: cells_comparable.elims)
  with LString assms(1,5) show ?thesis by (simp add: ordering_op_sem op_sem_cell del: cells_comparable.simps)
next
  case (LBoolean b)
  with assms have "d = CellBool b" "\<exists>a. operand = CellBool a \<and> c = CellBool a" "op = Equal \<or> op = NotEqual"
    by (auto elim: cells_comparable.elims)
  with LBoolean show ?thesis
    by (auto simp: bool_text_compare_def bool_wire_text_parse_def split: if_splits)
qed (use assms in simp_all)

lemma cells_comparable_None [simp]: "cells_comparable coll op b None"
  by (cases "(coll, op, b, None :: cell option)" rule: cells_comparable.cases) auto

lemma cells_comparable_flip:
  "op_flip op = Some op' \<Longrightarrow> cells_comparable coll op a b = cells_comparable coll op' b a"
  by (cases "(coll, op, a, b)" rule: cells_comparable.cases; cases op) auto

lemma canonicalize_plain:
  assumes "canonicalize_comparison op l r = Some (col, None, op', v)"
  obtains "resolved_where_scalar_leaf l = Some (SColumn col)"
      "resolved_where_scalar_leaf r = Some (SLiteral v)" "op' = op"
  | "resolved_where_scalar_leaf l = Some (SLiteral v)"
      "resolved_where_scalar_leaf r = Some (SColumn col)" "op_flip op = Some op'"
proof -
  have plain: "column_target s = Some (col, None) \<Longrightarrow> s = SColumn col" for s
    by (cases s rule: column_target.cases) auto
  show ?thesis
    using assms that
    by (auto simp: canonicalize_comparison_def canonicalize_left_def Let_def dest!: plain
        split: option.splits resolved_scalar_expr.splits)
qed

lemma cell_at_present:
  assumes "cell_at tn cells col = Some c"
  shows "column_row_value_get col (row_text cells) tn = CrvPresent (cell_text c)" "Some c \<in> set cells"
proof -
  have g: "rc_table col = tn" "list_get cells (cm_index (rc_column_metadata col)) = Some (Some c)"
    using assms by (auto simp: cell_at_def bind_eq_Some_conv split: if_splits)
  then show "column_row_value_get col (row_text cells) tn = CrvPresent (cell_text c)"
    by (simp add: column_row_value_get_def row_text_def list_get_map)
  from g(2) show "Some c \<in> set cells"
    by (auto simp: list_get_def in_set_conv_nth split: if_splits)
qed

lemma column_compare:
  assumes "resolved_where_scalar_leaf e = Some (SColumn col)" "operand_cell tn cells e = Some x"
    and "literal_cell v = Some d" "cells_comparable coll op (Some x) (Some d)" "is_comparison op"
    and "\<forall>c. Some c \<in> set cells \<longrightarrow> cell_ok c"
  obtains t where "column_row_value_get col (row_text cells) tn = CrvPresent t"
    "where_value_compare_string v t op = op_sem (cell_lt coll) op x d"
proof -
  obtain c where c: "cell_at tn cells col = Some c" "x = c \<or> x = CellText (cell_text c)"
    using stripped_column [OF assms(1), of tn cells] assms(2)
    by (cases "cell_at tn cells col" rule: option.exhaust) auto
  show ?thesis
    using cell_at_present [OF c(1)] cell_compare [OF assms(5) _ c(2) assms(3,4)] assms(6) that by blast
qed

lemma comparison_agrees:
  assumes dec: "row_decidable coll tn cells (WBinary op l r)" and op: "is_comparison op"
    and known: "compare3 coll op (operand_cell tn cells l) (operand_cell tn cells r) = Some b"
    and ok: "\<forall>c. Some c \<in> set cells \<longrightarrow> cell_ok c"
  shows "expr_comparison_evaluate op l r (row_text cells) tn = b"
proof -
  obtain x y where xy: "operand_cell tn cells l = Some x" "operand_cell tn cells r = Some y"
      "b = op_sem (cell_lt coll) op x y"
    using known by (auto simp: compare3_def split: option.splits)
  from dec op obtain col op' v where can: "canonicalize_comparison op l r = Some (col, None, op', v)"
      and cc: "cells_comparable coll op (Some x) (Some y)"
    by (auto simp: xy split: option.splits)
  from can show ?thesis
  proof (cases rule: canonicalize_plain)
    case 1
    with stripped_literal [OF 1(2), of tn cells] xy
    have "literal_cell v = Some y" by simp
    from column_compare [OF 1(1) xy(1) this cc op ok] obtain t where
      "column_row_value_get col (row_text cells) tn = CrvPresent t"
      "where_value_compare_string v t op = op_sem (cell_lt coll) op x y" .
    with 1 can xy show ?thesis by (simp add: expr_comparison_evaluate_def)
  next
    case 2
    with stripped_literal [OF 2(1), of tn cells] xy have v: "literal_cell v = Some x" by simp
    have op': "is_comparison op'"
      using op_flip_involutive [OF 2(3)] op_flip_Some_iff [of op'] by blast
    from cc have "cells_comparable coll op' (Some y) (Some x)" by (simp add: cells_comparable_flip [OF 2(3)])
    from column_compare [OF 2(2) xy(2) v this op' ok] obtain t where
      "column_row_value_get col (row_text cells) tn = CrvPresent t"
      "where_value_compare_string v t op' = op_sem (cell_lt coll) op' y x" .
    with 2 can xy show ?thesis by (simp add: expr_comparison_evaluate_def op_sem_flip [OF 2(3)])
  qed
qed

lemma test_agrees:
  assumes "is_column_operand e" "test_column_ok op (operand_cell tn cells e)" "op \<noteq> UNot"
  shows "is_test op (operand_cell tn cells e) = Some (unary_expr_evaluate op e b (row_text cells) tn)"
proof -
  obtain col where e: "e = WScalar (SColumn col)"
    using assms(1) by (cases e rule: is_column_operand.cases) auto
  have v: "column_value_get col (row_text cells) tn = map_option cell_text (cell_at tn cells col)"
    by (cases "list_get cells (cm_index (rc_column_metadata col))")
      (auto simp: column_value_get_def cell_at_def row_text_def list_get_map)
  show ?thesis
    using assms(2,3)
    by (cases op; cases "cell_at tn cells col" rule: option.exhaust)
      (auto simp: e unary_expr_evaluate_def v text_in_def test_column_ok_def split: cell.splits if_splits)
qed

lemma evaluate_agrees:
  assumes "row_decidable coll tn cells e" "sql3 coll tn cells e = Some b"
    and "\<forall>c. Some c \<in> set cells \<longrightarrow> cell_ok c"
  shows "where_expr_evaluate e (row_text cells) tn = b"
  using assms
proof (induction coll tn cells e arbitrary: b rule: row_decidable.induct)
  case (1 coll tn cells op l r)
  consider "op = And" | "op = Or" | "is_comparison op" "op \<noteq> And" "op \<noteq> Or"
    using "1.prems"(1) by (auto split: if_splits)
  then show ?case
  proof cases
    case 1
    with "1.prems" have "row_decidable coll tn cells l" "row_decidable coll tn cells r"
      "and3 (sql3 coll tn cells l) (sql3 coll tn cells r) = Some b" by simp_all
    with "1.IH"(1,2) 1 "1.prems"(3) show ?thesis by (cases b) (auto simp: and3_def split: if_splits)
  next
    case 2
    with "1.prems" have "row_decidable coll tn cells l" "row_decidable coll tn cells r"
      "or3 (sql3 coll tn cells l) (sql3 coll tn cells r) = Some b" by simp_all
    with "1.IH"(1,2) 2 "1.prems"(3) show ?thesis by (cases b) (auto simp: or3_def split: if_splits)
  next
    case 3
    then show ?thesis using comparison_agrees [OF "1.prems"(1) 3(1) _ "1.prems"(3)] "1.prems"(2) by simp
  qed
next
  case (2 coll tn cells op e)
  show ?case
  proof (cases "op = UNot")
    case True
    with 2 show ?thesis by (auto simp: unary_expr_evaluate_def)
  next
    case False
    with 2 have e: "is_column_operand e" "test_column_ok op (operand_cell tn cells e)" by auto
    then have "sql3 coll tn cells (WUnary op e) = is_test op (operand_cell tn cells e)"
      using False by (cases e rule: is_column_operand.cases) auto
    with "2.prems"(2) have "is_test op (operand_cell tn cells e) = Some b" by (simp only:)
    with test_agrees [OF e False, of "where_expr_evaluate e (row_text cells) tn"]
    show ?thesis by simp
  qed
qed simp_all

lemma row_decidable_supported: "row_decidable coll tn cells e \<Longrightarrow> resolved_where_expr_supported e"
proof (induction coll tn cells e rule: row_decidable.induct)
  case (1 coll tn cells op l r)
  show ?case
  proof (cases "op = And \<or> op = Or")
    case True
    with 1 show ?thesis by auto
  next
    case False
    with "1.prems" have "is_comparison op" "is_simple_comparison op l r"
      by (auto simp: is_simple_comparison_def simp del: is_comparison.simps split: option.splits)
    with False show ?thesis by (simp del: is_comparison.simps)
  qed
next
  case (2 coll tn cells op e)
  show ?case
  proof (cases "op = UNot")
    case False
    with "2.prems" have "is_column_operand e" by simp
    then show ?thesis by (cases e rule: is_column_operand.cases) auto
  qed (use 2 in simp)
qed simp_all

text \<open>
  C23. The evaluator decides row membership as SQL does: on a row of integer (64-bit), text and
  boolean cells, for a \<open>WHERE\<close> clause of comparisons between a column and a literal of the same kind,
  of \<open>IS\<close> tests on columns and of \<open>AND\<close>, \<open>OR\<close>, \<open>NOT\<close>, whenever the three-valued truth of the clause
  is known, the evaluator returns it. Booleans are compared with \<open>=\<close> and \<open><>\<close> only. Texts are compared
  under the column's collation, an arbitrary order in which only equal strings are equal: with \<open>=\<close>
  and \<open><>\<close> for every collation, with an ordering operator where the collation orders the two strings
  as their bytes do, as the C collation always does. Such a clause is one the classifier supports.
\<close>

theorem evaluator_agrees_with_sql:
  assumes "row_decidable coll tn cells e" "\<forall>c. Some c \<in> set cells \<longrightarrow> cell_ok c"
  shows "resolved_where_expr_supported e \<and>
    sql3 coll tn cells e \<in> {None, Some (where_expr_evaluate e (row_text cells) tn)}"
  using evaluate_agrees [OF assms(1) _ assms(2)] row_decidable_supported [OF assms(1)]
  by (cases "sql3 coll tn cells e" rule: option.exhaust) auto

definition eval_column :: "string \<Rightarrow> nat \<Rightarrow> pg_type \<Rightarrow> resolved_column_node" where
  "eval_column name pos ty =
     \<lparr>rc_schema = ''public'', rc_table = ''t'', rc_table_alias = None, rc_column = name,
      rc_column_metadata =
        \<lparr>cm_name = name, cm_position = pos, cm_type_oid = 0, cm_data_type = ty, cm_type_name = [],
         cm_cache_type_name = [], cm_is_primary_key = False\<rparr>\<rparr>"

definition eval_sample :: resolved_where_expr where
  "eval_sample =
     WBinary Or
       (WBinary LessThan (WScalar (SLiteral (LInteger 9))) (WScalar (SColumn (eval_column ''id'' 1 TInt4))))
       (WUnary UNot (WBinary Equal (WScalar (SColumn (eval_column ''name'' 2 TText)))
          (WScalar (SLiteral (LString ''x'')))))"

lemmas eval_simps =
  eval_column_def eval_sample_def list_get_def cm_index_def cell_at_def row_text_def canonicalize_comparison_def
  canonicalize_left_def compare3_def and3_def or3_def expr_comparison_evaluate_def
  unary_expr_evaluate_def column_row_value_get_def column_value_get_def is_simple_comparison_def
  text_in_def Let_def

theorem evaluator_agrees_with_sql_witness:
  "where_expr_evaluate eval_sample (row_text [Some (CellInt 10), None]) ''t''"
proof -
  have "row_decidable (<) ''t'' [Some (CellInt 10), None] eval_sample"
    "sql3 (<) ''t'' [Some (CellInt 10), None] eval_sample = Some True" by (simp_all add: eval_simps)
  then show ?thesis
    using evaluator_agrees_with_sql [of "(<)" "''t''" "[Some (CellInt 10), None]" eval_sample]
    by (simp add: i64_range_def i64_min_def i64_max_def)
qed

subsection \<open>Where it does not\<close>

text \<open>
  The classifier calls a bare boolean column supported, but the evaluator answers \<open>False\<close> for
  it: a row with \<open>active = true\<close> never matches \<open>WHERE active\<close>. The same holds for an \<open>IS\<close>
  test of anything but a column.
\<close>

lemma bare_boolean_column_never_matches:
  "let e = WScalar (SColumn (eval_column ''active'' 1 TBool)) in
   resolved_where_expr_supported e \<and> sql3 (<) ''t'' [Some (CellBool True)] e = Some True \<and>
   \<not> where_expr_evaluate e (row_text [Some (CellBool True)]) ''t''"
  by (simp add: eval_simps)

lemma is_true_of_comparison_never_matches:
  "let e = WUnary UIsTrue (WBinary Equal (WScalar (SColumn (eval_column ''id'' 1 TInt4)))
             (WScalar (SLiteral (LInteger 5)))) in
   resolved_where_expr_supported e \<and> sql3 (<) ''t'' [Some (CellInt 5)] e = Some True \<and>
   \<not> where_expr_evaluate e (row_text [Some (CellInt 5)]) ''t''"
  by (simp add: eval_simps)

text \<open>
  An ordering comparison of text is decided by the bytes. Under a collation that orders \<open>a\<close> before
  \<open>B\<close>, as a linguistic one does, the row \<open>B\<close> satisfies \<open>name > 'a'\<close>, and the evaluator says no.
\<close>

lemma text_order_ignores_collation:
  assumes "coll ''a'' ''B''"
  shows "let e = WBinary GreaterThan (WScalar (SColumn (eval_column ''name'' 1 TText))) (WScalar (SLiteral (LString ''a''))) in
   resolved_where_expr_supported e \<and> sql3 coll ''t'' [Some (CellText ''B'')] e = Some True \<and>
   \<not> where_expr_evaluate e (row_text [Some (CellText ''B'')]) ''t''"
  using assms by (simp add: eval_simps cmp_def less_char_def)

text \<open>
  Literals keep the kind they were written with. An integer literal does not match the text of
  a numeric column with a fraction, and a string literal compares an integer column as text.
\<close>

lemma integer_literal_misses_fraction:
  "\<not> where_value_compare_string (LInteger 5) ''5.50'' GreaterThan"
  by (simp add: parse_i64_def is_digit_def)

lemma string_literal_orders_integers_as_text:
  "\<not> where_value_compare_string (LString ''5'') ''10'' GreaterThan"
  by (simp add: cmp_def less_char_def)

end
