(* ===== verification/Update_Queries.thy ===== *)
theory Update_Queries
  imports Constraint_Index
begin

text \<open>
  The update queries of one relation (\<^verbatim>\<open>src/cache/update_query.rs\<close>): the queries by
  fingerprint, the two constraint indexes over them, and the derived sets, reference counts and
  counters that the change-data path reads instead of scanning the queries.

  The invariant \<open>uqs_inv\<close> says that every derived structure is the one a recomputation from the
  queries would give; \<open>query_insert\<close> and \<open>query_remove\<close> keep it. The compiled predicate and
  the \<^verbatim>\<open>PgEval\<close> template of an update query are caches of its resolved form and are left out.
\<close>

subsection \<open>State\<close>

datatype update_eval_strategy = LocalEval | PgEval

record order_by_key =
  obk_column :: string
  obk_descending :: bool
  obk_nulls_first :: bool

record column_change =
  cch_changed :: bool
  cch_old_less_than_new :: "bool option"
  cch_old_is_null :: bool

type_synonym row_changes = "(string \<times> column_change) list"

datatype update_query_source =
    UsFromClause
  | UsSubquery subquery_kind
  | UsOuterJoinTerminal
  | UsOuterJoinOptional

record update_query =
  uq_fingerprint :: fingerprint
  uq_resolved :: resolved_query_expr
  uq_source :: update_query_source
  uq_constraints :: query_constraints
  uq_has_limit :: bool
  uq_eval_strategy :: update_eval_strategy
  uq_limit_window_columns :: "string list"
  uq_order_by_keys :: "order_by_key list option"
  uq_change_dependent :: bool
  uq_pg_batchable :: bool
  uq_predicate_columns :: "string list"
  uq_is_single_table :: bool

type_synonym 'a refcounts = "('a \<times> nat) list"

record update_queries =
  uqs_relation_oid :: oid
  uqs_queries :: "(fingerprint \<times> update_query) list"
  uqs_subsumption :: "fingerprint constraint_index"
  uqs_eval_index :: "fingerprint constraint_index"
  uqs_always_check :: "fingerprint list"
  uqs_has_limit_from :: "fingerprint list"
  uqs_limit_predicate_columns :: "string refcounts"
  uqs_limit_order_columns :: "string refcounts"
  uqs_epoch :: nat
  uqs_change_dependent_count :: nat

definition uqs_new :: "oid \<Rightarrow> update_queries" where
  "uqs_new relation_oid =
     \<lparr>uqs_relation_oid = relation_oid, uqs_queries = [], uqs_subsumption = ix_default,
      uqs_eval_index = ix_default, uqs_always_check = [], uqs_has_limit_from = [],
      uqs_limit_predicate_columns = [], uqs_limit_order_columns = [], uqs_epoch = 0,
      uqs_change_dependent_count = 0\<rparr>"

subsection \<open>Operations\<close>

fun source_always :: "update_query_source \<Rightarrow> bool" where
  "source_always (UsSubquery _) = True"
| "source_always UsOuterJoinOptional = True"
| "source_always _ = False"

definition update_invalidation_possible :: "update_query \<Rightarrow> string \<Rightarrow> bool" where
  "update_invalidation_possible q table_name \<longleftrightarrow>
     source_always (uq_source q) \<or>
     (uq_source q = UsFromClause \<and> uq_has_limit q \<and> uq_limit_window_columns q \<noteq> []) \<or>
     table_join_columns (uq_constraints q) table_name \<noteq> [] \<or>
     (uq_source q = UsFromClause \<and> \<not> uq_is_single_table q)"

definition carveout_membership :: "update_query \<Rightarrow> bool \<times> bool" where
  "carveout_membership q =
     (source_always (uq_source q), uq_has_limit q \<and> uq_source q = UsFromClause)"

definition refcount_step :: "bool \<Rightarrow> 'a \<Rightarrow> 'a refcounts \<Rightarrow> 'a refcounts" where
  "refcount_step added c counts =
     (if added then entry_update 0 (\<lambda>n. n + 1) c counts
      else (case map_of counts c of
              None \<Rightarrow> counts
            | Some n \<Rightarrow>
                if n - 1 = 0 then AList.delete c counts else AList.update c (n - 1) counts))"

definition column_refcounts_account :: "'a list \<Rightarrow> bool \<Rightarrow> 'a refcounts \<Rightarrow> 'a refcounts" where
  "column_refcounts_account columns added counts = fold (refcount_step added) columns counts"

definition order_columns :: "update_query \<Rightarrow> string list" where
  "order_columns q = (case uq_order_by_keys q of None \<Rightarrow> [] | Some ks \<Rightarrow> map obk_column ks)"

definition set_account :: "bool \<Rightarrow> fingerprint \<Rightarrow> fingerprint list \<Rightarrow> fingerprint list" where
  "set_account added fp xs = (if added then List.insert fp xs else removeAll fp xs)"

definition carveout_account :: "fingerprint \<Rightarrow> update_query \<Rightarrow> bool \<Rightarrow> update_queries \<Rightarrow> update_queries" where
  "carveout_account fp q added us =
     (let (always, limit_from) = carveout_membership q;
          us' = (if always
                 then us\<lparr>uqs_always_check := set_account added fp (uqs_always_check us)\<rparr> else us)
      in if limit_from then
           us'\<lparr>uqs_has_limit_from := set_account added fp (uqs_has_limit_from us'),
               uqs_limit_predicate_columns :=
                 column_refcounts_account (uq_predicate_columns q) added
                   (uqs_limit_predicate_columns us'),
               uqs_limit_order_columns :=
                 column_refcounts_account (order_columns q) added (uqs_limit_order_columns us')\<rparr>
         else us')"

definition change_dependent_account :: "bool \<Rightarrow> bool \<Rightarrow> update_queries \<Rightarrow> update_queries" where
  "change_dependent_account change_dependent added us =
     (if \<not> change_dependent then us
      else us\<lparr>uqs_change_dependent_count :=
        (if added then uqs_change_dependent_count us + 1 else uqs_change_dependent_count us - 1)\<rparr>)"

definition limit_order_columns :: "update_queries \<Rightarrow> string list" where
  "limit_order_columns us = map fst (uqs_limit_order_columns us)"

definition limit_predicate_changed :: "update_queries \<Rightarrow> row_changes \<Rightarrow> bool" where
  "limit_predicate_changed us row_changes =
     list_ex (\<lambda>(c, cc). cch_changed cc \<and> map_of (uqs_limit_predicate_columns us) c \<noteq> None) row_changes"

definition needs_change_eval :: "update_queries \<Rightarrow> bool" where
  "needs_change_eval us = (uqs_change_dependent_count us > 0)"

definition query_unaccount :: "fingerprint \<Rightarrow> update_query option \<Rightarrow> update_queries \<Rightarrow> update_queries" where
  "query_unaccount fp prev us =
     (case prev of
        None \<Rightarrow> us
      | Some q \<Rightarrow>
          carveout_account fp q False (change_dependent_account (uq_change_dependent q) False us))"

definition query_insert :: "update_query \<Rightarrow> update_queries \<Rightarrow> update_queries" where
  "query_insert q us =
     (let fp = uq_fingerprint q;
          us1 = us\<lparr>uqs_epoch := uqs_epoch us + 1\<rparr>;
          prev = map_of (uqs_queries us1) fp;
          us2 = us1\<lparr>uqs_queries := AList.delete fp (uqs_queries us1)\<rparr>;
          us3 = query_unaccount fp prev us2;
          us4 = change_dependent_account (uq_change_dependent q) True us3;
          us5 = carveout_account fp q True us4
      in us5\<lparr>uqs_queries := AList.update fp q (uqs_queries us5)\<rparr>)"

definition query_remove :: "fingerprint \<Rightarrow> update_queries \<Rightarrow> update_queries" where
  "query_remove fp us =
     (let removed = map_of (uqs_queries us) fp;
          us1 = us\<lparr>uqs_queries := AList.delete fp (uqs_queries us)\<rparr>
      in case removed of
           None \<Rightarrow> us1
         | Some q \<Rightarrow>
             query_unaccount fp (Some q) (us1\<lparr>uqs_epoch := uqs_epoch us1 + 1\<rparr>))"

subsection \<open>The invariant\<close>

definition refs :: "'a refcounts \<Rightarrow> 'a \<Rightarrow> nat" where
  "refs counts c = (case map_of counts c of None \<Rightarrow> 0 | Some n \<Rightarrow> n)"

definition counts_ok :: "'a refcounts \<Rightarrow> ('a \<Rightarrow> nat) \<Rightarrow> bool" where
  "counts_ok counts f \<longleftrightarrow> distinct (map fst counts) \<and> (\<forall>c. map_of counts c \<noteq> Some 0) \<and> refs counts = f"

definition is_limit_from :: "update_query \<Rightarrow> bool" where
  "is_limit_from q \<longleftrightarrow> uq_has_limit q \<and> uq_source q = UsFromClause"

definition limit_weight :: "(update_query \<Rightarrow> string list) \<Rightarrow> string \<Rightarrow> update_query \<Rightarrow> nat" where
  "limit_weight cols c q = (if is_limit_from q then count_list (cols q) c else 0)"

definition qsum :: "('v \<Rightarrow> nat) \<Rightarrow> ('k \<times> 'v) list \<Rightarrow> nat" where
  "qsum f qs = sum_list (map (\<lambda>(_, q). f q) qs)"

definition uqs_inv :: "update_queries \<Rightarrow> bool" where
  "uqs_inv us \<longleftrightarrow>
     distinct (map fst (uqs_queries us)) \<and>
     set (uqs_always_check us) = {fp. \<exists>q. map_of (uqs_queries us) fp = Some q \<and> source_always (uq_source q)} \<and>
     set (uqs_has_limit_from us) = {fp. \<exists>q. map_of (uqs_queries us) fp = Some q \<and> is_limit_from q} \<and>
     counts_ok (uqs_limit_predicate_columns us)
       (\<lambda>c. qsum (limit_weight uq_predicate_columns c) (uqs_queries us)) \<and>
     counts_ok (uqs_limit_order_columns us)
       (\<lambda>c. qsum (limit_weight order_columns c) (uqs_queries us)) \<and>
     uqs_change_dependent_count us = qsum (\<lambda>q. if uq_change_dependent q then 1 else 0) (uqs_queries us)"

subsection \<open>Reference counts\<close>

declare map_of_eq_Some_iff [simp del]

lemma refs_step:
  "refs (refcount_step True c m) c' = (if c = c' then refs m c + 1 else refs m c')"
  "\<forall>c. map_of m c \<noteq> Some 0 \<Longrightarrow>
   refs (refcount_step False c m) c' = (if c = c' then refs m c - 1 else refs m c')"
  by (auto simp: refs_def refcount_step_def map_of_update map_of_delete split: option.splits)

lemma refcount_step_distinct:
  "distinct (map fst m) \<Longrightarrow> distinct (map fst (refcount_step added c m))"
  by (auto simp: refcount_step_def distinct_update distinct_delete split: option.splits)

lemma refcount_step_pos:
  "\<forall>c. map_of m c \<noteq> Some 0 \<Longrightarrow> map_of (refcount_step added c m) c' \<noteq> Some 0"
  by (auto simp: refcount_step_def map_of_update map_of_delete split: option.splits)

lemmas refcount_step_ok = refcount_step_distinct refcount_step_pos

lemma counts_ok_add:
  "counts_ok m f \<Longrightarrow> counts_ok (column_refcounts_account cols True m) (\<lambda>c. f c + count_list cols c)"
proof (induction cols arbitrary: m f)
  case (Cons a cols)
  have "counts_ok (refcount_step True a m) (\<lambda>c. if c = a then f c + 1 else f c)"
    using Cons.prems by (simp add: counts_ok_def fun_eq_iff refs_step refcount_step_ok)
  from Cons.IH [OF this]
  have "counts_ok (column_refcounts_account (a # cols) True m)
      (\<lambda>c. (if c = a then f c + 1 else f c) + count_list cols c)"
    by (simp add: column_refcounts_account_def)
  moreover have "(\<lambda>c. (if c = a then f c + 1 else f c) + count_list cols c) =
      (\<lambda>c. f c + count_list (a # cols) c)" by auto
  ultimately show ?case by simp
qed (simp add: column_refcounts_account_def)

lemma counts_ok_sub:
  "counts_ok m f \<Longrightarrow> counts_ok (column_refcounts_account cols False m) (\<lambda>c. f c - count_list cols c)"
proof (induction cols arbitrary: m f)
  case (Cons a cols)
  have "counts_ok (refcount_step False a m) (\<lambda>c. if c = a then f c - 1 else f c)"
    using Cons.prems by (simp add: counts_ok_def fun_eq_iff refs_step refcount_step_ok)
  from Cons.IH [OF this]
  have "counts_ok (column_refcounts_account (a # cols) False m)
      (\<lambda>c. (if c = a then f c - 1 else f c) - count_list cols c)"
    by (simp add: column_refcounts_account_def)
  moreover have "(\<lambda>c. (if c = a then f c - 1 else f c) - count_list cols c) =
      (\<lambda>c. f c - count_list (a # cols) c)" by auto
  ultimately show ?case by simp
qed (simp add: column_refcounts_account_def)

subsection \<open>Sums over the queries\<close>

lemma qsum_delete:
  "distinct (map fst qs) \<Longrightarrow> map_of qs fp = Some q \<Longrightarrow> qsum f qs = f q + qsum f (AList.delete fp qs)"
proof (induction qs)
  case (Cons x qs)
  show ?case
  proof (cases "fst x = fp")
    case True
    then have "AList.delete fp qs = qs" using Cons.prems(1) by (simp add: delete_id)
    with True Cons.prems(2) show ?thesis by (cases x) (simp add: qsum_def)
  next
    case False
    with Cons show ?thesis by (cases x) (simp add: qsum_def)
  qed
qed simp

lemma qsum_update: "map_of qs fp = None \<Longrightarrow> qsum f (AList.update fp q qs) = f q + qsum f qs"
  by (induction qs) (auto simp: qsum_def split: if_splits)

lemma qsum_zero_iff: "qsum f qs = 0 \<longleftrightarrow> (\<forall>(fp, q)\<in>set qs. f q = 0)"
  by (induction qs) (auto simp: qsum_def)

subsection \<open>Preservation\<close>

lemma uqs_inv_epoch [simp]: "uqs_inv (us\<lparr>uqs_epoch := n\<rparr>) = uqs_inv us"
  by (simp add: uqs_inv_def)

lemma account_sel [simp]:
  "uqs_queries (carveout_account fp q added us) = uqs_queries us"
  "uqs_queries (change_dependent_account cd added us) = uqs_queries us"
  "uqs_queries (query_unaccount fp prev us) = uqs_queries us"
  "uqs_epoch (carveout_account fp q added us) = uqs_epoch us"
  "uqs_epoch (change_dependent_account cd added us) = uqs_epoch us"
  "uqs_epoch (query_unaccount fp prev us) = uqs_epoch us"
  by (auto simp: carveout_account_def change_dependent_account_def query_unaccount_def Let_def
      split: prod.splits option.splits)

abbreviation accounted :: "bool \<Rightarrow> fingerprint \<Rightarrow> update_query \<Rightarrow> update_queries \<Rightarrow> update_queries" where
  "accounted added fp q us \<equiv>
     carveout_account fp q added (change_dependent_account (uq_change_dependent q) added us)"

lemma account_fields: "uqs_always_check (accounted added fp q us) =
      (if source_always (uq_source q) then set_account added fp (uqs_always_check us) else uqs_always_check us)"
    "uqs_has_limit_from (accounted added fp q us) =
      (if is_limit_from q then set_account added fp (uqs_has_limit_from us) else uqs_has_limit_from us)"
    "uqs_limit_predicate_columns (accounted added fp q us) =
      (if is_limit_from q
       then column_refcounts_account (uq_predicate_columns q) added (uqs_limit_predicate_columns us)
       else uqs_limit_predicate_columns us)"
    "uqs_limit_order_columns (accounted added fp q us) =
      (if is_limit_from q
       then column_refcounts_account (order_columns q) added (uqs_limit_order_columns us)
       else uqs_limit_order_columns us)"
    "uqs_change_dependent_count (accounted added fp q us) =
      (if uq_change_dependent q
       then (if added then uqs_change_dependent_count us + 1 else uqs_change_dependent_count us - 1)
       else uqs_change_dependent_count us)"
  by (simp_all add: carveout_account_def carveout_membership_def change_dependent_account_def Let_def
      is_limit_from_def)

lemma uqs_invI:
  assumes "distinct (map fst (uqs_queries us))"
    and "set (uqs_always_check us) = {fp. \<exists>q. map_of (uqs_queries us) fp = Some q \<and> source_always (uq_source q)}"
    and "set (uqs_has_limit_from us) = {fp. \<exists>q. map_of (uqs_queries us) fp = Some q \<and> is_limit_from q}"
    and "counts_ok (uqs_limit_predicate_columns us)
       (\<lambda>c. qsum (limit_weight uq_predicate_columns c) (uqs_queries us))"
    and "counts_ok (uqs_limit_order_columns us)
       (\<lambda>c. qsum (limit_weight order_columns c) (uqs_queries us))"
    and "uqs_change_dependent_count us = qsum (\<lambda>q. if uq_change_dependent q then 1 else 0) (uqs_queries us)"
  shows "uqs_inv us"
  using assms by (simp add: uqs_inv_def)

lemma uqs_invD:
  assumes "uqs_inv us"
  shows "set (uqs_always_check us) = {fp. \<exists>q. map_of (uqs_queries us) fp = Some q \<and> source_always (uq_source q)}"
    "set (uqs_has_limit_from us) = {fp. \<exists>q. map_of (uqs_queries us) fp = Some q \<and> is_limit_from q}"
    "counts_ok (uqs_limit_predicate_columns us)
       (\<lambda>c. qsum (limit_weight uq_predicate_columns c) (uqs_queries us))"
    "counts_ok (uqs_limit_order_columns us)
       (\<lambda>c. qsum (limit_weight order_columns c) (uqs_queries us))"
  using assms unfolding uqs_inv_def by blast+

lemma unaccount_inv:
  assumes inv: "uqs_inv us" and q: "map_of (uqs_queries us) fp = Some q"
  shows "uqs_inv (query_unaccount fp (Some q) (us\<lparr>uqs_queries := AList.delete fp (uqs_queries us)\<rparr>))"
proof -
  let ?qs = "AList.delete fp (uqs_queries us)"
  let ?us' = "accounted False fp q (us\<lparr>uqs_queries := ?qs\<rparr>)"
  from inv have dist: "distinct (map fst (uqs_queries us))" by (simp add: uqs_inv_def)
  note del = qsum_delete [OF dist q]
  have counts: "counts_ok (if is_limit_from q then column_refcounts_account (cols q) False m else m)
      (\<lambda>c. qsum (limit_weight cols c) ?qs)"
    if "counts_ok m (\<lambda>c. qsum (limit_weight cols c) (uqs_queries us))" for m cols
    using counts_ok_sub [OF that, of "cols q"] that by (auto simp: del limit_weight_def)
  have sets: "set (if P q then set_account False fp xs else xs) =
      {fp'. \<exists>q. map_of ?qs fp' = Some q \<and> P q}"
    if "set xs = {fp. \<exists>q. map_of (uqs_queries us) fp = Some q \<and> P q}" for P xs
    using that q by (auto simp: set_account_def map_of_delete)
  have cd: "uqs_change_dependent_count us - (if uq_change_dependent q then 1 else 0) =
      qsum (\<lambda>q. if uq_change_dependent q then 1 else 0) ?qs"
    using inv by (simp add: uqs_inv_def del)
  show ?thesis
    unfolding query_unaccount_def option.case
  proof (rule uqs_invI)
    show "distinct (map fst (uqs_queries ?us'))" using dist by (simp add: distinct_delete)
    show "set (uqs_always_check ?us') =
        {fp. \<exists>q. map_of (uqs_queries ?us') fp = Some q \<and> source_always (uq_source q)}"
      using sets [where P = "\<lambda>q. source_always (uq_source q)", OF uqs_invD(1) [OF inv]]
      by (simp add: account_fields split: if_splits)
    show "set (uqs_has_limit_from ?us') = {fp. \<exists>q. map_of (uqs_queries ?us') fp = Some q \<and> is_limit_from q}"
      using sets [where P = is_limit_from, OF uqs_invD(2) [OF inv]]
      by (simp add: account_fields split: if_splits)
    show "counts_ok (uqs_limit_predicate_columns ?us')
        (\<lambda>c. qsum (limit_weight uq_predicate_columns c) (uqs_queries ?us'))"
      using counts [OF uqs_invD(3) [OF inv]] by (simp add: account_fields split: if_splits)
    show "counts_ok (uqs_limit_order_columns ?us') (\<lambda>c. qsum (limit_weight order_columns c) (uqs_queries ?us'))"
      using counts [OF uqs_invD(4) [OF inv]] by (simp add: account_fields split: if_splits)
    show "uqs_change_dependent_count ?us' =
        qsum (\<lambda>q. if uq_change_dependent q then 1 else 0) (uqs_queries ?us')"
      using cd by (simp add: account_fields split: if_splits)
  qed
qed

lemma account_inv:
  assumes inv: "uqs_inv us" and fresh: "map_of (uqs_queries us) fp = None"
  shows "uqs_inv ((accounted True fp q us)\<lparr>uqs_queries := AList.update fp q (uqs_queries us)\<rparr>)"
proof -
  let ?qs = "AList.update fp q (uqs_queries us)"
  let ?us' = "(accounted True fp q us)\<lparr>uqs_queries := ?qs\<rparr>"
  from inv have dist: "distinct (map fst (uqs_queries us))" by (simp add: uqs_inv_def)
  note upd = qsum_update [OF fresh]
  have counts: "counts_ok (if is_limit_from q then column_refcounts_account (cols q) True m else m)
      (\<lambda>c. qsum (limit_weight cols c) ?qs)"
    if "counts_ok m (\<lambda>c. qsum (limit_weight cols c) (uqs_queries us))" for m cols
    using counts_ok_add [OF that, of "cols q"] that by (auto simp: upd limit_weight_def add.commute)
  have sets: "set (if P q then set_account True fp xs else xs) =
      {fp'. \<exists>q. map_of ?qs fp' = Some q \<and> P q}"
    if "set xs = {fp. \<exists>q. map_of (uqs_queries us) fp = Some q \<and> P q}" for P xs
    using that fresh by (auto simp: set_account_def map_of_update)
  have cd: "uqs_change_dependent_count us + (if uq_change_dependent q then 1 else 0) =
      qsum (\<lambda>q. if uq_change_dependent q then 1 else 0) ?qs"
    using inv by (simp add: uqs_inv_def upd)
  show ?thesis
  proof (rule uqs_invI)
    show "distinct (map fst (uqs_queries ?us'))" using dist by (simp add: distinct_update)
    show "set (uqs_always_check ?us') =
        {fp. \<exists>q. map_of (uqs_queries ?us') fp = Some q \<and> source_always (uq_source q)}"
      using sets [where P = "\<lambda>q. source_always (uq_source q)", OF uqs_invD(1) [OF inv]]
      by (simp add: account_fields split: if_splits)
    show "set (uqs_has_limit_from ?us') = {fp. \<exists>q. map_of (uqs_queries ?us') fp = Some q \<and> is_limit_from q}"
      using sets [where P = is_limit_from, OF uqs_invD(2) [OF inv]]
      by (simp add: account_fields split: if_splits)
    show "counts_ok (uqs_limit_predicate_columns ?us')
        (\<lambda>c. qsum (limit_weight uq_predicate_columns c) (uqs_queries ?us'))"
      using counts [OF uqs_invD(3) [OF inv]] by (simp add: account_fields split: if_splits)
    show "counts_ok (uqs_limit_order_columns ?us') (\<lambda>c. qsum (limit_weight order_columns c) (uqs_queries ?us'))"
      using counts [OF uqs_invD(4) [OF inv]] by (simp add: account_fields split: if_splits)
    show "uqs_change_dependent_count ?us' =
        qsum (\<lambda>q. if uq_change_dependent q then 1 else 0) (uqs_queries ?us')"
      using cd by (simp add: account_fields split: if_splits)
  qed
qed

lemma epoch_queries_comm:
  "us\<lparr>uqs_epoch := n, uqs_queries := qs\<rparr> = us\<lparr>uqs_queries := qs, uqs_epoch := n\<rparr>"
  by simp

lemma account_epoch:
  "carveout_account fp q added (us\<lparr>uqs_epoch := n\<rparr>) = (carveout_account fp q added us)\<lparr>uqs_epoch := n\<rparr>"
  "change_dependent_account cd added (us\<lparr>uqs_epoch := n\<rparr>) =
     (change_dependent_account cd added us)\<lparr>uqs_epoch := n\<rparr>"
  "query_unaccount fp prev (us\<lparr>uqs_epoch := n\<rparr>) = (query_unaccount fp prev us)\<lparr>uqs_epoch := n\<rparr>"
  by (simp_all add: carveout_account_def change_dependent_account_def query_unaccount_def Let_def
      split: prod.splits option.splits)

lemma query_insert_inv:
  assumes "uqs_inv us"
  shows "uqs_inv (query_insert q us)"
proof -
  let ?fp = "uq_fingerprint q"
  let ?us2 = "us\<lparr>uqs_queries := AList.delete ?fp (uqs_queries us)\<rparr>"
  define us3 where "us3 = query_unaccount ?fp (map_of (uqs_queries us) ?fp) ?us2"
  have inv: "uqs_inv us3"
  proof (cases "map_of (uqs_queries us) ?fp")
    case None
    then have "AList.delete ?fp (uqs_queries us) = uqs_queries us"
      by (intro delete_id) (simp add: map_of_eq_None_iff)
    with None assms show ?thesis by (simp add: us3_def query_unaccount_def)
  next
    case Some
    with unaccount_inv [OF assms] show ?thesis by (simp add: us3_def)
  qed
  have fresh: "map_of (uqs_queries us3) ?fp = None" by (simp add: us3_def map_of_delete)
  have "query_insert q us =
      (accounted True ?fp q us3)\<lparr>uqs_queries := AList.update ?fp q (uqs_queries us3),
        uqs_epoch := uqs_epoch us + 1\<rparr>"
    by (simp add: query_insert_def Let_def us3_def epoch_queries_comm account_epoch)
  with account_inv [OF inv fresh] show ?thesis by simp
qed

lemma query_remove_inv:
  assumes "uqs_inv us"
  shows "uqs_inv (query_remove fp us)"
proof (cases "map_of (uqs_queries us) fp")
  case None
  then have "AList.delete fp (uqs_queries us) = uqs_queries us"
    by (intro delete_id) (simp add: map_of_eq_None_iff)
  with None assms show ?thesis by (simp add: query_remove_def)
next
  case (Some q)
  with unaccount_inv [OF assms Some] show ?thesis by (simp add: query_remove_def account_epoch)
qed

lemma uqs_new_inv: "uqs_inv (uqs_new oid)"
  by (simp add: uqs_inv_def uqs_new_def counts_ok_def refs_def qsum_def fun_eq_iff)

lemma queries_query_insert:
  "map_of (uqs_queries (query_insert q us)) = (map_of (uqs_queries us))(uq_fingerprint q \<mapsto> q)"
  by (auto simp: query_insert_def Let_def map_of_update map_of_delete fun_eq_iff)

lemma queries_query_remove:
  "map_of (uqs_queries (query_remove fp us)) = (map_of (uqs_queries us))(fp := None)"
  by (auto simp: query_remove_def Let_def map_of_delete fun_eq_iff split: option.splits)

subsection \<open>What the counters mean\<close>

lemma needs_change_eval_iff:
  assumes "uqs_inv us"
  shows "needs_change_eval us \<longleftrightarrow> (\<exists>fp q. map_of (uqs_queries us) fp = Some q \<and> uq_change_dependent q)"
proof -
  from assms have d: "distinct (map fst (uqs_queries us))" by (simp add: uqs_inv_def)
  have "uqs_change_dependent_count us = 0 \<longleftrightarrow> (\<forall>(fp, q)\<in>set (uqs_queries us). \<not> uq_change_dependent q)"
    using assms by (auto simp: uqs_inv_def qsum_zero_iff)
  then show ?thesis using map_of_eq_Some_iff [OF d] by (auto simp: needs_change_eval_def)
qed

lemma counted_iff:
  assumes "counts_ok m f"
  shows "map_of m c \<noteq> None \<longleftrightarrow> f c \<noteq> 0"
proof -
  from assms have "f c = refs m c" "map_of m c \<noteq> Some 0" by (simp_all add: counts_ok_def)
  then show ?thesis by (auto simp: refs_def split: option.splits)
qed

lemma limit_predicate_changed_iff:
  assumes "uqs_inv us"
  shows "limit_predicate_changed us row_changes \<longleftrightarrow>
    (\<exists>c cc fp q. (c, cc) \<in> set row_changes \<and> cch_changed cc \<and>
       map_of (uqs_queries us) fp = Some q \<and> is_limit_from q \<and> c \<in> set (uq_predicate_columns q))"
proof -
  from assms have d: "distinct (map fst (uqs_queries us))" by (simp add: uqs_inv_def)
  have "map_of (uqs_limit_predicate_columns us) c \<noteq> None \<longleftrightarrow>
      (\<exists>fp q. map_of (uqs_queries us) fp = Some q \<and> is_limit_from q \<and> c \<in> set (uq_predicate_columns q))" for c
    using counted_iff [OF uqs_invD(3) [OF assms]] map_of_eq_Some_iff [OF d]
    by (force simp: qsum_zero_iff limit_weight_def count_list_0_iff split: if_splits)
  then show ?thesis by (force simp: limit_predicate_changed_def list_ex_iff)
qed

subsection \<open>Change of the limit\<close>

text \<open>
  The re-indexing of one relation after a limit bump
  (\<^verbatim>\<open>subsumption_limit_reindex\<close> in \<^verbatim>\<open>src/cache/writer/registration/lifecycle.rs\<close>). It writes the
  \<open>has_limit\<close> bit of the stored query in place.
\<close>

definition limit_reindex :: "fingerprint \<Rightarrow> string option \<Rightarrow> bool \<Rightarrow> update_queries \<Rightarrow> update_queries" where
  "limit_reindex fp table_name has_limit us =
     (let us1 = us\<lparr>uqs_queries :=
            (case map_of (uqs_queries us) fp of
               None \<Rightarrow> uqs_queries us
             | Some q \<Rightarrow> AList.update fp (q\<lparr>uq_has_limit := has_limit\<rparr>) (uqs_queries us))\<rparr>
      in if has_limit then us1\<lparr>uqs_subsumption := ix_remove fp (uqs_subsumption us1)\<rparr>
         else (case table_name of
                 None \<Rightarrow> us1
               | Some name \<Rightarrow>
                   (case map_of (uqs_queries us1) fp of
                      None \<Rightarrow> us1
                    | Some q \<Rightarrow>
                        if qc_where_analysis_complete (uq_constraints q)
                        then us1\<lparr>uqs_subsumption :=
                               ix_insert fp (table_cs (uq_constraints q) name) (uqs_subsumption us1)\<rparr>
                        else us1)))"

definition sample_update_query :: "bool \<Rightarrow> update_query" where
  "sample_update_query limited =
     \<lparr>uq_fingerprint = 7,
      uq_resolved = QueryExpr (BValues []) [] None,
      uq_source = UsFromClause, uq_constraints = query_constraints_default,
      uq_has_limit = limited, uq_eval_strategy = LocalEval, uq_limit_window_columns = [''a''],
      uq_order_by_keys = Some [\<lparr>obk_column = ''a'', obk_descending = False, obk_nulls_first = False\<rparr>],
      uq_change_dependent = True, uq_pg_batchable = False, uq_predicate_columns = [''a''],
      uq_is_single_table = True\<rparr>"

text \<open>
  The in-place write bypasses the accounting: after a limited query loses its limit and is then
  removed, it is still listed among the limited queries and its columns are still counted.
\<close>

lemma limit_bump_leaks_accounting:
  "let us = query_remove 7 (limit_reindex 7 (Some ''t'') False (query_insert (sample_update_query True) (uqs_new 1)))
   in uqs_queries us = [] \<and> uqs_has_limit_from us = [7] \<and> uqs_limit_predicate_columns us = [(''a'', 1)] \<and>
      \<not> uqs_inv us"
  by (simp add: sample_update_query_def uqs_new_def query_insert_def query_remove_def limit_reindex_def
      query_unaccount_def carveout_account_def carveout_membership_def change_dependent_account_def
      set_account_def column_refcounts_account_def refcount_step_def entry_update_def order_columns_def
      query_constraints_default_def Let_def uqs_inv_def)

subsection \<open>Properties\<close>

datatype uqs_op = UqInsert update_query | UqRemove fingerprint

fun uqs_step :: "uqs_op \<Rightarrow> update_queries \<Rightarrow> update_queries" where
  "uqs_step (UqInsert q) us = query_insert q us"
| "uqs_step (UqRemove fp) us = query_remove fp us"

definition uqs_run :: "oid \<Rightarrow> uqs_op list \<Rightarrow> update_queries" where
  "uqs_run relation_oid ops = fold uqs_step ops (uqs_new relation_oid)"

lemma uqs_run_inv: "uqs_inv (uqs_run relation_oid ops)"
proof -
  have "uqs_inv us \<Longrightarrow> uqs_inv (fold uqs_step ops us)" for us
  proof (induction ops arbitrary: us)
    case (Cons op ops)
    then show ?case by (cases op) (simp_all add: query_insert_inv query_remove_inv)
  qed simp
  then show ?thesis by (simp add: uqs_run_def uqs_new_inv)
qed

text \<open>
  C18. The derived structures of a relation's update queries never drift: after any sequence of
  insertions (also replacements under the same fingerprint) and removals, the carve-out sets, the
  reference-counted column unions and the change-dependent count are the ones a recomputation
  from the stored queries gives.
\<close>

theorem update_queries_accounting: "uqs_inv (uqs_run relation_oid ops)"
  by (rule uqs_run_inv)


end
