(* ===== verification/Row_Match.thy ===== *)
theory Row_Match
  imports Evaluate Update_Queries
begin

text \<open>
  Tests of a changed row against an update query (\<^verbatim>\<open>src/cache/writer/cdc/row_match.rs\<close>).

  \<open>row_constraints_match\<close> is the precise check behind the point probe of the constraint index;
  the interface \<open>keyed_domain\<close> says what the probe needs of a column type so that it never misses
  an entry the precise check accepts. \<open>window_move_is_promotion\<close> recognises updates that move a
  row towards the front of an \<open>ORDER BY\<close>; the last part gives its meaning on sort tuples and
  shows that such a move opens no gap in the cached window of a \<open>LIMIT\<close> query.
\<close>

subsection \<open>Constraints\<close>

fun constraint_column :: "table_constraint \<Rightarrow> string" where
  "constraint_column (Comparison col _ _) = col"
| "constraint_column (AnyOf col _) = col"
| "constraint_column (CastComparison col _ _ _) = col"

fun constraint_value_matches :: "table_constraint \<Rightarrow> string \<Rightarrow> bool" where
  "constraint_value_matches (Comparison _ op val) row_str =
     where_value_compare_string val row_str op"
| "constraint_value_matches (AnyOf _ vals) row_str =
     list_ex (\<lambda>v. where_value_compare_string v row_str Equal) vals"
| "constraint_value_matches (CastComparison _ cast op val) row_str =
     (case cast_target_coerce_text cast row_str of
        None \<Rightarrow> False
      | Some coerced \<Rightarrow> literal_compare coerced op val)"

definition row_value_of :: "table_metadata \<Rightarrow> row_data \<Rightarrow> string \<Rightarrow> string option option" where
  "row_value_of table_metadata row_data column =
     Option.bind (cst_get (tm_columns table_metadata) column)
       (\<lambda>column_meta. list_get row_data (cm_index column_meta))"

definition constraint_row_matches :: "table_constraint \<Rightarrow> table_metadata \<Rightarrow> row_data \<Rightarrow> bool" where
  "constraint_row_matches constraint table_metadata row_data =
     (case row_value_of table_metadata row_data (constraint_column constraint) of
        None \<Rightarrow> True
      | Some None \<Rightarrow> False
      | Some (Some row_str) \<Rightarrow> constraint_value_matches constraint row_str)"

definition row_constraints_match :: "query_constraints \<Rightarrow> table_metadata \<Rightarrow> row_data \<Rightarrow> bool" where
  "row_constraints_match constraints table_metadata row_data =
     (case map_of (qc_table_constraints constraints) (tm_name table_metadata) of
        None \<Rightarrow> True
      | Some cs \<Rightarrow> list_all (\<lambda>c. constraint_row_matches c table_metadata row_data) cs)"

subsection \<open>Keys and windows\<close>

definition update_pk_changed :: "table_metadata \<Rightarrow> row_data \<Rightarrow> row_data \<Rightarrow> bool" where
  "update_pk_changed table_metadata key_data new_row_data =
     (if key_data = [] then False
      else if \<not> tm_replica_identity_full table_metadata then True
      else list_ex
             (\<lambda>pk. case cst_get (tm_columns table_metadata) pk of
                     None \<Rightarrow> True
                   | Some meta \<Rightarrow>
                       list_get key_data (cm_index meta) \<noteq> list_get new_row_data (cm_index meta))
             (tm_primary_key_columns table_metadata))"

definition column_changed :: "row_changes \<Rightarrow> string \<Rightarrow> bool" where
  "column_changed rc column =
     (case map_of rc column of None \<Rightarrow> False | Some cc \<Rightarrow> cch_changed cc)"

definition window_changes_are_order_keys ::
  "update_query \<Rightarrow> order_by_key list \<Rightarrow> row_changes \<Rightarrow> bool" where
  "window_changes_are_order_keys update_query keys rc =
     list_all (\<lambda>column. \<not> column_changed rc column \<or> list_ex (\<lambda>k. obk_column k = column) keys)
       (uq_limit_window_columns update_query)"

definition sort_key_move_is_forward :: "order_by_key \<Rightarrow> column_change \<Rightarrow> bool \<Rightarrow> bool" where
  "sort_key_move_is_forward key change new_is_null =
     (case (cch_old_is_null change, new_is_null) of
        (True, True) \<Rightarrow> False
      | (True, False) \<Rightarrow> \<not> obk_nulls_first key
      | (False, True) \<Rightarrow> obk_nulls_first key
      | (False, False) \<Rightarrow>
          (case cch_old_less_than_new change of
             Some True \<Rightarrow> obk_descending key
           | Some False \<Rightarrow> \<not> obk_descending key
           | None \<Rightarrow> False))"

text \<open>The loop over the keys: the first key whose value changed decides.\<close>

fun promotion_loop ::
  "order_by_key list \<Rightarrow> table_metadata \<Rightarrow> row_data \<Rightarrow> row_changes \<Rightarrow> bool" where
  "promotion_loop [] table_metadata row_data rc = False"
| "promotion_loop (key # keys) table_metadata row_data rc =
     (case map_of rc (obk_column key) of
        None \<Rightarrow> False
      | Some change \<Rightarrow>
          if \<not> cch_changed change then promotion_loop keys table_metadata row_data rc
          else (case row_value_of table_metadata row_data (obk_column key) of
                  None \<Rightarrow> False
                | Some new_value \<Rightarrow> sort_key_move_is_forward key change (new_value = None)))"

definition window_move_is_promotion ::
  "update_query \<Rightarrow> table_metadata \<Rightarrow> row_data \<Rightarrow> row_changes \<Rightarrow> bool" where
  "window_move_is_promotion update_query table_metadata row_data rc =
     (case uq_order_by_keys update_query of
        None \<Rightarrow> False
      | Some keys \<Rightarrow>
          if \<not> window_changes_are_order_keys update_query keys rc then False
          else promotion_loop keys table_metadata row_data rc)"

text \<open>The compiled predicate is the one built from the \<open>WHERE\<close> clause at registration.\<close>

definition update_query_matches_locally :: "compiled_predicate option \<Rightarrow> row_data \<Rightarrow> bool" where
  "update_query_matches_locally compiled_where row_data =
     (case compiled_where of None \<Rightarrow> True | Some predicate \<Rightarrow> cp_eval predicate row_data)"

definition join_membership_unchanged :: "update_query \<Rightarrow> table_metadata \<Rightarrow> row_data option \<Rightarrow> bool" where
  "join_membership_unchanged update_query table_metadata key_data =
     (if (case key_data of None \<Rightarrow> True | Some key \<Rightarrow> key \<noteq> []) then False
      else (let join_columns =
                  table_join_columns (uq_constraints update_query) (tm_name table_metadata)
            in join_columns \<noteq> [] \<and>
               list_all (\<lambda>col. col \<in> set (tm_primary_key_columns table_metadata)) join_columns))"

subsection \<open>Column types whose values have keys\<close>

locale keyed_domain = column_domain dl lt ok
  for dl :: "literal_value \<Rightarrow> 'v option" and lt :: "'v \<Rightarrow> 'v \<Rightarrow> bool" and ok :: "literal_value \<Rightarrow> bool" +
  fixes key :: "'v \<Rightarrow> value_key"
  assumes literal_key: "ok l \<Longrightarrow> dl l = Some x \<Longrightarrow> try_new l = Some (key x)"
    and key_mono: "lt x y \<Longrightarrow> key x \<le> key y"
begin

lemma key_admits_value:
  assumes lits: "\<forall>l\<in>range_lits r. ok l" and sem: "range_sem dl lt r (Some x)"
  shows "key_admits (placement_of r) (key x)"
proof (cases r)
  case (REqual l)
  with assms literal_key show ?thesis by (auto simp: placement_of_def split: option.splits)
next
  case (RInSet s)
  then obtain l where "l \<in> set s" "try_new l = Some (key x)"
    using assms literal_key by (auto simp: image_iff)
  then have "Some (key x) \<in> Some ` set ks" if "those (map try_new s) = Some ks" for ks
    using those_member [OF that] by metis
  then show ?thesis by (auto simp: RInSet placement_of_def split: option.splits)
next
  case (RRange lo up ne)
  have low: "\<exists>k. try_new (rb_value b) = Some k \<and> k \<le> key x" if "lo = Some b" for b
    using assms that literal_key key_mono
    by (fastforce simp: RRange bound_sem_def split: option.splits)
  have upp: "\<exists>k. try_new (rb_value b) = Some k \<and> key x \<le> k" if "up = Some b" for b
    using assms that literal_key key_mono
    by (fastforce simp: RRange bound_sem_def split: option.splits)
  show ?thesis
    using low upp by (cases lo; cases up) (fastforce simp: RRange placement_of_def)+
qed (use assms in \<open>auto simp: placement_of_def\<close>)

lemma column_forms_match:
  assumes lits: "\<forall>tc\<in>set cs. tc_column tc = c \<longrightarrow> (\<forall>l\<in>tc_lits tc. ok l)"
    and ord: "tcs_orderable (filter (\<lambda>tc. tc_column tc = c) cs)"
    and sem: "\<forall>tc\<in>set cs. tc_column tc = c \<and> \<not> tc_is_cast tc \<longrightarrow> tc_sem dl lt tc (Some x)"
    and form: "Some (REqual v) \<in> set forms" "try_new v = Some (key x)"
  shows "forms_match (column_range_of cs c) forms"
proof -
  have "key_admits (placement_of (column_range_of cs c)) (key x)"
  proof (cases "column_range_of cs c = RUnknown")
    case True
    then show ?thesis by (simp add: placement_of_def)
  next
    case False
    let ?cs = "filter (\<lambda>tc. tc_column tc = c) cs"
    from False have nc: "\<forall>tc\<in>set cs. tc_column tc = c \<longrightarrow> \<not> tc_is_cast tc"
      by (auto simp: column_range_of_def list_ex_iff split: if_splits)
    then have "filter (\<lambda>tc. tc_column tc = c \<and> \<not> tc_is_cast tc) cs = ?cs"
      by (intro filter_cong) auto
    with nc have eq: "column_range_of cs c = column_range_build ?cs"
      by (auto simp: column_range_of_def list_ex_iff)
    have li: "\<forall>tc\<in>set ?cs. \<forall>l\<in>tc_lits tc. ok l" using lits by auto
    note sound = column_range_build_sound [OF li ord False [unfolded eq]]
    show ?thesis
      unfolding eq
    proof (rule key_admits_value)
      show "\<forall>l\<in>range_lits (column_range_build ?cs). ok l" by (rule sound(2))
      show "range_sem dl lt (column_range_build ?cs) (Some x)" using sem nc sound(1) by auto
    qed
  qed
  with form show ?thesis by (force simp: forms_match_def in_forms_some)
qed

end

fun int_key :: "pg_num \<Rightarrow> value_key" where
  "int_key (Num (Fin r)) = VkNum (i64_as_f64 \<lfloor>r\<rfloor>)"
| "int_key (Num NegInf) = VkNum NegInf"
| "int_key _ = VkNum PosInf"

lemma int_key_mono: "num_lt x y \<Longrightarrow> int_key x \<le> int_key y"
  by (cases x rule: int_key.cases; cases y rule: int_key.cases)
    (auto simp: less_f64_def intro!: i64_as_f64_mono floor_mono)

interpretation int_keyed: keyed_domain num_dl num_lt is_int_lit int_key
  by unfold_locales (auto simp: is_int_lit_iff int_key_mono)

interpretation bool_keyed: keyed_domain bool_dl "(<)" is_bool_lit VkBool
  by unfold_locales (auto simp: is_bool_lit_iff)

interpretation text_keyed: keyed_domain text_dl "(<)" is_text_lit VkStr
  by unfold_locales (auto simp: is_text_lit_iff)

subsection \<open>The probe covers the precise check\<close>

lemma ordering_op_sem_all: "ordering_satisfies_op (cmp a b) op = op_sem (<) op a b"
  by (cases op) (auto simp: cmp_def)

lemma int_compare_sem:
  assumes "parse_i64 t = Some n" "is_int_lit l"
  shows "where_value_compare_string l t op = cmp_sem num_dl num_lt op l (Some (Num (Fin (of_int n))))"
  using assms by (cases op) (auto simp: is_int_lit_iff cmp_sem_def cmp_def less_f64_def split: if_splits)

lemma text_compare_sem:
  "is_text_lit l \<Longrightarrow> where_value_compare_string l t op = cmp_sem text_dl (<) op l (Some t)"
  by (auto simp: is_text_lit_iff cmp_sem_def ordering_op_sem_all)

lemma bool_compare_sem:
  assumes "where_value_compare_string l t op" "is_bool_lit l"
  shows "\<exists>a. bool_wire_text_parse t = Some a \<and> (op = Equal \<or> op = NotEqual) \<and>
    cmp_sem bool_dl (<) op l (Some a)"
  using assms
  by (auto simp: is_bool_lit_iff bool_text_compare_def cmp_sem_def split: option.splits if_splits)

lemma int_constraint_sem:
  assumes "constraint_value_matches tc t" "\<not> tc_is_cast tc" "\<forall>l\<in>tc_lits tc. is_int_lit l"
  shows "\<exists>n. parse_i64 t = Some n \<and> tc_sem num_dl num_lt tc (Some (Num (Fin (of_int n))))"
proof (cases "parse_i64 t")
  case None
  then have "\<not> where_value_compare_string l t op" if "is_int_lit l" for l op
    using that by (auto simp: is_int_lit_iff)
  with assms show ?thesis by (cases tc) (auto simp: list_ex_iff)
next
  case (Some n)
  with assms show ?thesis by (cases tc) (auto simp: list_ex_iff int_compare_sem [OF Some])
qed

lemma text_constraint_sem:
  assumes "constraint_value_matches tc t" "\<not> tc_is_cast tc" "\<forall>l\<in>tc_lits tc. is_text_lit l"
  shows "tc_sem text_dl (<) tc (Some t)"
  using assms by (cases tc) (auto simp: list_ex_iff text_compare_sem)

lemma bool_constraint_sem:
  assumes "constraint_value_matches tc t" "\<not> tc_is_cast tc" "\<forall>l\<in>tc_lits tc. is_bool_lit l"
  shows "\<exists>b. bool_wire_text_parse t = Some b \<and> tc_sem bool_dl (<) tc (Some b) \<and>
    (\<forall>(op, l)\<in>set (tc_comparisons tc). \<not> is_ordering op)"
  using assms bool_compare_sem [of _ t]
  by (cases tc) (fastforce simp: list_ex_iff is_ordering_def)+

definition column_kind_ok :: "table_constraint list \<Rightarrow> string \<Rightarrow> bool" where
  "column_kind_ok cs c \<longleftrightarrow>
     (\<exists>tc\<in>set cs. tc_column tc = c \<and> tc_is_cast tc) \<or>
     (\<forall>tc\<in>set cs. tc_column tc = c \<longrightarrow> (\<forall>l\<in>tc_lits tc. is_int_lit l)) \<or>
     (\<forall>tc\<in>set cs. tc_column tc = c \<longrightarrow> (\<forall>l\<in>tc_lits tc. is_bool_lit l)) \<or>
     (\<forall>tc\<in>set cs. tc_column tc = c \<longrightarrow> (\<forall>l\<in>tc_lits tc. is_text_lit l)) \<and>
       tcs_orderable (filter (\<lambda>tc. tc_column tc = c) cs)"

lemma no_ordering_orderable:
  assumes "\<forall>tc\<in>set cs. \<forall>(op, l)\<in>set (tc_comparisons tc). \<not> is_ordering op"
  shows "tcs_orderable cs"
  using assms by (fastforce simp: tcs_orderable_def orderable_def ord_lits_def)

lemma int_orderable:
  assumes "\<forall>tc\<in>set cs. \<forall>l\<in>tc_lits tc. is_int_lit l"
  shows "tcs_orderable cs"
  using int_col.ok_orderable assms by blast

lemma present_forms:
  assumes "row_value_of tm row c = Some (Some t)"
  shows "row_value_forms tm row c =
    [Some (REqual (LString t)), map_option (\<lambda>n. REqual (LFloat n)) (Option.bind (parse_f64 t) not_nan),
     map_option (\<lambda>b. REqual (LBoolean b)) (bool_wire_text_parse t)]"
  using assms by (auto simp: row_value_of_def row_value_forms_def bind_eq_Some_conv)

lemma absent_forms:
  assumes "row_value_of tm row c \<in> {None, Some None}"
  shows "row_value_forms tm row c = [Some RUnknown, None, None]"
  using assms by (auto simp: row_value_of_def row_value_forms_def bind_eq_Some_conv bind_eq_None_conv split: option.splits)

lemma forms_match_unknown:
  assumes "Some (REqual (LString t)) \<in> set forms"
  shows "forms_match RUnknown forms"
  using assms by (force simp: forms_match_def in_forms_some placement_of_def)

lemma row_forms_match:
  assumes kind: "column_kind_ok cs c" and c: "c \<in> tc_column ` set cs"
    and match: "\<forall>tc\<in>set cs. constraint_row_matches tc tm row"
  shows "forms_match (column_range_of cs c) (row_value_forms tm row c)"
proof (cases "row_value_of tm row c \<in> {None, Some None}")
  case True
  then show ?thesis
    by (simp add: absent_forms forms_match_def in_forms_some) (simp add: form_keys_def)
next
  case False
  then obtain t where t: "row_value_of tm row c = Some (Some t)" by auto
  let ?cs = "filter (\<lambda>tc. tc_column tc = c) cs" and ?forms = "row_value_forms tm row c"
  have col: "constraint_column tc = tc_column tc" for tc by (cases tc) auto
  have vm: "constraint_value_matches tc t" if "tc \<in> set cs" "tc_column tc = c" for tc
    using match that t by (auto simp: constraint_row_matches_def col)
  note forms = present_forms [OF t]
  obtain tc0 where tc0: "tc0 \<in> set cs" "tc_column tc0 = c" using c by auto
  consider (casts) "\<exists>tc\<in>set cs. tc_column tc = c \<and> tc_is_cast tc"
    | (ints) "\<forall>tc\<in>set cs. tc_column tc = c \<longrightarrow> \<not> tc_is_cast tc \<and> (\<forall>l\<in>tc_lits tc. is_int_lit l)"
    | (bools) "\<forall>tc\<in>set cs. tc_column tc = c \<longrightarrow> \<not> tc_is_cast tc \<and> (\<forall>l\<in>tc_lits tc. is_bool_lit l)"
    | (texts) "\<forall>tc\<in>set cs. tc_column tc = c \<longrightarrow> \<not> tc_is_cast tc \<and> (\<forall>l\<in>tc_lits tc. is_text_lit l)"
        "tcs_orderable ?cs"
    using kind unfolding column_kind_ok_def by blast
  then show ?thesis
  proof cases
    case casts
    then have "column_range_of cs c = RUnknown" by (auto simp: column_range_of_def list_ex_iff)
    then show ?thesis by (simp add: forms forms_match_unknown [of t])
  next
    case ints
    with vm [OF tc0] int_constraint_sem tc0 obtain n where n: "parse_i64 t = Some n" by blast
    show ?thesis
    proof (rule int_keyed.column_forms_match [where x = "Num (Fin (of_int n))" and v = "LFloat (i64_as_f64 n)"])
      show "tcs_orderable ?cs" using ints by (intro int_orderable) auto
      show "\<forall>tc\<in>set cs. tc_column tc = c \<and> \<not> tc_is_cast tc \<longrightarrow>
          tc_sem num_dl num_lt tc (Some (Num (Fin (of_int n))))"
        using ints vm int_constraint_sem [of _ t] n by fastforce
    qed (use ints n in \<open>auto simp: forms parse_f64_of_i64\<close>)
  next
    case bools
    with vm [OF tc0] bool_constraint_sem tc0 obtain b where b: "bool_wire_text_parse t = Some b" by blast
    show ?thesis
    proof (rule bool_keyed.column_forms_match [where x = b and v = "LBoolean b"])
      show "tcs_orderable ?cs"
        using bools vm bool_constraint_sem [of _ t] by (intro no_ordering_orderable) fastforce
      show "\<forall>tc\<in>set cs. tc_column tc = c \<and> \<not> tc_is_cast tc \<longrightarrow> tc_sem bool_dl (<) tc (Some b)"
        using bools vm bool_constraint_sem [of _ t] b by fastforce
    qed (use bools b in \<open>auto simp: forms\<close>)
  next
    case texts
    show ?thesis
    proof (rule text_keyed.column_forms_match [where x = t and v = "LString t"])
      show "\<forall>tc\<in>set cs. tc_column tc = c \<and> \<not> tc_is_cast tc \<longrightarrow> tc_sem text_dl (<) tc (Some t)"
        using texts vm text_constraint_sem by blast
    qed (use texts in \<open>auto simp: forms\<close>)
  qed
qed

text \<open>
  C27. The point probe never misses an entry the precise check accepts. After any sequence of
  insertions and removals, if a changed row satisfies every constraint of a registered entry by
  the row matcher, then probing the index with the forms of that row returns the entry. Each column
  of the entry is compared through a cast, or with integer literals only, or with boolean literals
  only, or with text literals only, and in that last case has no \<open>IN\<close> list together with an ordering
  bound (for those the range is built empty). Float literals are not covered: the row matcher
  compares floats up to an epsilon, the index by the exact key.
\<close>

theorem point_probe_covers_row_match:
  assumes "registered ops fp = Some cs" "\<forall>c. column_kind_ok cs c"
    and "\<forall>tc\<in>set cs. constraint_row_matches tc tm row"
  shows "fp \<in> set (candidates_point_into (ix_run ops) (row_value_forms tm row))"
  using row_forms_match assms(2,3)
  by (intro candidates_point_complete [OF ix_run_rel assms(1)]) blast

definition sample_table :: table_metadata where
  "sample_table =
     \<lparr>tm_relation_oid = 1, tm_name = ''t'', tm_schema = ''public'', tm_primary_key_columns = [''id''],
      tm_columns =
        column_store_new
          [\<lparr>cm_name = ''name'', cm_position = 2, cm_type_oid = 25, cm_data_type = TText,
            cm_type_name = ''text'', cm_cache_type_name = ''text'', cm_is_primary_key = False\<rparr>,
           \<lparr>cm_name = ''id'', cm_position = 1, cm_type_oid = 23, cm_data_type = TInt4,
            cm_type_name = ''int4'', cm_cache_type_name = ''int4'', cm_is_primary_key = True\<rparr>],
      tm_replica_identity_full = False\<rparr>"

lemmas sample_table_simps =
  sample_table_def column_store_new_def cst_get_def list_get_def cm_index_def row_value_of_def

theorem point_probe_covers_row_match_witness:
  "(7 :: nat) \<in> set (candidates_point_into
     (ix_run [(7, Some [Comparison ''id'' GreaterThan (LInteger 4), Comparison ''name'' Equal (LString ''x'')])])
     (row_value_forms sample_table [Some ''5'', Some ''x'']))"
proof (rule point_probe_covers_row_match)
  let ?cs = "[Comparison ''id'' GreaterThan (LInteger 4), Comparison ''name'' Equal (LString ''x'')]"
  show "registered [(7 :: nat, Some ?cs)] 7 = Some ?cs" by (simp add: registered_def)
  show "\<forall>c. column_kind_ok ?cs c"
    by (auto simp: column_kind_ok_def tcs_orderable_def orderable_def ord_lits_def)
  show "\<forall>tc\<in>set ?cs. constraint_row_matches tc sample_table [Some ''5'', Some ''x'']"
    by (simp add: constraint_row_matches_def sample_table_simps parse_i64_def is_digit_def digits_val_def
        digit_val_def i64_range_def i64_min_def i64_max_def)
qed

subsection \<open>Moves towards the front of an ordering\<close>

text \<open>
  A row has a value or \<open>NULL\<close> in every sort column. \<open>key_before\<close> is the strict order of one
  sort key, \<open>tuple_before\<close> the lexicographic order of all keys.
\<close>

type_synonym sort_row = "string \<Rightarrow> sql_value option"

definition key_before ::
  "(string \<Rightarrow> string \<Rightarrow> bool) \<Rightarrow> order_by_key \<Rightarrow> sql_value option \<Rightarrow> sql_value option \<Rightarrow> bool" where
  "key_before coll key a b =
     (case (a, b) of
        (None, None) \<Rightarrow> False
      | (None, Some _) \<Rightarrow> obk_nulls_first key
      | (Some _, None) \<Rightarrow> \<not> obk_nulls_first key
      | (Some x, Some y) \<Rightarrow> if obk_descending key then val_lt coll y x else val_lt coll x y)"

fun tuple_before ::
  "(string \<Rightarrow> string \<Rightarrow> bool) \<Rightarrow> order_by_key list \<Rightarrow> sort_row \<Rightarrow> sort_row \<Rightarrow> bool" where
  "tuple_before coll [] r s = False"
| "tuple_before coll (key # keys) r s =
     (key_before coll key (r (obk_column key)) (s (obk_column key)) \<or>
      r (obk_column key) = s (obk_column key) \<and> tuple_before coll keys r s)"

text \<open>
  What the lookup of the old image reports about a column that changes from \<open>old\<close> to \<open>new\<close>:
  the change flag is exact. The two ordering fields are filled in for \<open>ORDER BY\<close> columns of windowed
  queries only, and keep their defaults elsewhere: the null flag is set only if the old value is
  null, and the order is reported only between two values.
\<close>

definition change_describes ::
  "(string \<Rightarrow> string \<Rightarrow> bool) \<Rightarrow> column_change \<Rightarrow> sql_value option \<Rightarrow> sql_value option \<Rightarrow> bool" where
  "change_describes coll change old new \<longleftrightarrow>
     cch_changed change = (old \<noteq> new) \<and> (cch_old_is_null change \<longrightarrow> old = None) \<and>
     (\<forall>b. cch_old_less_than_new change = Some b \<longrightarrow>
        (\<exists>x y. old = Some x \<and> new = Some y \<and> b = val_lt coll x y))"

definition changes_describe ::
  "(string \<Rightarrow> string \<Rightarrow> bool) \<Rightarrow> row_changes \<Rightarrow> sort_row \<Rightarrow> sort_row \<Rightarrow> bool" where
  "changes_describe coll rc old new \<longleftrightarrow>
     (\<forall>(c, change)\<in>set rc. change_describes coll change (old c) (new c))"

definition row_holds :: "table_metadata \<Rightarrow> row_data \<Rightarrow> sort_row \<Rightarrow> bool" where
  "row_holds tm row new \<longleftrightarrow>
     (\<forall>c v. row_value_of tm row c = Some v \<longrightarrow> (v = None) = (new c = None))"

lemma forward_move_before:
  assumes "collation coll" "sort_key_move_is_forward key change (new = None)"
    and "change_describes coll change old new" "cch_changed change"
  shows "key_before coll key new old"
  using assms val_lt_total [OF assms(1)]
  by (cases old; cases new)
    (auto simp: sort_key_move_is_forward_def key_before_def change_describes_def
      split: option.splits bool.splits if_splits)

lemma promotion_before:
  assumes "collation coll" "promotion_loop keys tm row rc" "changes_describe coll rc old new" "row_holds tm row new"
  shows "tuple_before coll keys new old"
  using assms(2)
proof (induction keys)
  case (Cons key keys)
  then obtain change where change: "map_of rc (obk_column key) = Some change"
    by (auto split: option.splits)
  then have d: "change_describes coll change (old (obk_column key)) (new (obk_column key))"
    using assms(3) map_of_SomeD by (fastforce simp: changes_describe_def)
  show ?case
  proof (cases "cch_changed change")
    case True
    with Cons.prems change obtain v where v: "row_value_of tm row (obk_column key) = Some v"
      "sort_key_move_is_forward key change (v = None)" by (auto split: option.splits)
    then have "(v = None) = (new (obk_column key) = None)" using assms(4) by (auto simp: row_holds_def)
    with v(2) forward_move_before [OF assms(1) _ d True] show ?thesis by simp
  next
    case False
    with Cons change d show ?thesis by (simp add: change_describes_def)
  qed
qed simp

lemma key_before_trans:
  assumes "collation coll" "key_before coll key a b" "key_before coll key b c"
  shows "key_before coll key a c"
proof -
  define R where "R x y = (if obk_descending key then val_lt coll y x else val_lt coll x y)" for x y
  have kb: "key_before coll key u v =
      (case (u, v) of
         (None, None) \<Rightarrow> False
       | (None, Some _) \<Rightarrow> obk_nulls_first key
       | (Some _, None) \<Rightarrow> \<not> obk_nulls_first key
       | (Some x, Some y) \<Rightarrow> R x y)" for u v
    by (simp add: key_before_def R_def split: option.split)
  have R: "R x y \<Longrightarrow> R y z \<Longrightarrow> R x z" for x y z
    using val_lt_trans [OF assms(1), of x y z] val_lt_trans [OF assms(1), of z y x]
    by (auto simp: R_def split: if_splits)
  from assms(2,3) show ?thesis
    by (cases a; cases b; cases c) (simp_all add: kb, erule (1) R)
qed

lemma tuple_before_trans:
  assumes "collation coll" "tuple_before coll keys r s" "tuple_before coll keys s t"
  shows "tuple_before coll keys r t"
  using assms(2,3)
  by (induction keys) (auto dest: key_before_trans [OF assms(1)])

text \<open>
  The rows \<open>C\<close> in the cache serve the first \<open>n\<close> rows of the table's rows \<open>T\<close>: every row that is
  not cached has at least \<open>n\<close> cached rows that do not sort after it.
\<close>

definition window_covered ::
  "(string \<Rightarrow> string \<Rightarrow> bool) \<Rightarrow> order_by_key list \<Rightarrow> nat \<Rightarrow> 'r set \<Rightarrow> 'r set \<Rightarrow> ('r \<Rightarrow> sort_row) \<Rightarrow> bool" where
  "window_covered coll keys n C T row \<longleftrightarrow>
     (\<forall>t\<in>T - C. n \<le> card {c \<in> C. \<not> tuple_before coll keys (row t) (row c)})"

lemma window_covered_forward:
  assumes "collation coll" "finite C" "r \<in> C" "tuple_before coll keys new (row r)"
    and "window_covered coll keys n C T row"
  shows "window_covered coll keys n C T (row(r := new))"
  unfolding window_covered_def
proof
  fix t assume t: "t \<in> T - C"
  with assms(3) have "t \<noteq> r" by auto
  have "{c \<in> C. \<not> tuple_before coll keys (row t) (row c)} \<subseteq>
      {c \<in> C. \<not> tuple_before coll keys ((row(r := new)) t) ((row(r := new)) c)}"
    using \<open>t \<noteq> r\<close> tuple_before_trans [OF assms(1) _ assms(4)] by auto
  then have "card {c \<in> C. \<not> tuple_before coll keys (row t) (row c)} \<le>
      card {c \<in> C. \<not> tuple_before coll keys ((row(r := new)) t) ((row(r := new)) c)}"
    using assms(2) by (intro card_mono) auto
  moreover have "n \<le> card {c \<in> C. \<not> tuple_before coll keys (row t) (row c)}"
    using assms(5) t unfolding window_covered_def by blast
  ultimately show "n \<le> card {c \<in> C. \<not> tuple_before coll keys ((row(r := new)) t) ((row(r := new)) c)}"
    by (rule order_trans [rotated])
qed

text \<open>
  C28. A promotion needs no invalidation: when the code classifies an update of a cached row as a
  move towards the front of the \<open>ORDER BY\<close>, and the cached rows served the first \<open>n\<close> rows before,
  they serve the first \<open>n\<close> rows after the row is updated in place. Of the reported changes it is
  assumed that the change flag of each reported column is exact, that a column is reported as
  formerly null only if it was, and that an order is reported only between two values and is then
  right; the ordering fields may be missing. Ascending, descending and both placements of \<open>NULL\<close>
  are covered.
\<close>

theorem promotion_keeps_window:
  assumes "collation coll" "window_move_is_promotion q tm row_data rc"
    and "uq_order_by_keys q = Some keys" "row_holds tm row_data new"
    and "changes_describe coll rc (row r) new" "finite C" "r \<in> C"
    and "window_covered coll keys n C T row"
  shows "window_covered coll keys n C T (row(r := new))"
proof -
  have "promotion_loop keys tm row_data rc"
    using assms(2,3) by (simp add: window_move_is_promotion_def split: if_splits)
  from window_covered_forward [OF assms(1,6,7) promotion_before [OF assms(1) this assms(5,4)] assms(8)]
  show ?thesis .
qed

definition int_row :: "int \<Rightarrow> sort_row" where
  "int_row n = (\<lambda>_. Some (VNum (Num (Fin (of_int n)))))"

theorem promotion_keeps_window_witness:
  "window_covered (<) [\<lparr>obk_column = ''id'', obk_descending = True, obk_nulls_first = True\<rparr>] 1
     {1 :: nat} {1, 2} ((\<lambda>i. int_row (if i = 1 then 5 else 3))(1 := int_row 9))"
proof (rule promotion_keeps_window)
  let ?key = "\<lparr>obk_column = ''id'', obk_descending = True, obk_nulls_first = True\<rparr>"
  let ?q = "(sample_update_query True)\<lparr>uq_limit_window_columns := [''id''], uq_order_by_keys := Some [?key]\<rparr>"
  let ?rc = "[(''id'', \<lparr>cch_changed = True, cch_old_less_than_new = Some True, cch_old_is_null = False\<rparr>)]"
  show "window_move_is_promotion ?q sample_table [Some ''9'', Some ''x''] ?rc"
    by (simp add: window_move_is_promotion_def window_changes_are_order_keys_def column_changed_def
        sample_table_simps sort_key_move_is_forward_def)
  show "row_holds sample_table [Some ''9'', Some ''x''] (int_row 9)"
    by (auto simp: row_holds_def int_row_def sample_table_simps split: if_splits)
  show "window_covered (<) [?key] 1 {1 :: nat} {1, 2} (\<lambda>i. int_row (if i = 1 then 5 else 3))"
    by (auto simp: window_covered_def key_before_def int_row_def intro: card_gt_0_iff [THEN iffD2])
qed (auto simp: sample_update_query_def changes_describe_def change_describes_def int_row_def
      c_collation.collation_axioms)

end
