(* ===== verification/Extract_Sound.thy ===== *)
theory Extract_Sound
  imports Extract
begin

text \<open>
  What the extracted constraints say about the rows a query selects.

  A query is evaluated on one row per range variable of its \<open>FROM\<close> clause, a table name with
  its alias: \<open>rows t a (c, None)\<close> is the value of column \<open>c\<close> and \<open>rows t a (c, Some cast)\<close> the
  value of \<open>c::cast\<close>. The truth of expressions outside the analysed fragment (functions, \<open>OR\<close>,
  subqueries) is a parameter \<open>ow\<close>, the value of scalar operands outside it a parameter \<open>os\<close>.

  Two directions are shown. The constraints of a query with inner joins and no self-join are
  necessary: a selected row satisfies all of them, propagated ones included. The constraints of a
  completely analysed single-table query are sufficient, which is what lets a cached query without
  constraints count as a full scan. The last section shows what goes wrong elsewhere: the analysis
  records constraints under the bare table name and does not look at the join type.
\<close>

subsection \<open>Evaluation of the analysed fragment\<close>

type_synonym range_var = "string \<times> string option"
type_synonym table_rows = "string \<Rightarrow> string option \<Rightarrow> table_row"

fun scalar_eval ::
  "(resolved_scalar_expr \<Rightarrow> sql_value option) \<Rightarrow> table_rows \<Rightarrow> resolved_scalar_expr
   \<Rightarrow> sql_value option" where
  "scalar_eval os rows (SColumn c) = rows (rc_table c) (rc_table_alias c) (rc_column c, None)"
| "scalar_eval os rows (SLiteral l) = val_dl l"
| "scalar_eval os rows (STypeCast (SColumn c) t) =
     (if cast_target_is_identity_on t (cm_data_type (rc_column_metadata c))
      then rows (rc_table c) (rc_table_alias c) (rc_column c, None)
      else rows (rc_table c) (rc_table_alias c) (rc_column c, Some t))"
| "scalar_eval os rows e = os e"

fun operand_eval ::
  "(resolved_scalar_expr \<Rightarrow> sql_value option) \<Rightarrow> (resolved_where_expr \<Rightarrow> sql_value option)
   \<Rightarrow> table_rows \<Rightarrow> resolved_where_expr \<Rightarrow> sql_value option" where
  "operand_eval os oo rows (WScalar s) = scalar_eval os rows s"
| "operand_eval os oo rows e = oo e"

definition cmp2 ::
  "(string \<Rightarrow> string \<Rightarrow> bool) \<Rightarrow> binary_op \<Rightarrow> sql_value option \<Rightarrow> sql_value option \<Rightarrow> bool" where
  "cmp2 coll op a b = (case (a, b) of (Some x, Some y) \<Rightarrow> op_sem (val_lt coll) op x y | _ \<Rightarrow> False)"

fun array_elems ::
  "(resolved_scalar_expr \<Rightarrow> sql_value option) \<Rightarrow> table_rows \<Rightarrow> resolved_scalar_expr
   \<Rightarrow> sql_value option list option" where
  "array_elems os rows (SLiteral (LArray vs _)) = Some (map val_dl vs)"
| "array_elems os rows (SArray es) = Some (map (scalar_eval os rows) es)"
| "array_elems os rows _ = None"

record where_env =
  we_coll :: "string \<Rightarrow> string \<Rightarrow> bool"
  we_scalar :: "resolved_scalar_expr \<Rightarrow> sql_value option"
  we_operand :: "resolved_where_expr \<Rightarrow> sql_value option"
  we_where :: "resolved_where_expr \<Rightarrow> bool"
  we_rows :: table_rows

definition opv :: "where_env \<Rightarrow> resolved_where_expr \<Rightarrow> sql_value option" where
  "opv E = operand_eval (we_scalar E) (we_operand E) (we_rows E)"

fun multi_true :: "where_env \<Rightarrow> multi_op \<Rightarrow> resolved_where_expr list \<Rightarrow> bool" where
  "multi_true E MBetween [x, lo, hi] =
     (cmp2 (we_coll E) GreaterThanOrEqual (opv E x) (opv E lo) \<and>
      cmp2 (we_coll E) LessThanOrEqual (opv E x) (opv E hi))"
| "multi_true E MBetweenSymmetric [x, lo, hi] =
     (cmp2 (we_coll E) GreaterThanOrEqual (opv E x) (opv E lo) \<and>
      cmp2 (we_coll E) LessThanOrEqual (opv E x) (opv E hi) \<or>
      cmp2 (we_coll E) GreaterThanOrEqual (opv E x) (opv E hi) \<and>
      cmp2 (we_coll E) LessThanOrEqual (opv E x) (opv E lo))"
| "multi_true E MIn (x # vs) = (\<exists>v\<in>set vs. cmp2 (we_coll E) Equal (opv E x) (opv E v))"
| "multi_true E MNotIn (x # vs) = (\<forall>v\<in>set vs. cmp2 (we_coll E) NotEqual (opv E x) (opv E v))"
| "multi_true E (MAny Equal) [x, WScalar rhs] =
     (case array_elems (we_scalar E) (we_rows E) rhs of
        Some vs \<Rightarrow> \<exists>v\<in>set vs. cmp2 (we_coll E) Equal (opv E x) v
      | None \<Rightarrow> we_where E (WMulti (MAny Equal) [x, WScalar rhs]))"
| "multi_true E op es = we_where E (WMulti op es)"

fun where_true :: "where_env \<Rightarrow> resolved_where_expr \<Rightarrow> bool" where
  "where_true E (WBinary op l r) =
     (if op = And then where_true E l \<and> where_true E r
      else if is_comparison op then cmp2 (we_coll E) op (opv E l) (opv E r)
      else we_where E (WBinary op l r))"
| "where_true E (WMulti op es) = multi_true E op es"
| "where_true E e = we_where E e"

text \<open>
  The range variables of a \<open>FROM\<close> entry. The columns of a derived table carry its alias as table
  name and as alias.
\<close>

fun source_ranges :: "resolved_table_source \<Rightarrow> range_var list" where
  "source_ranges (SrcTable t) = [(rt_name t, rt_alias t)]"
| "source_ranges (SrcSubquery _ a _) = [(ta_name a, Some (ta_name a))]"
| "source_ranges (SrcJoin _ l r _) = source_ranges l @ source_ranges r"

definition range_vars :: "select_node \<Rightarrow> range_var list" where
  "range_vars s = concat (map source_ranges (sn_from s))"

definition null_side :: "where_env \<Rightarrow> resolved_table_source \<Rightarrow> bool" where
  "null_side E src \<longleftrightarrow> (\<forall>(t, a)\<in>set (source_ranges src). \<forall>b. we_rows E t a b = None)"

text \<open>
  A combination of rows passes a join when the predicate holds of it; an outer join also passes
  the rows of its preserved side with the other side all null. Whether a partner exists is not a
  property of one combination of rows, so the null-extended combination is admitted regardless:
  with outer joins \<open>select_true\<close> is an upper bound of what the query returns, with inner joins it
  is exact.
\<close>

fun join_true :: "where_env \<Rightarrow> resolved_table_source \<Rightarrow> bool" where
  "join_true E (SrcJoin jt l r qual) =
     ((case join_predicate qual of Some c \<Rightarrow> where_true E c | None \<Rightarrow> True) \<and>
        join_true E l \<and> join_true E r \<or>
      (jt = JLeft \<or> jt = JFull) \<and> join_true E l \<and> null_side E r \<or>
      (jt = JRight \<or> jt = JFull) \<and> null_side E l \<and> join_true E r)"
| "join_true E _ = True"

definition select_true :: "where_env \<Rightarrow> select_node \<Rightarrow> bool" where
  "select_true E s \<longleftrightarrow>
     (case sn_where_clause s of Some e \<Rightarrow> where_true E e | None \<Rightarrow> True) \<and>
     (\<forall>src\<in>set (sn_from s). join_true E src)"

subsection \<open>Scopes\<close>

text \<open>The columns that \<open>where_true\<close> and \<open>join_true\<close> read.\<close>

fun scalar_columns :: "resolved_scalar_expr \<Rightarrow> resolved_column_node list" where
  "scalar_columns (SColumn c) = [c]"
| "scalar_columns (STypeCast (SColumn c) t) = [c]"
| "scalar_columns (SArray es) = concat (map scalar_columns es)"
| "scalar_columns _ = []"

fun where_columns :: "resolved_where_expr \<Rightarrow> resolved_column_node list" where
  "where_columns (WScalar s) = scalar_columns s"
| "where_columns (WBinary _ l r) = where_columns l @ where_columns r"
| "where_columns (WMulti _ es) = concat (map where_columns es)"
| "where_columns _ = []"

fun source_columns :: "resolved_table_source \<Rightarrow> resolved_column_node list" where
  "source_columns (SrcJoin _ l r qual) =
     (case join_predicate qual of Some c \<Rightarrow> where_columns c | None \<Rightarrow> []) @
     source_columns l @ source_columns r"
| "source_columns _ = []"

definition select_columns :: "select_node \<Rightarrow> resolved_column_node list" where
  "select_columns s =
     (case sn_where_clause s of Some e \<Rightarrow> where_columns e | None \<Rightarrow> []) @
     concat (map source_columns (sn_from s))"

text \<open>
  \<open>scoped s\<close>: every column the analysed fragment reads belongs to a range variable of the \<open>FROM\<close>
  clause, as name resolution makes it, and not to an enclosing query. \<open>no_self_join s\<close>: no table
  name occurs twice in the \<open>FROM\<close> clause. \<open>inner_joins s\<close>: all joins are inner joins.
\<close>

definition scoped :: "select_node \<Rightarrow> bool" where
  "scoped s \<longleftrightarrow> (\<forall>c\<in>set (select_columns s). (rc_table c, rc_table_alias c) \<in> set (range_vars s))"

definition no_self_join :: "select_node \<Rightarrow> bool" where
  "no_self_join s \<longleftrightarrow> distinct (map fst (range_vars s))"

fun inner_source :: "resolved_table_source \<Rightarrow> bool" where
  "inner_source (SrcJoin jt l r _) \<longleftrightarrow> jt = JInner \<and> inner_source l \<and> inner_source r"
| "inner_source _ \<longleftrightarrow> True"

definition inner_joins :: "select_node \<Rightarrow> bool" where
  "inner_joins s \<longleftrightarrow> (\<forall>src\<in>set (sn_from s). inner_source src)"

subsection \<open>Extractable shapes\<close>

text \<open>
  The shapes for which the \<open>BETWEEN\<close>, \<open>IN\<close> and \<open>NOT IN\<close> extractors produce constraints; on
  other shapes they return without marking the analysis incomplete.
\<close>

fun between_extractable :: "multi_op \<Rightarrow> resolved_where_expr list \<Rightarrow> bool" where
  "between_extractable op [WScalar (SColumn _), WScalar (SLiteral lo), WScalar (SLiteral hi)] =
     (between_bounds op lo hi \<noteq> None)"
| "between_extractable op _ = False"

fun in_extractable :: "resolved_where_expr list \<Rightarrow> bool" where
  "in_extractable (WScalar (SColumn _) # vs) = (in_literals vs \<noteq> None)"
| "in_extractable _ = False"

fun extractable :: "resolved_where_expr \<Rightarrow> bool" where
  "extractable (WBinary op l r) = (op = And \<longrightarrow> extractable l \<and> extractable r)"
| "extractable (WMulti op es) =
     (if op = MBetween \<or> op = MBetweenSymmetric then between_extractable op es
      else if op = MIn \<or> op = MNotIn then in_extractable es
      else True)"
| "extractable _ = True"

subsection \<open>Meaning of constraints\<close>

definition cc_sem :: "where_env \<Rightarrow> column_constraint \<Rightarrow> bool" where
  "cc_sem E c =
     tc_sem val_dl (val_lt (we_coll E)) (table_constraint_of c)
       (we_rows E (rc_table (cc_column c)) (rc_table_alias (cc_column c)) (tc_bucket (table_constraint_of c)))"

definition eqv_sem :: "where_env \<Rightarrow> column_equivalence \<Rightarrow> bool" where
  "eqv_sem E e = cmp2 (we_coll E) Equal
     (we_rows E (rc_table (eq_left e)) (rc_table_alias (eq_left e)) (rc_column (eq_left e), None))
     (we_rows E (rc_table (eq_right e)) (rc_table_alias (eq_right e)) (rc_column (eq_right e), None))"

definition cl_sem :: "where_env \<Rightarrow> constraint_collector \<Rightarrow> bool" where
  "cl_sem E cl \<longleftrightarrow>
     (\<forall>c\<in>set (cl_constraints cl). cc_sem E c) \<and> (\<forall>e\<in>set (cl_equivalences cl). eqv_sem E e)"

lemma set_insert_canonical [simp]: "set (insert_canonical v vs) = insert v (set vs)"
  by (induction v vs rule: insert_canonical.induct) auto

lemma set_dedup_sort [simp]: "set (dedup (sort_canonical vs)) = set vs"
proof -
  have "set (foldr insert_canonical vs ws) = set vs \<union> set ws" for ws
    by (induction vs) auto
  then show ?thesis by (simp add: dedup_def sort_canonical_def)
qed

lemma cmp2_flip: "op_flip op = Some op' \<Longrightarrow> cmp2 coll op a b = cmp2 coll op' b a"
  by (cases op) (auto simp: cmp2_def split: option.splits)

lemma strip_eval [simp]:
  "scalar_eval os rows (resolved_strip_identity_cast s) = scalar_eval os rows s"
  by (cases s rule: resolved_strip_identity_cast.cases) auto

lemma leaf_eval:
  "resolved_where_scalar_leaf e = Some s \<Longrightarrow> opv E e = scalar_eval (we_scalar E) (we_rows E) s"
  by (cases e) (auto simp: opv_def)

lemma literal_order_values:
  assumes "literal_value_order a b = Some r" "collation coll"
  obtains x y where "val_dl a = Some x" "val_dl b = Some y"
    "r = OrdLess \<Longrightarrow> val_lt coll x y" "r = OrdEqual \<Longrightarrow> x = y" "r = OrdGreater \<Longrightarrow> val_lt coll y x"
  using assms(1) by (cases a; cases b) (auto simp: cmp_def split: if_splits)

lemma between_swap:
  assumes coll: "collation coll" and le: "val_lt coll y z \<or> y = z"
    and u: "cmp2 coll GreaterThanOrEqual a (Some z) \<and> cmp2 coll LessThanOrEqual a (Some y)"
  shows "cmp2 coll GreaterThanOrEqual a (Some y) \<and> cmp2 coll LessThanOrEqual a (Some z)"
proof -
  from u obtain x where x: "a = Some x" "val_lt coll z x \<or> x = z" "val_lt coll x y \<or> x = y"
    by (auto simp: cmp2_def split: option.splits)
  have "x = y \<and> x = z"
    using le x(2,3) val_lt_irrefl [OF coll] val_lt_trans [OF coll] by metis
  then show ?thesis by (auto simp: x(1) cmp2_def)
qed

lemma in_literals_map: "in_literals es = Some vs \<Longrightarrow> es = map (\<lambda>v. WScalar (SLiteral v)) vs"
  by (induction es arbitrary: vs rule: in_literals.induct) (auto split: if_splits)

lemma array_literals_map: "array_literals es = Some vs \<Longrightarrow> es = map SLiteral vs"
  by (induction es arbitrary: vs rule: array_literals.induct) auto

lemma any_literals_elems:
  "any_literals rhs = Some vs \<Longrightarrow> array_elems os rows rhs = Some (map val_dl vs)"
  by (cases rhs rule: any_literals.cases) (auto dest!: array_literals_map)

subsection \<open>Propagation and grouping by table\<close>

lemma propagate_constraints_mono: "set cs \<subseteq> set (propagate_constraints cs es)"
proof (induction cs es rule: propagate_constraints.induct)
  case (1 cs es)
  have "set cs \<subseteq> set (propagate_round es cs)"
    by (simp add: propagate_round_def set_cc_insert_fold_mono)
  with 1 show ?case by (subst propagate_constraints.simps) (auto simp: Let_def)
qed

lemma propagate_constraints_fixpoint:
  "propagate_round es (propagate_constraints cs es) = propagate_constraints cs es"
proof (induction cs es rule: propagate_constraints.induct)
  case (1 cs es)
  show ?case
  proof (cases "length (propagate_round es cs) = length cs")
    case True
    then have "propagate_round es cs = cs" by (simp add: propagate_round_same)
    then show ?thesis by (simp add: propagate_constraints.simps Let_def)
  next
    case False
    with 1 show ?thesis by (simp add: propagate_constraints.simps [of cs es] Let_def)
  qed
qed

lemma propagate_constraints_no_equivalences [simp]: "propagate_constraints cs [] = cs"
  by (simp add: propagate_constraints.simps propagate_round_def propagate_new_def Let_def)

lemma table_fold_lookup:
  "map_of (fold (\<lambda>c m. entry_push (rc_table (cc_column c)) (table_constraint_of c) m) cs m) t =
     (let new = map table_constraint_of (filter (\<lambda>c. rc_table (cc_column c) = t) cs) in
      case map_of m t of
        None \<Rightarrow> (if new = [] then None else Some new)
      | Some old \<Rightarrow> Some (old @ new))"
  by (induction cs arbitrary: m) (auto simp: Let_def split: option.splits)

lemma table_cs_analyze:
  "table_cs (analyze_query_constraints s) t =
     map table_constraint_of
       (filter (\<lambda>c. rc_table (cc_column c) = t)
          (qc_column_constraints (analyze_query_constraints s)))"
  by (simp add: table_cs_def analyze_query_constraints_def Let_def table_fold_lookup)

subsection \<open>One row per table name\<close>

text \<open>
  The collector identifies columns up to their alias, so what it collects can only be given a
  meaning where the alias does not matter. The locale assumes that: there is one row \<open>R t\<close> per
  table name. Without self-joins every environment is of that kind on the columns of the query.
\<close>

locale named_rows =
  fixes E :: where_env and R :: "string \<Rightarrow> table_row"
  assumes rows [simp]: "we_rows E t a = R t"
begin

lemma cc_sem_simps [simp]:
  "cc_sem E (CcComparison c op v) =
     cmp2 (we_coll E) op (R (rc_table c) (rc_column c, None)) (val_dl v)"
  "cc_sem E (CcCastComparison c t op v) =
     cmp2 (we_coll E) op (R (rc_table c) (rc_column c, Some t)) (val_dl v)"
  "cc_sem E (CcInSet c vs) =
     (\<exists>v\<in>set vs. cmp2 (we_coll E) Equal (R (rc_table c) (rc_column c, None)) (val_dl v))"
  by (auto simp: cc_sem_def cmp_sem_def cmp2_def list_ex_iff)

lemma cc_sem_key:
  assumes "cc_key c = cc_key d" shows "cc_sem E c = cc_sem E d"
  using assms by (cases c; cases d) (auto simp: column_eq_def simp flip: column_eq_key)

lemma cc_insert_sem:
  "(\<forall>d\<in>set (cc_insert c s). cc_sem E d) \<longleftrightarrow> cc_sem E c \<and> (\<forall>d\<in>set s. cc_sem E d)"
  by (auto simp: cc_insert_def list_ex_iff cc_eq_key dest: cc_sem_key)

lemma equiv_insert_sem:
  "(\<forall>d\<in>set (equiv_insert e s). eqv_sem E d) \<longleftrightarrow> eqv_sem E e \<and> (\<forall>d\<in>set s. eqv_sem E d)"
  by (auto simp: equiv_insert_def list_ex_iff equiv_eq_def eqv_sem_def column_eq_def)

lemma column_target_eval:
  assumes "resolved_where_scalar_leaf e = Some s" "column_target s = Some (col, t)"
  shows "opv E e = R (rc_table col) (rc_column col, t)"
proof -
  from assms(1) obtain s0 where "e = WScalar s0" "s = resolved_strip_identity_cast s0"
    by (cases e) auto
  with assms(2) show ?thesis
    by (cases s0 rule: resolved_strip_identity_cast.cases)
      (auto simp: opv_def split: if_splits)
qed

lemma canonicalize_sem:
  assumes "canonicalize_comparison op l r = Some (col, t, op', v)"
  shows "cmp2 (we_coll E) op (opv E l) (opv E r) \<longleftrightarrow>
    cmp2 (we_coll E) op' (R (rc_table col) (rc_column col, t)) (val_dl v)"
  using assms
proof (cases rule: canonicalize_comparison_cases)
  case (left e)
  then show ?thesis by (simp add: column_target_eval [OF left(1,2)] leaf_eval [OF left(3)])
next
  case (right e)
  then show ?thesis by (simp add: column_target_eval [OF right(1,2)] leaf_eval [OF right(3)] cmp2_flip)
qed

lemma between_sem:
  assumes "collation (we_coll E)" "op = MBetween \<or> op = MBetweenSymmetric"
    and "between_extractable op es"
  shows "(\<forall>c\<in>set (between_constraints_extract op es s). cc_sem E c) \<longleftrightarrow>
    multi_true E op es \<and> (\<forall>c\<in>set s. cc_sem E c)"
proof -
  let ?C = "we_coll E"
  from assms(3) obtain col lo hi where es: "es = [WScalar (SColumn col), WScalar (SLiteral lo), WScalar (SLiteral hi)]"
    by (cases "(op, es)" rule: between_extractable.cases) auto
  let ?x = "R (rc_table col) (rc_column col, None)"
  let ?in = "\<lambda>a b. cmp2 ?C GreaterThanOrEqual ?x (val_dl a) \<and> cmp2 ?C LessThanOrEqual ?x (val_dl b)"
  have swap: "?in hi lo \<Longrightarrow> ?in lo hi"
    if "literal_value_order lo hi = Some r" "r \<noteq> OrdGreater" for r
    using that(1) assms(1)
  proof (rule literal_order_values)
    fix y z assume "?in hi lo" "val_dl lo = Some y" "val_dl hi = Some z"
      "r = OrdLess \<Longrightarrow> val_lt ?C y z" "r = OrdEqual \<Longrightarrow> y = z"
    with between_swap [OF assms(1), of y z ?x] that(2) show ?thesis by (cases r) auto
  qed
  have swap': "?in lo hi \<Longrightarrow> ?in hi lo" if "literal_value_order lo hi = Some OrdGreater"
    using that(1) assms(1)
  proof (rule literal_order_values)
    fix y z assume "?in lo hi" "val_dl lo = Some y" "val_dl hi = Some z"
      "OrdGreater = OrdGreater \<Longrightarrow> val_lt ?C z y"
    with between_swap [OF assms(1), of z y ?x] show ?thesis by auto
  qed
  show ?thesis
  proof (cases "op = MBetween")
    case True
    then show ?thesis by (auto simp: es between_bounds_def cc_insert_sem opv_def)
  next
    case False
    with assms(2,3) es obtain r where op: "op = MBetweenSymmetric"
        and r: "literal_value_order lo hi = Some r"
      by (auto simp: between_bounds_def split: option.splits)
    have "(if r = OrdGreater then ?in hi lo else ?in lo hi) \<longleftrightarrow> ?in lo hi \<or> ?in hi lo"
      using swap [OF r] swap' r by auto
    then show ?thesis
      by (cases r) (simp_all add: es op r between_bounds_def cc_insert_sem opv_def conj_ac)
  qed
qed

lemma in_sem:
  assumes "in_extractable es"
  shows "(\<forall>c\<in>set (in_constraints_extract es s). cc_sem E c) \<longleftrightarrow>
    multi_true E MIn es \<and> (\<forall>c\<in>set s. cc_sem E c)"
proof -
  from assms obtain col vs ls where es: "es = WScalar (SColumn col) # vs" "in_literals vs = Some ls"
    by (cases es rule: in_extractable.cases) auto
  with in_literals_map [OF es(2)] show ?thesis
    by (auto simp: cc_insert_sem opv_def simp flip: dedup_def)
qed

lemma not_in_loop_sem:
  "in_literals vs \<noteq> None \<Longrightarrow>
   (\<forall>c\<in>set (not_in_loop col vs s). cc_sem E c) \<longleftrightarrow>
     (\<forall>v\<in>set vs. cmp2 (we_coll E) NotEqual (R (rc_table col) (rc_column col, None)) (opv E v))
     \<and> (\<forall>c\<in>set s. cc_sem E c)"
  by (induction col vs s rule: not_in_loop.induct)
    (auto simp: cc_insert_sem opv_def split: if_splits)

lemma not_in_sem:
  assumes "in_extractable es"
  shows "(\<forall>c\<in>set (not_in_constraints_extract es s). cc_sem E c) \<longleftrightarrow>
    multi_true E MNotIn es \<and> (\<forall>c\<in>set s. cc_sem E c)"
proof -
  from assms obtain col vs where es: "es = WScalar (SColumn col) # vs" "in_literals vs \<noteq> None"
    by (cases es rule: in_extractable.cases) auto
  from not_in_loop_sem [OF es(2), of col s] show ?thesis
    by (simp add: es(1)) (simp add: opv_def)
qed

lemma any_sem:
  assumes "any_eq_array_constraints_extract es (s, w) = (s', True)"
  shows "w" "(\<forall>c\<in>set s'. cc_sem E c) \<longleftrightarrow> multi_true E (MAny Equal) es \<and> (\<forall>c\<in>set s. cc_sem E c)"
proof -
  from assms obtain col rhs vs where es: "es = [WScalar (SColumn col), WScalar rhs]"
      "any_literals rhs = Some vs" and w: w
      "s' = cc_insert (CcInSet col (dedup (sort_canonical vs))) s"
    by (cases "(es, (s, w))" rule: any_eq_array_constraints_extract.cases)
      (auto split: option.splits if_splits)
  show w by (rule w)
  from any_literals_elems [OF es(2)] es(1) w(2) show
    "(\<forall>c\<in>set s'. cc_sem E c) \<longleftrightarrow> multi_true E (MAny Equal) es \<and> (\<forall>c\<in>set s. cc_sem E c)"
    by (auto simp: cc_insert_sem opv_def)
qed

lemma comparison_analyze_sem:
  assumes "is_comparison op"
  shows "cmp2 (we_coll E) op (opv E l) (opv E r) \<Longrightarrow> cl_sem E cl \<Longrightarrow>
           cl_sem E (comparison_analyze op l r cl)"
    and "cl_complete (comparison_analyze op l r cl) \<Longrightarrow> cl_complete cl \<and>
           (cl_sem E (comparison_analyze op l r cl) \<longleftrightarrow>
              cmp2 (we_coll E) op (opv E l) (opv E r) \<and> cl_sem E cl)"
proof -
  have "(cmp2 (we_coll E) op (opv E l) (opv E r) \<longrightarrow> cl_sem E cl \<longrightarrow>
           cl_sem E (comparison_analyze op l r cl)) \<and>
        (cl_complete (comparison_analyze op l r cl) \<longrightarrow> cl_complete cl \<and>
           (cl_sem E (comparison_analyze op l r cl) \<longleftrightarrow>
              cmp2 (we_coll E) op (opv E l) (opv E r) \<and> cl_sem E cl))"
  proof (cases "canonicalize_comparison op l r")
    case (Some c)
    then obtain col t op' v where c: "canonicalize_comparison op l r = Some (col, t, op', v)"
      by (cases c) auto
    from canonicalize_sem [OF c] c show ?thesis
      by (cases t) (auto simp: comparison_analyze_def cl_sem_def cc_insert_sem)
  next
    case None
    show ?thesis
    proof (cases "\<exists>a b. resolved_where_scalar_leaf l = Some (SColumn a) \<and>
        resolved_where_scalar_leaf r = Some (SColumn b) \<and> op = Equal")
      case True
      then obtain a b where ab: "resolved_where_scalar_leaf l = Some (SColumn a)"
        "resolved_where_scalar_leaf r = Some (SColumn b)" "op = Equal" by blast
      have "cl_sem E (comparison_analyze op l r cl) \<longleftrightarrow>
          eqv_sem E \<lparr>eq_left = a, eq_right = b\<rparr> \<and> cl_sem E cl"
        using None ab by (auto simp: comparison_analyze_def cl_sem_def equiv_insert_sem)
      with None ab show ?thesis by (auto simp: comparison_analyze_def leaf_eval eqv_sem_def)
    next
      case False
      with None have "comparison_analyze op l r cl = cl\<lparr>cl_complete := False\<rparr>"
        by (auto simp: comparison_analyze_def split: option.splits resolved_scalar_expr.splits)
      then show ?thesis by (simp add: cl_sem_def)
    qed
  qed
  then show "cmp2 (we_coll E) op (opv E l) (opv E r) \<Longrightarrow> cl_sem E cl \<Longrightarrow>
           cl_sem E (comparison_analyze op l r cl)"
    "cl_complete (comparison_analyze op l r cl) \<Longrightarrow> cl_complete cl \<and>
           (cl_sem E (comparison_analyze op l r cl) \<longleftrightarrow>
              cmp2 (we_coll E) op (opv E l) (opv E r) \<and> cl_sem E cl)" by blast+
qed

lemma not_in_loop_necessary:
  assumes "\<forall>v\<in>set vs. cmp2 (we_coll E) NotEqual
      (R (rc_table col) (rc_column col, None)) (opv E v)" "\<forall>c\<in>set s. cc_sem E c"
  shows "\<forall>c\<in>set (not_in_loop col vs s). cc_sem E c"
  using assms
  by (induction col vs s rule: not_in_loop.induct) (auto simp: cc_insert_sem opv_def)

lemma multi_analyze_necessary:
  assumes "collation (we_coll E)" "multi_true E op es" "cl_sem E cl"
  shows "cl_sem E (multi_analyze op es cl)"
proof -
  let ?s = "cl_constraints cl"
  have s: "\<forall>c\<in>set ?s. cc_sem E c" using assms(3) by (simp add: cl_sem_def)
  consider "op = MBetween \<or> op = MBetweenSymmetric" | "op = MIn" | "op = MNotIn" | "op = MAny Equal"
    | "multi_analyze op es cl = cl\<lparr>cl_complete := False\<rparr>"
    by (cases "(op, es, cl)" rule: multi_analyze.cases) auto
  then show ?thesis
  proof cases
    case 1
    have "\<not> between_extractable op es \<Longrightarrow> between_constraints_extract op es ?s = ?s"
      by (cases "(op, es)" rule: between_extractable.cases) (auto split: option.splits)
    with between_sem [OF assms(1) 1, of es ?s] assms(2) s
    have "\<forall>c\<in>set (between_constraints_extract op es ?s). cc_sem E c"
      by (cases "between_extractable op es") auto
    with 1 assms(3) show ?thesis by (auto simp: cl_sem_def)
  next
    case 2
    have "\<not> in_extractable es \<Longrightarrow> in_constraints_extract es ?s = ?s"
      by (cases es rule: in_extractable.cases) auto
    with in_sem [of es ?s] assms(2) s 2 have "\<forall>c\<in>set (in_constraints_extract es ?s). cc_sem E c"
      by (cases "in_extractable es") auto
    with 2 assms(3) show ?thesis by (simp add: cl_sem_def)
  next
    case 3
    have "\<forall>c\<in>set (not_in_constraints_extract es ?s). cc_sem E c"
    proof (cases "(es, ?s)" rule: not_in_constraints_extract.cases)
      case (1 col vs t)
      moreover have "opv E (WScalar (SColumn col)) = R (rc_table col) (rc_column col, None)"
        by (simp add: opv_def)
      ultimately show ?thesis
        using assms(2) 3 not_in_loop_necessary [OF _ s, of vs col] by simp
    qed (use s in auto)
    with 3 assms(3) show ?thesis by (simp add: cl_sem_def)
  next
    case 4
    obtain s' w where e: "any_eq_array_constraints_extract es (?s, cl_complete cl) = (s', w)"
      by fastforce
    have "\<forall>c\<in>set s'. cc_sem E c"
    proof (cases w)
      case True
      with any_sem(2) [of es ?s "cl_complete cl" s'] e assms(2) 4 s show ?thesis by simp
    next
      case False
      have "\<forall>c\<in>set (fst (any_eq_array_constraints_extract es (?s, cl_complete cl))). cc_sem E c"
        using assms(2) 4 s
        by (cases "(es, (?s, cl_complete cl))" rule: any_eq_array_constraints_extract.cases)
          (auto simp: cc_insert_sem opv_def any_literals_elems split: option.splits, blast)
      with e show ?thesis by simp
    qed
    with 4 e assms(3) show ?thesis by (simp add: cl_sem_def)
  next
    case 5
    with assms(3) show ?thesis by (simp add: cl_sem_def)
  qed
qed

lemma multi_analyze_exact:
  assumes "collation (we_coll E)" "extractable (WMulti op es)" "cl_complete (multi_analyze op es cl)"
  shows "cl_complete cl \<and> (cl_sem E (multi_analyze op es cl) \<longleftrightarrow> multi_true E op es \<and> cl_sem E cl)"
  using assms between_sem [OF assms(1), of op es "cl_constraints cl"]
    in_sem [of es "cl_constraints cl"] not_in_sem [of es "cl_constraints cl"]
    any_sem(1) [of es "cl_constraints cl" "cl_complete cl"]
    any_sem(2) [of es "cl_constraints cl" "cl_complete cl"]
  by (cases "(op, es, cl)" rule: multi_analyze.cases)
    (auto simp: cl_sem_def split: prod.splits)

lemma where_analyze_necessary:
  assumes "collation (we_coll E)" "where_true E e" "cl_sem E cl"
  shows "cl_sem E (where_analyze e cl)"
  using assms(2,3)
proof (induction e cl rule: where_analyze.induct)
  case (1 op l r cl)
  then show ?case
    by (cases "is_comparison op"; cases "op = And")
      (auto intro: comparison_analyze_sem(1) simp: cl_sem_def [of E "cl\<lparr>cl_complete := False\<rparr>"]
        cl_sem_def [of E cl])
next
  case (2 op es cl)
  then show ?case using multi_analyze_necessary [OF assms(1)] by simp
qed (simp_all add: cl_sem_def)

lemma where_analyze_exact:
  assumes "collation (we_coll E)" "extractable e" "cl_complete (where_analyze e cl)"
  shows "cl_complete cl \<and> (cl_sem E (where_analyze e cl) \<longleftrightarrow> where_true E e \<and> cl_sem E cl)"
  using assms(2,3)
proof (induction e cl rule: where_analyze.induct)
  case (1 op l r cl)
  consider "is_comparison op" "op \<noteq> And" | "op = And" | "\<not> is_comparison op" "op \<noteq> And" by auto
  then show ?case
  proof cases
    case 1
    with comparison_analyze_sem(2) [of op l r cl] "1.prems" show ?thesis by simp
  next
    case 2
    then show ?thesis using "1.IH" "1.prems" by auto
  next
    case 3
    with "1.prems" show ?thesis by simp
  qed
next
  case (2 op es cl)
  then show ?case using multi_analyze_exact [OF assms(1)] by simp
qed simp_all

lemma join_source_analyze_necessary:
  assumes "collation (we_coll E)" "join_true E src" "cl_sem E cl" "inner_source src"
  shows "cl_sem E (join_source_analyze src cl)"
  using assms(2-4)
proof (induction src cl rule: join_source_analyze.induct)
  case (1 jt l r qual cl)
  then show ?case
    using where_analyze_necessary [OF assms(1)] by (auto split: option.splits)
qed simp_all

lemma collect_necessary:
  assumes "collation (we_coll E)" "select_true E s" "inner_joins s"
  shows "cl_sem E (collect_query_constraints s)"
proof -
  have "cl_sem E (fold join_source_analyze srcs cl)"
    if "\<forall>src\<in>set srcs. join_true E src \<and> inner_source src" "cl_sem E cl" for srcs cl
    using that by (induction srcs arbitrary: cl) (auto intro: join_source_analyze_necessary [OF assms(1)])
  moreover have "cl_sem E collector_new" by (simp add: cl_sem_def collector_new_def)
  ultimately show ?thesis
    using assms(2,3) where_analyze_necessary [OF assms(1)]
    by (auto simp: inner_joins_def collect_query_constraints_def select_true_def split: option.splits)
qed

lemma across_sem:
  assumes "cc_sem E c" "eqv_sem E e" "across c e = Some d"
  shows "cc_sem E d"
proof -
  have "R (rc_table (eq_left e)) (rc_column (eq_left e), None) =
      R (rc_table (eq_right e)) (rc_column (eq_right e), None)"
    using assms(2) by (auto simp: eqv_sem_def cmp2_def split: option.splits)
  with assms(1,3) show ?thesis
    by (cases c) (auto simp: across_def column_eq_def split: if_splits)
qed

lemma propagate_round_sem:
  assumes "\<forall>e\<in>set es. eqv_sem E e" "\<forall>c\<in>set cs. cc_sem E c"
  shows "\<forall>c\<in>set (propagate_round es cs). cc_sem E c"
  using assms across_sem set_cc_insert_fold_bound [of "propagate_new es cs" cs]
  by (fastforce simp: propagate_round_def propagate_new_mem)

lemma propagate_constraints_sem:
  assumes "\<forall>e\<in>set es. eqv_sem E e" "\<forall>c\<in>set cs. cc_sem E c"
  shows "\<forall>c\<in>set (propagate_constraints cs es). cc_sem E c"
  using assms
proof (induction cs es rule: propagate_constraints.induct)
  case (1 cs es)
  with propagate_round_sem [OF "1.prems"] show ?case
    by (subst propagate_constraints.simps) (simp add: Let_def)
qed

lemma table_cs_sem:
  "tcs_sem (we_coll E) (table_cs (analyze_query_constraints s) t) (R t) \<longleftrightarrow>
     (\<forall>c\<in>set (qc_column_constraints (analyze_query_constraints s)).
        rc_table (cc_column c) = t \<longrightarrow> cc_sem E c)"
  by (auto simp: table_cs_analyze tcs_sem_def cc_sem_def)

lemma named_necessary:
  assumes "collation (we_coll E)" "select_true E s" "inner_joins s"
  shows "tcs_sem (we_coll E) (table_cs (analyze_query_constraints s) t) (R t)"
proof -
  let ?cl = "collect_query_constraints s"
  have "\<forall>c\<in>set (propagate_constraints (cl_constraints ?cl) (cl_equivalences ?cl)). cc_sem E c"
    by (rule propagate_constraints_sem) (use collect_necessary [OF assms] in \<open>simp_all add: cl_sem_def\<close>)
  then show ?thesis
    unfolding table_cs_sem by (simp add: analyze_query_constraints_def Let_def)
qed

lemma collect_single_exact:
  assumes "collation (we_coll E)" "is_single_table s"
    and "\<forall>e. sn_where_clause s = Some e \<longrightarrow> extractable e"
    and "cl_complete (collect_query_constraints s)"
  shows "cl_sem E (collect_query_constraints s) \<longleftrightarrow> select_true E s"
proof -
  from assms(2) obtain t where from_t: "sn_from s = [SrcTable t]"
    by (auto simp: is_single_table_def split: list.splits resolved_table_source.splits)
  have new: "cl_sem E collector_new" by (simp add: cl_sem_def collector_new_def)
  show ?thesis
  proof (cases "sn_where_clause s")
    case None
    then show ?thesis using from_t new by (simp add: collect_query_constraints_def select_true_def)
  next
    case (Some e)
    with where_analyze_exact [OF assms(1), of e collector_new] assms(3,4) from_t new show ?thesis
      by (simp add: collect_query_constraints_def select_true_def)
  qed
qed

lemma named_exact:
  assumes "collation (we_coll E)" "is_single_table s"
    and "\<forall>e. sn_where_clause s = Some e \<longrightarrow> extractable e"
    and "qc_where_analysis_complete (analyze_query_constraints s)"
    and "qc_equivalences (analyze_query_constraints s) = []"
    and "\<forall>c\<in>set (qc_column_constraints (analyze_query_constraints s)). rc_table (cc_column c) = t"
  shows "tcs_sem (we_coll E) (table_cs (analyze_query_constraints s) t) (R t) \<longleftrightarrow>
    select_true E s"
proof -
  let ?cl = "collect_query_constraints s"
  from assms(4,5) have cl: "cl_complete ?cl" "cl_equivalences ?cl = []"
    by (simp_all add: analyze_query_constraints_def Let_def)
  then have "qc_column_constraints (analyze_query_constraints s) = cl_constraints ?cl"
    by (simp add: analyze_query_constraints_def Let_def)
  with assms(6) cl collect_single_exact [OF assms(1-3) cl(1)] show ?thesis
    unfolding table_cs_sem by (auto simp: cl_sem_def)
qed

end

subsection \<open>Queries without self-joins\<close>

definition by_name :: "where_env \<Rightarrow> (string \<Rightarrow> string option) \<Rightarrow> where_env" where
  "by_name E al = E\<lparr>we_rows := \<lambda>t _. we_rows E t (al t)\<rparr>"

interpretation nr: named_rows "by_name E al" "\<lambda>t. we_rows E t (al t)" for E al
  by unfold_locales (simp add: by_name_def)

lemma by_name_simps [simp]:
  "we_coll (by_name E al) = we_coll E" "we_scalar (by_name E al) = we_scalar E"
  "we_operand (by_name E al) = we_operand E" "we_where (by_name E al) = we_where E"
  by (simp_all add: by_name_def)

lemma scalar_eval_by_name:
  assumes "\<forall>c\<in>set (scalar_columns e). al (rc_table c) = rc_table_alias c"
  shows "scalar_eval os (we_rows (by_name E al)) e = scalar_eval os (we_rows E) e"
  using assms by (cases e rule: scalar_columns.cases) (auto simp: by_name_def)

lemma opv_by_name:
  assumes "\<forall>c\<in>set (where_columns e). al (rc_table c) = rc_table_alias c"
  shows "opv (by_name E al) e = opv E e"
  using assms by (cases e) (simp_all add: opv_def scalar_eval_by_name del: nr.rows)

lemma array_elems_by_name:
  assumes "\<forall>c\<in>set (scalar_columns e). al (rc_table c) = rc_table_alias c"
  shows "array_elems os (we_rows (by_name E al)) e = array_elems os (we_rows E) e"
  using assms
  by (cases "(os, we_rows E, e)" rule: array_elems.cases) (auto simp: scalar_eval_by_name simp del: nr.rows)

lemma multi_true_by_name:
  assumes "\<forall>e\<in>set es. \<forall>c\<in>set (where_columns e). al (rc_table c) = rc_table_alias c"
  shows "multi_true (by_name E al) op es = multi_true E op es"
proof -
  have o: "opv (by_name E al) e = opv E e" if "e \<in> set es" for e
    using that assms by (intro opv_by_name) blast
  have "array_elems os (we_rows (by_name E al)) rhs = array_elems os (we_rows E) rhs" if "WScalar rhs \<in> set es" for os rhs
    using that assms by (intro array_elems_by_name) force
  with o show ?thesis
    by (cases "(E, op, es)" rule: multi_true.cases) (simp_all del: nr.rows split: option.splits)
qed

lemma where_true_by_name:
  assumes "\<forall>c\<in>set (where_columns e). al (rc_table c) = rc_table_alias c"
  shows "where_true (by_name E al) e = where_true E e"
  using assms
proof (induction e)
  case (WBinary op l r)
  then show ?case using opv_by_name [of l al E] opv_by_name [of r al E] by simp
next
  case (WMulti op es)
  then show ?case using multi_true_by_name [of es al E op] by simp
qed simp_all

lemma null_side_by_name:
  assumes "\<forall>(t, a)\<in>set (source_ranges src). al t = a"
  shows "null_side (by_name E al) src = null_side E src"
  unfolding null_side_def by (intro ball_cong refl) (use assms in auto)

lemma join_true_by_name:
  assumes "\<forall>c\<in>set (source_columns src). al (rc_table c) = rc_table_alias c"
    and "\<forall>(t, a)\<in>set (source_ranges src). al t = a"
  shows "join_true (by_name E al) src = join_true E src"
  using assms
proof (induction src rule: source_ranges.induct)
  case (3 jt l r qual)
  have "null_side (by_name E al) x = null_side E x" if "x \<in> {l, r}" for x
    using that "3.prems"(2) by (intro null_side_by_name, elim insertE emptyE) (simp_all add: ball_Un)
  moreover have "where_true (by_name E al) c = where_true E c" if "join_predicate qual = Some c" for c
    using "3.prems"(1) that by (intro where_true_by_name) simp
  moreover have "join_true (by_name E al) l = join_true E l" "join_true (by_name E al) r = join_true E r"
    using 3 by auto
  ultimately show ?case by (auto split: option.splits)
qed simp_all

lemma select_true_by_name:
  assumes "\<forall>c\<in>set (select_columns s). al (rc_table c) = rc_table_alias c"
    and "\<forall>(t, a)\<in>set (range_vars s). al t = a"
  shows "select_true (by_name E al) s = select_true E s"
proof -
  have "where_true (by_name E al) e = where_true E e" if "sn_where_clause s = Some e" for e
    using assms(1) that by (intro where_true_by_name) (simp add: select_columns_def)
  moreover have "join_true (by_name E al) src = join_true E src" if "src \<in> set (sn_from s)" for src
    using assms that by (intro join_true_by_name) (force simp: select_columns_def range_vars_def)+
  ultimately show ?thesis by (simp add: select_true_def split: option.splits)
qed

definition alias_of :: "select_node \<Rightarrow> string \<Rightarrow> string option" where
  "alias_of s t = (case map_of (range_vars s) t of Some a \<Rightarrow> a | None \<Rightarrow> None)"

lemma alias_of_range: "no_self_join s \<Longrightarrow> (t, a) \<in> set (range_vars s) \<Longrightarrow> alias_of s t = a"
  by (simp add: alias_of_def no_self_join_def)

lemma select_true_alias:
  assumes "no_self_join s" "scoped s"
  shows "select_true (by_name E (alias_of s)) s = select_true E s"
proof (rule select_true_by_name)
  show "\<forall>c\<in>set (select_columns s). alias_of s (rc_table c) = rc_table_alias c"
    using assms alias_of_range [OF assms(1)] by (simp add: scoped_def)
  show "\<forall>(t, a)\<in>set (range_vars s). alias_of s t = a" using alias_of_range [OF assms(1)] by blast
qed

lemma analyze_necessary:
  assumes "collation (we_coll E)" "select_true E s" "inner_joins s" "no_self_join s" "scoped s"
    and "(t, a) \<in> set (range_vars s)"
  shows "tcs_sem (we_coll E) (table_cs (analyze_query_constraints s) t) (we_rows E t a)"
  using nr.named_necessary [of E "alias_of s" s t] assms alias_of_range [OF assms(4,6)]
    select_true_alias [OF assms(4,5)]
  by simp

lemma single_table_ranges:
  assumes "is_single_table s"
  obtains tn where "sn_from s = [SrcTable tn]" "range_vars s = [(rt_name tn, rt_alias tn)]"
  using assms
  by (auto simp: is_single_table_def range_vars_def split: list.splits resolved_table_source.splits)

text \<open>The constraints collected from a query are on columns the query reads.\<close>

lemma cc_insert_columns: "cc_column ` set (cc_insert c cs) \<subseteq> insert (cc_column c) (cc_column ` set cs)"
  by (auto simp: cc_insert_def)

lemma not_in_loop_columns: "cc_column ` set (not_in_loop col vs cs) \<subseteq> insert col (cc_column ` set cs)"
proof (induction col vs cs rule: not_in_loop.induct)
  case (2 col v es cs)
  with cc_insert_columns [of "CcComparison col NotEqual v" cs] show ?case by auto
qed auto

lemma between_columns:
  "cc_column ` set (between_constraints_extract op es cs) \<subseteq>
     set (concat (map where_columns es)) \<union> cc_column ` set cs"
  by (cases "(op, es, cs)" rule: between_constraints_extract.cases)
    (auto simp: cc_insert_def split: option.splits)

lemma in_columns:
  "cc_column ` set (in_constraints_extract es cs) \<subseteq> set (concat (map where_columns es)) \<union> cc_column ` set cs"
  by (cases "(es, cs)" rule: in_constraints_extract.cases) (auto simp: cc_insert_def split: option.splits)

lemma not_in_columns:
  "cc_column ` set (not_in_constraints_extract es cs) \<subseteq> set (concat (map where_columns es)) \<union> cc_column ` set cs"
  by (cases "(es, cs)" rule: not_in_constraints_extract.cases) (use not_in_loop_columns in fastforce)+

lemma any_columns:
  "cc_column ` set (fst (any_eq_array_constraints_extract es (cs, w))) \<subseteq>
     set (concat (map where_columns es)) \<union> cc_column ` set cs"
  by (cases "(es, (cs, w))" rule: any_eq_array_constraints_extract.cases)
    (auto simp: cc_insert_def split: option.splits)

lemma multi_analyze_columns:
  "cc_column ` set (cl_constraints (multi_analyze op es cl)) \<subseteq>
     set (concat (map where_columns es)) \<union> cc_column ` set (cl_constraints cl)"
  using between_columns [of op es "cl_constraints cl"] in_columns [of es "cl_constraints cl"]
    not_in_columns [of es "cl_constraints cl"] any_columns [of es "cl_constraints cl" "cl_complete cl"]
  by (cases "(op, es, cl)" rule: multi_analyze.cases) (simp_all add: case_prod_beta)

lemma column_target_columns:
  assumes "resolved_where_scalar_leaf e = Some s" "column_target s = Some (col, t)"
  shows "col \<in> set (where_columns e)"
proof -
  from assms(1) obtain s0 where "e = WScalar s0" "s = resolved_strip_identity_cast s0" by (cases e) auto
  with assms(2) show ?thesis
    by (cases s0 rule: resolved_strip_identity_cast.cases) (auto split: if_splits)
qed

lemma comparison_analyze_columns:
  "cc_column ` set (cl_constraints (comparison_analyze op l r cl)) \<subseteq>
     set (where_columns l) \<union> set (where_columns r) \<union> cc_column ` set (cl_constraints cl)"
proof (cases "canonicalize_comparison op l r")
  case None
  then show ?thesis
    by (auto simp: comparison_analyze_def split: option.splits resolved_scalar_expr.splits)
next
  case (Some c)
  then obtain col t op' v where c: "canonicalize_comparison op l r = Some (col, t, op', v)" by (cases c) auto
  then have "col \<in> set (where_columns l) \<union> set (where_columns r)"
    by (cases rule: canonicalize_comparison_cases) (auto dest: column_target_columns)
  with c show ?thesis by (cases t) (auto simp: comparison_analyze_def cc_insert_def)
qed

lemma where_analyze_columns:
  "cc_column ` set (cl_constraints (where_analyze e cl)) \<subseteq>
     set (where_columns e) \<union> cc_column ` set (cl_constraints cl)"
proof (induction e cl rule: where_analyze.induct)
  case (1 op l r cl)
  show ?case
  proof (cases "\<not> is_comparison op \<and> op = And")
    case True
    then show ?thesis using 1 by simp blast
  next
    case False
    with comparison_analyze_columns [of op l r cl] show ?thesis by auto
  qed
next
  case (2 op es cl)
  then show ?case using multi_analyze_columns by simp
qed auto

lemma collect_single_columns:
  assumes "is_single_table s" "scoped s" "(t, a) \<in> set (range_vars s)"
    and "c \<in> set (cl_constraints (collect_query_constraints s))"
  shows "rc_table (cc_column c) = t"
proof -
  from assms(1) obtain tn where tn: "sn_from s = [SrcTable tn]" "range_vars s = [(rt_name tn, rt_alias tn)]"
    by (rule single_table_ranges)
  have "cc_column c \<in> set (select_columns s)"
    using assms(4) tn(1) where_analyze_columns [of _ collector_new]
    by (fastforce simp: collect_query_constraints_def select_columns_def collector_new_def split: option.splits)
  with assms(2,3) tn(2) show ?thesis by (auto simp: scoped_def)
qed

lemma analyze_single_exact:
  assumes coll: "collation (we_coll E)" and single: "is_single_table s" and "scoped s"
    and shape: "\<forall>e. sn_where_clause s = Some e \<longrightarrow> extractable e"
    and complete: "qc_where_analysis_complete (analyze_query_constraints s)"
    and eqs: "qc_equivalences (analyze_query_constraints s) = []"
    and t: "(t, a) \<in> set (range_vars s)"
  shows "tcs_sem (we_coll E) (table_cs (analyze_query_constraints s) t) (we_rows E t a) \<longleftrightarrow> select_true E s"
proof -
  have one: "no_self_join s" using single by (rule single_table_ranges) (simp add: no_self_join_def)
  have "\<forall>c\<in>set (qc_column_constraints (analyze_query_constraints s)). rc_table (cc_column c) = t"
    using eqs collect_single_columns [OF single \<open>scoped s\<close> t]
    by (simp add: analyze_query_constraints_def Let_def)
  with nr.named_exact [of E "alias_of s" s t] coll single shape complete eqs alias_of_range [OF one t]
    select_true_alias [OF one \<open>scoped s\<close>]
  show ?thesis by simp
qed

subsection \<open>Propagation as a closure\<close>

text \<open>
  A constraint without its column, if it can be moved to another column: a constraint on a cast of
  the column cannot. \<open>links es\<close> is the symmetric relation of the equalities, on columns up to their
  alias.
\<close>

datatype column_test = TestCompare binary_op literal_value | TestIn "literal_value list"

fun constraint_test :: "column_constraint \<Rightarrow> column_test option" where
  "constraint_test (CcComparison _ op v) = Some (TestCompare op v)"
| "constraint_test (CcInSet _ vs) = Some (TestIn vs)"
| "constraint_test (CcCastComparison _ _ _ _) = None"

definition links :: "column_equivalence list \<Rightarrow> (resolved_column_node \<times> resolved_column_node) set" where
  "links es =
     (\<Union>e\<in>set es. {(col_key (eq_left e), col_key (eq_right e)), (col_key (eq_right e), col_key (eq_left e))})"

definition reached :: "column_equivalence list \<Rightarrow> column_constraint list \<Rightarrow> column_constraint \<Rightarrow> bool" where
  "reached es cs k \<longleftrightarrow> cc_key k \<in> cc_key ` set cs \<or>
     (\<exists>c\<in>set cs. constraint_test c \<noteq> None \<and> constraint_test k = constraint_test c \<and>
        (col_key (cc_column c), col_key (cc_column k)) \<in> (links es)\<^sup>+)"

lemma cc_key_parts:
  "constraint_test c \<noteq> None \<Longrightarrow>
     cc_key c = cc_key d \<longleftrightarrow> constraint_test c = constraint_test d \<and> col_key (cc_column c) = col_key (cc_column d)"
  by (cases c; cases d) auto

lemma cc_key_test: "cc_key c = cc_key d \<Longrightarrow> constraint_test c = constraint_test d"
  and cc_key_column: "cc_key c = cc_key d \<Longrightarrow> col_key (cc_column c) = col_key (cc_column d)"
  by (cases c; cases d; auto)+

lemma cc_key_recorded:
  "cc_key c = cc_key d \<Longrightarrow>
     rc_table (cc_column c) = rc_table (cc_column d) \<and> table_constraint_of c = table_constraint_of d"
  by (cases c; cases d) (auto simp: column_eq_def simp flip: column_eq_key)

lemma qc_columns_analyze:
  "qc_column_constraints (analyze_query_constraints s) =
     propagate_constraints (cl_constraints (collect_query_constraints s)) (cl_equivalences (collect_query_constraints s))"
  by (simp add: analyze_query_constraints_def Let_def)

lemma retest: "constraint_test c \<noteq> None \<Longrightarrow> \<exists>b. constraint_test b = constraint_test c \<and> cc_column b = col"
proof (cases c)
  case (CcComparison c1 op v)
  then show ?thesis by (intro exI [of _ "CcComparison col op v"]) simp
next
  case (CcInSet c1 vs)
  then show ?thesis by (intro exI [of _ "CcInSet col vs"]) simp
qed simp

lemma across_link:
  assumes "across c e = Some d" "e \<in> set es"
  shows "constraint_test c \<noteq> None \<and> constraint_test d = constraint_test c \<and>
    (col_key (cc_column c), col_key (cc_column d)) \<in> links es"
proof -
  have "constraint_test c \<noteq> None \<and> constraint_test d = constraint_test c \<and> cc_column d = col"
    if "constraint_retarget col c = Some d" for col
    using that by (cases c) auto
  with assms show ?thesis
    by (fastforce simp: across_def links_def column_eq_key split: if_splits)
qed

lemma link_across:
  assumes "(x, y) \<in> links es" "col_key (cc_column c) = x" "constraint_test c \<noteq> None"
  obtains e d where "e \<in> set es" "across c e = Some d" "constraint_test d = constraint_test c"
    "col_key (cc_column d) = y"
proof -
  have move: "\<exists>d. constraint_retarget col c = Some d \<and> constraint_test d = constraint_test c \<and> cc_column d = col" for col
    using assms(3) by (cases c) auto
  from assms(1) obtain e where e: "e \<in> set es"
      "(x, y) = (col_key (eq_left e), col_key (eq_right e)) \<or> (x, y) = (col_key (eq_right e), col_key (eq_left e))"
    by (auto simp: links_def)
  from move [of "eq_left e"] move [of "eq_right e"] e assms(2) have
    "\<exists>d. across c e = Some d \<and> constraint_test d = constraint_test c \<and> col_key (cc_column d) = y"
    by (auto simp: across_def column_eq_key)
  with e(1) that show thesis by blast
qed

lemma reached_step:
  assumes "reached es (propagate_round es cs) k"
  shows "reached es cs k"
proof -
  have new: "reached es cs d" if d: "d \<in> set (propagate_new es cs)" for d
  proof -
    from d obtain e c where "e \<in> set es" "c \<in> set cs" "across c e = Some d" by (auto simp: propagate_new_mem)
    with across_link [of c e d es] show ?thesis unfolding reached_def by blast
  qed
  have orig: "cc_key d \<in> cc_key ` set cs \<or> d \<in> set (propagate_new es cs)" if "d \<in> set (propagate_round es cs)" for d
    using that set_cc_insert_fold_bound [of "propagate_new es cs" cs] by (auto simp: propagate_round_def)
  have base: "reached es cs d" if "d \<in> set (propagate_round es cs)" for d
    using orig [OF that] new by (auto simp: reached_def)
  have key: "reached es cs k" if "reached es cs d" "cc_key k = cc_key d"
    for d using that cc_key_test [OF that(2)] cc_key_column [OF that(2)] by (auto simp: reached_def)
  have step: "reached es cs k"
    if d: "reached es cs d" "constraint_test d \<noteq> None" "constraint_test k = constraint_test d"
      and path: "(col_key (cc_column d), col_key (cc_column k)) \<in> (links es)\<^sup>+" for d
  proof -
    from d(1) consider c where "c \<in> set cs" "cc_key d = cc_key c"
      | c where "c \<in> set cs" "constraint_test c \<noteq> None" "constraint_test d = constraint_test c"
          "(col_key (cc_column c), col_key (cc_column d)) \<in> (links es)\<^sup>+"
      unfolding reached_def by blast
    then show ?thesis
    proof cases
      case 1
      with d path cc_key_test [OF 1(2)] cc_key_column [OF 1(2)] show ?thesis unfolding reached_def by metis
    next
      case 2
      with path have "(col_key (cc_column c), col_key (cc_column k)) \<in> (links es)\<^sup>+" by (meson trancl_trans)
      with 2 d(3) show ?thesis unfolding reached_def by metis
    qed
  qed
  from assms consider d where "d \<in> set (propagate_round es cs)" "cc_key k = cc_key d"
    | d where "d \<in> set (propagate_round es cs)" "constraint_test d \<noteq> None" "constraint_test k = constraint_test d"
        "(col_key (cc_column d), col_key (cc_column k)) \<in> (links es)\<^sup>+"
    unfolding reached_def [of es "propagate_round es cs"] by blast
  then show ?thesis by cases (use base key step in blast)+
qed

lemma propagate_reached: "cc_key k \<in> cc_key ` set (propagate_constraints cs es) \<Longrightarrow> reached es cs k"
proof (induction cs es rule: propagate_constraints.induct)
  case (1 cs es)
  have "reached es (propagate_round es cs) k"
  proof (cases "length (propagate_round es cs) = length cs")
    case True
    with 1(2) show ?thesis by (simp add: propagate_constraints.simps [of cs es] Let_def reached_def)
  next
    case False
    with 1 show ?thesis by (simp add: propagate_constraints.simps [of cs es] Let_def)
  qed
  then show ?case by (rule reached_step)
qed

lemma reached_propagate:
  assumes "reached es cs k"
  shows "cc_key k \<in> cc_key ` set (propagate_constraints cs es)"
proof -
  define P where "P = propagate_constraints cs es"
  have closed: "cc_key d \<in> cc_key ` set P" if "c \<in> set P" "e \<in> set es" "across c e = Some d" for c e d
  proof -
    have "d \<in> set (propagate_new es P)" using that by (auto simp: propagate_new_mem)
    then have "cc_key d \<in> cc_key ` set (propagate_round es P)"
      by (auto simp: propagate_round_def cc_insert_fold_keys)
    then show ?thesis by (simp add: P_def propagate_constraints_fixpoint)
  qed
  have walk: "\<forall>d. constraint_test d = constraint_test c \<and> col_key (cc_column d) = y \<longrightarrow> cc_key d \<in> cc_key ` set P"
    if path: "(x, y) \<in> (links es)\<^sup>+" and c: "c \<in> set P" "constraint_test c \<noteq> None" "col_key (cc_column c) = x" for x y c
    using path
  proof (induction rule: trancl_induct)
    case (base y)
    from link_across [OF base c(3,2)] obtain e d where "e \<in> set es" "across c e = Some d"
      "constraint_test d = constraint_test c" "col_key (cc_column d) = y" .
    with closed [OF c(1)] c(2) cc_key_parts [of d] show ?case by metis
  next
    case (step y z)
    have "col_key y = y" using step.hyps(2) by (auto simp: links_def col_key_def)
    then obtain b where b: "constraint_test b = constraint_test c" "col_key (cc_column b) = y"
      using retest [OF c(2), of y] by blast
    with step.IH obtain b' where b': "b' \<in> set P" "cc_key b' = cc_key b" by (metis imageE)
    then have "constraint_test b' = constraint_test c" "col_key (cc_column b') = y"
      using b cc_key_test cc_key_column by metis+
    with link_across [OF step.hyps(2), of b'] c(2) obtain e d where "e \<in> set es" "across b' e = Some d"
      "constraint_test d = constraint_test c" "col_key (cc_column d) = z" by metis
    with closed [OF b'(1)] c(2) cc_key_parts [of d] show ?case by metis
  qed
  from assms consider "cc_key k \<in> cc_key ` set cs"
    | c where "c \<in> set cs" "constraint_test c \<noteq> None" "constraint_test k = constraint_test c"
        "(col_key (cc_column c), col_key (cc_column k)) \<in> (links es)\<^sup>+"
    unfolding reached_def by blast
  then show ?thesis
  proof cases
    case 1
    then show ?thesis using propagate_constraints_mono [of cs es] by blast
  next
    case 2
    with walk [OF 2(4) _ 2(2) refl] propagate_constraints_mono [of cs es] show ?thesis unfolding P_def by blast
  qed
qed

subsection \<open>Properties\<close>

text \<open>The metadata of an integer column, a reference to column \<open>c\<close> of table \<open>t\<close>, and a query on it.\<close>

definition sample_column :: "string \<Rightarrow> string \<Rightarrow> resolved_column_node" where
  "sample_column t c =
     \<lparr>rc_schema = ''public'', rc_table = t, rc_table_alias = None, rc_column = c,
      rc_column_metadata =
        \<lparr>cm_name = c, cm_position = 1, cm_type_oid = 23, cm_data_type = TInt4,
         cm_type_name = ''int4'', cm_cache_type_name = ''int4'', cm_is_primary_key = False\<rparr>\<rparr>"

definition sample_select :: "resolved_where_expr \<Rightarrow> select_node" where
  "sample_select e =
     SelectNode False NoColumns
       [SrcTable \<lparr>rt_schema = ''public'', rt_name = ''t'', rt_alias = None, rt_relation_oid = 1\<rparr>]
       (Some e) [] None"

definition sample_cmp :: "binary_op \<Rightarrow> int \<Rightarrow> resolved_where_expr" where
  "sample_cmp op n = WBinary op (WScalar (SColumn (sample_column ''t'' ''x''))) (WScalar (SLiteral (LInteger n)))"

definition sample_env :: "int \<Rightarrow> where_env" where
  "sample_env n =
     \<lparr>we_coll = (<), we_scalar = \<lambda>_. None, we_operand = \<lambda>_. None, we_where = \<lambda>_. False,
      we_rows = \<lambda>_ _ _. Some (VNum (Num (Fin (of_int n))))\<rparr>"

lemmas analyze_simps =
  analyze_query_constraints_def collect_query_constraints_def collector_new_def
  comparison_analyze_def canonicalize_comparison_def canonicalize_left_def cc_insert_def
  equiv_insert_def equiv_eq_def entry_push_def entry_update_def Let_def

lemma analyze_sample:
  assumes "is_comparison op"
  shows "analyze_query_constraints (sample_select (sample_cmp op n)) =
    \<lparr>qc_column_constraints = [CcComparison (sample_column ''t'' ''x'') op (LInteger n)],
     qc_equivalences = [],
     qc_table_constraints = [(''t'', [Comparison ''x'' op (LInteger n)])],
     qc_where_analysis_complete = True\<rparr>"
  using assms
  by (simp add: sample_select_def sample_cmp_def analyze_simps) (simp add: sample_column_def)

lemma sample_select_true:
  assumes "is_comparison op"
  shows "select_true (sample_env m) (sample_select (sample_cmp op n)) \<longleftrightarrow>
    op_sem (val_lt (<)) op (VNum (Num (Fin (of_int m)))) (VNum (Num (Fin (of_int n))))"
  using assms
  by (auto simp: select_true_def sample_select_def sample_cmp_def sample_env_def opv_def cmp2_def)

lemma sample_tests:
  "is_single_table (sample_select e)" "sn_where_clause (sample_select e) = Some e"
  "extractable (sample_cmp op n)" "we_coll (sample_env n) = (<)"
  "rc_table (sample_column t c) = t" "scoped (sample_select (sample_cmp op n))"
  "no_self_join (sample_select e)" "inner_joins (sample_select e)"
  "range_vars (sample_select e) = [(''t'', None)]"
  by (simp_all add: is_single_table_def sample_select_def sample_cmp_def sample_env_def
      sample_column_def scoped_def no_self_join_def inner_joins_def range_vars_def select_columns_def)

lemmas sample_simps =
  analyze_sample sample_select_true sample_tests c_collation.collation_axioms table_cs_def
  tcs_typed_def tcs_plain_def tcs_sem_def table_constraints_subsumed_def
  constraints_group_by_column_def entry_push_def entry_update_def

text \<open>
  C1. The constraints extracted from a query are necessary: whenever a combination of rows
  satisfies the \<open>WHERE\<close> clause and the join predicates, the row of every range variable satisfies
  all constraints recorded for its table, also those propagated through column equalities. The
  query may be completely analysed or not; its joins are inner joins, no table name occurs twice in
  its \<open>FROM\<close> clause (the analysis records constraints under the bare table name, so that those of
  a self-join hold for one arm only), and its columns belong to its own \<open>FROM\<close> clause.
\<close>

theorem analyze_query_constraints_necessary:
  assumes "collation (we_coll E)" "select_true E s" "inner_joins s" "no_self_join s" "scoped s"
    and "(t, a) \<in> set (range_vars s)"
  shows "tcs_sem (we_coll E) (table_cs (analyze_query_constraints s) t) (we_rows E t a)"
  by (rule analyze_necessary [OF assms])

text \<open>
  The witness is a join: \<open>t JOIN u ON t.x = u.y WHERE t.x > 3\<close>. The constraint reaches \<open>u\<close> by
  propagation.
\<close>

definition sample_source :: "string \<Rightarrow> string option \<Rightarrow> resolved_table_source" where
  "sample_source t a = SrcTable \<lparr>rt_schema = ''public'', rt_name = t, rt_alias = a, rt_relation_oid = 1\<rparr>"

definition sample_join :: "join_type \<Rightarrow> resolved_where_expr \<Rightarrow> resolved_where_expr option \<Rightarrow> select_node" where
  "sample_join jt on_expr where_expr =
     SelectNode False NoColumns
       [SrcJoin jt (sample_source ''t'' None) (sample_source ''u'' (Some ''b'')) (JoinOn on_expr)] where_expr [] None"

definition sample_equi :: resolved_where_expr where
  "sample_equi = WBinary Equal (WScalar (SColumn (sample_column ''t'' ''x'')))
     (WScalar (SColumn ((sample_column ''u'' ''y'')\<lparr>rc_table_alias := Some ''b''\<rparr>)))"

lemma sample_join_tests:
  "inner_joins (sample_join JInner on_expr w)" "no_self_join (sample_join jt on_expr w)"
  "scoped (sample_join jt sample_equi (Some (sample_cmp op n)))"
  "range_vars (sample_join jt on_expr w) = [(''t'', None), (''u'', Some ''b'')]"
  by (simp_all add: inner_joins_def no_self_join_def scoped_def range_vars_def select_columns_def sample_join_def
      sample_source_def sample_equi_def sample_cmp_def sample_column_def)

lemma sample_join_true: "select_true (sample_env 5) (sample_join JInner sample_equi (Some (sample_cmp GreaterThan 3)))"
  by (simp add: select_true_def sample_join_def sample_source_def sample_equi_def sample_cmp_def sample_env_def
      opv_def cmp2_def)

lemma sample_join_constraint:
  "Comparison ''y'' GreaterThan (LInteger 3) \<in>
     set (table_cs (analyze_query_constraints (sample_join JInner sample_equi (Some (sample_cmp GreaterThan 3)))) ''u'')"
proof -
  let ?c = "CcComparison ((sample_column ''u'' ''y'')\<lparr>rc_table_alias := Some ''b''\<rparr>) GreaterThan (LInteger 3)"
  let ?cl = "collect_query_constraints (sample_join JInner sample_equi (Some (sample_cmp GreaterThan 3)))"
  have cl: "cl_constraints ?cl = [CcComparison (sample_column ''t'' ''x'') GreaterThan (LInteger 3)]"
    "cl_equivalences ?cl = [\<lparr>eq_left = sample_column ''t'' ''x'',
       eq_right = (sample_column ''u'' ''y'')\<lparr>rc_table_alias := Some ''b''\<rparr>\<rparr>]"
    by (simp_all add: sample_join_def sample_source_def sample_equi_def sample_cmp_def analyze_simps)
  have "(col_key (sample_column ''t'' ''x''), col_key (cc_column ?c)) \<in> links (cl_equivalences ?cl)"
    unfolding cl(2) by (simp add: links_def)
  then have "reached (cl_equivalences ?cl) (cl_constraints ?cl) ?c"
    unfolding reached_def cl(1) by (simp add: r_into_trancl')
  from reached_propagate [OF this] obtain d where
    d: "d \<in> set (propagate_constraints (cl_constraints ?cl) (cl_equivalences ?cl))" "cc_key ?c = cc_key d" by blast
  have u: "rc_table (cc_column ?c) = ''u''" "table_constraint_of ?c = Comparison ''y'' GreaterThan (LInteger 3)"
    by (simp_all add: sample_column_def)
  from cc_key_recorded [OF d(2)] u have "rc_table (cc_column d) = ''u''"
    "Comparison ''y'' GreaterThan (LInteger 3) = table_constraint_of d" by (simp_all only:)
  with d(1) show ?thesis unfolding table_cs_analyze qc_columns_analyze set_map set_filter by blast
qed

theorem analyze_query_constraints_necessary_witness:
  "tcs_sem (<) [Comparison ''y'' GreaterThan (LInteger 3)] (we_rows (sample_env 5) ''u'' (Some ''b''))"
proof -
  have "tcs_sem (<) (table_cs (analyze_query_constraints (sample_join JInner sample_equi (Some (sample_cmp GreaterThan 3)))) ''u'')
      (we_rows (sample_env 5) ''u'' (Some ''b''))"
    using analyze_query_constraints_necessary
      [of "sample_env 5" "sample_join JInner sample_equi (Some (sample_cmp GreaterThan 3))" "''u''" "Some ''b''"]
    by (simp add: sample_tests sample_join_tests sample_join_true c_collation.collation_axioms)
  from bspec [OF this [unfolded tcs_sem_def] sample_join_constraint]
  show ?thesis by (simp only: tcs_sem_def list.set ball_simps simp_thms)
qed

text \<open>
  C5. The constraints of a completely analysed single-table query are exact: a row satisfies the
  recorded constraints if and only if the query selects it. The query compares no two columns, its
  columns are the table's own, and every \<open>BETWEEN\<close>, \<open>IN\<close> and \<open>NOT IN\<close> that is a conjunct of its
  \<open>WHERE\<close> clause is extractable: the subject is a bare column, the operands are literals, no value of
  an \<open>IN\<close> or \<open>NOT IN\<close> list is \<open>NULL\<close> or of another kind that has no order, and the two bounds of a
  \<open>BETWEEN SYMMETRIC\<close> are comparable. On other shapes the extractor records nothing and still
  reports the analysis as complete.
\<close>

theorem analyze_query_constraints_exact:
  assumes "collation (we_coll E)" "is_single_table s" "scoped s"
    and "\<forall>e. sn_where_clause s = Some e \<longrightarrow> extractable e"
    and "qc_where_analysis_complete (analyze_query_constraints s)"
    and "qc_equivalences (analyze_query_constraints s) = []"
    and "(t, a) \<in> set (range_vars s)"
  shows "tcs_sem (we_coll E) (table_cs (analyze_query_constraints s) t) (we_rows E t a) \<longleftrightarrow>
    select_true E s"
  by (rule analyze_single_exact [OF assms])

theorem analyze_query_constraints_exact_witness:
  "\<not> tcs_sem (<) (table_cs (analyze_query_constraints (sample_select (sample_cmp GreaterThan 3))) ''t'')
       (we_rows (sample_env 2) ''t'' None)"
  using analyze_query_constraints_exact
    [of "sample_env 2" "sample_select (sample_cmp GreaterThan 3)" "''t''" None]
  by (simp add: sample_simps)

text \<open>
  C10. Propagation of constraints through column equalities terminates for every input and computes
  a closure: a constraint is in the result exactly when it was there at the start, or when its test
  (the operator and the literal, or the list of values) is that of a starting constraint, not on a
  cast of the column, whose column is connected to its own by a chain of one or more equalities, each
  used in either direction. Columns are compared up to their alias.
\<close>

theorem propagate_constraints_closed:
  "(\<exists>d\<in>set (propagate_constraints cs es). cc_eq d k) \<longleftrightarrow>
   (\<exists>c\<in>set cs. cc_eq c k) \<or>
   (\<exists>c\<in>set cs. constraint_test c \<noteq> None \<and> constraint_test k = constraint_test c \<and>
      (col_key (cc_column c), col_key (cc_column k)) \<in> (links es)\<^sup>+)"
proof -
  have "(\<exists>d\<in>set xs. cc_eq d k) \<longleftrightarrow> cc_key k \<in> cc_key ` set xs" for xs
    unfolding cc_eq_key by (metis image_iff)
  then show ?thesis
    using propagate_reached [of k cs es] reached_propagate [of es cs k] unfolding reached_def by blast
qed

text \<open>
  C2. Subsumption is sound end to end: if the analysis of a new query is found to be subsumed on
  table \<open>t\<close> by the analysis of a cached single-table query, then every row of \<open>t\<close> that takes part
  in a result of the new query is selected by the cached query, hence present in the cache. The new
  query has inner joins only and no table name twice in its \<open>FROM\<close> clause. The cached query compares
  no two columns, and its \<open>BETWEEN\<close>, \<open>IN\<close> and \<open>NOT IN\<close> are extractable: a bare column with literals,
  none of an \<open>IN\<close> or \<open>NOT IN\<close> list being \<open>NULL\<close> or unordered, the bounds of a \<open>BETWEEN SYMMETRIC\<close>
  comparable. The columns of both queries belong to their own \<open>FROM\<close> clauses, the literals compared
  with a column (or with a column under a cast) are plain literals of one kind, and text and boolean
  columns carry no ordering bounds.
\<close>

theorem subsumed_query_rows_cached:
  assumes coll: "collation (we_coll E)"
    and single: "is_single_table cached" "scoped cached" "(t, b) \<in> set (range_vars cached)"
    and shape: "\<forall>e. sn_where_clause cached = Some e \<longrightarrow> extractable e"
    and eqs: "qc_equivalences (analyze_query_constraints cached) = []"
    and typed: "tcs_typed kind (table_cs (analyze_query_constraints cached) t)"
               "tcs_typed kind (table_cs (analyze_query_constraints new) t)"
    and plain: "tcs_plain kind (table_cs (analyze_query_constraints cached) t)"
               "tcs_plain kind (table_cs (analyze_query_constraints new) t)"
    and sub: "table_constraints_subsumed (analyze_query_constraints new)
                (analyze_query_constraints cached) t"
    and new: "select_true E new" "inner_joins new" "no_self_join new" "scoped new"
             "(t, a) \<in> set (range_vars new)"
    and same_row: "we_coll E1 = we_coll E" "we_rows E1 t b = we_rows E t a"
  shows "select_true E1 cached"
proof -
  have complete: "qc_where_analysis_complete (analyze_query_constraints cached)"
    using sub by (simp add: table_constraints_subsumed_def split: if_splits)
  have "tcs_sem (we_coll E) (table_cs (analyze_query_constraints cached) t) (we_rows E t a)"
    by (rule subsumed_rows [OF coll typed plain sub analyze_necessary [OF coll new]])
  then show ?thesis
    using analyze_single_exact [OF _ single(1,2) shape complete eqs single(3), of E1] coll same_row by simp
qed

theorem subsumed_query_rows_cached_witness:
  "select_true (sample_env 5) (sample_select (sample_cmp GreaterThan 0))"
  using subsumed_query_rows_cached
    [of "sample_env 5" "sample_select (sample_cmp GreaterThan 0)" "''t''" None "\<lambda>_. KInt"
        "sample_select (sample_cmp Equal 5)" None "sample_env 5"]
  by (simp add: sample_simps range_simps)

subsection \<open>Where the conditions matter\<close>

text \<open>
  The join type is not looked at: \<open>t LEFT JOIN u ON t.x = 1\<close> keeps every row of \<open>t\<close>, but the
  constraint \<open>x = 1\<close> is recorded for \<open>t\<close>, and a cached \<open>SELECT * FROM t WHERE x = 1\<close> is reported to
  cover \<open>t\<close>.
\<close>

definition null_extended_env :: "int \<Rightarrow> where_env" where
  "null_extended_env n = (sample_env n)\<lparr>we_rows := \<lambda>t a b. if t = ''u'' then None else we_rows (sample_env n) t a b\<rparr>"

lemma left_join_constraint_not_necessary:
  "select_true (null_extended_env 2) (sample_join JLeft (sample_cmp Equal 1) None)"
  "table_cs (analyze_query_constraints (sample_join JLeft (sample_cmp Equal 1) None)) ''t'' = [Comparison ''x'' Equal (LInteger 1)]"
  "\<not> tcs_sem (<) [Comparison ''x'' Equal (LInteger 1)] (we_rows (null_extended_env 2) ''t'' None)"
  "table_constraints_subsumed (analyze_query_constraints (sample_join JLeft (sample_cmp Equal 1) None))
     (analyze_query_constraints (sample_select (sample_cmp Equal 1))) ''t''"
  by (simp_all add: null_extended_env_def sample_env_def sample_join_def sample_source_def sample_cmp_def select_true_def
      null_side_def opv_def cmp2_def analyze_simps table_cs_def tcs_sem_def cmp_sem_def sample_select_def
      table_constraints_subsumed_def constraints_group_by_column_def range_simps)
    (simp_all add: sample_column_def)

text \<open>
  In the self-join \<open>t AS a JOIN t AS b WHERE a.x = 1\<close> the constraint is recorded for \<open>t\<close>, but the
  row of \<open>b\<close> need not satisfy it.
\<close>

definition sample_self_join :: select_node where
  "sample_self_join =
     SelectNode False NoColumns [SrcJoin JInner (sample_source ''t'' (Some ''a'')) (sample_source ''t'' (Some ''b'')) JoinCross]
       (Some (WBinary Equal (WScalar (SColumn ((sample_column ''t'' ''x'')\<lparr>rc_table_alias := Some ''a''\<rparr>)))
          (WScalar (SLiteral (LInteger 1))))) [] None"

definition two_arm_env :: where_env where
  "two_arm_env = (sample_env 1)\<lparr>we_rows := \<lambda>t a b. Some (VNum (Num (Fin (if a = Some ''b'' then 2 else 1))))\<rparr>"

lemma self_join_constraint_not_necessary:
  "select_true two_arm_env sample_self_join"
  "table_cs (analyze_query_constraints sample_self_join) ''t'' = [Comparison ''x'' Equal (LInteger 1)]"
  "\<not> tcs_sem (<) [Comparison ''x'' Equal (LInteger 1)] (we_rows two_arm_env ''t'' (Some ''b''))"
  by (simp_all add: two_arm_env_def sample_env_def sample_self_join_def sample_source_def select_true_def
      opv_def cmp2_def analyze_simps table_cs_def tcs_sem_def cmp_sem_def)
    (simp_all add: sample_column_def)

text \<open>
  A query that compares two columns of one table is recorded as completely analysed and without
  constraints, which the subsumption test reads as a full scan: it reports every query on the
  table as covered.
\<close>

definition column_equality_query :: select_node where
  "column_equality_query =
     sample_select (WBinary Equal (WScalar (SColumn (sample_column ''t'' ''x'')))
                      (WScalar (SColumn (sample_column ''t'' ''y''))))"

lemma column_equality_counts_as_full_scan:
  "table_constraints_subsumed q (analyze_query_constraints column_equality_query) ''t''"
  "\<not> select_true \<lparr>we_coll = (<), we_scalar = \<lambda>_. None, we_operand = \<lambda>_. None, we_where = \<lambda>_. False,
      we_rows = \<lambda>_ _ b. Some (VBool (fst b = ''x''))\<rparr> column_equality_query"
  by (simp_all add: column_equality_query_def sample_select_def sample_column_def analyze_simps
      propagate_constraints.simps propagate_round_def propagate_new_def
      table_constraints_subsumed_def select_true_def opv_def cmp2_def)

text \<open>
  So is an \<open>IN\<close> whose subject is not a bare column: the extractor returns early without marking
  the analysis incomplete.
\<close>

lemma opaque_in_counts_as_full_scan:
  "table_constraints_subsumed q
     (analyze_query_constraints
        (sample_select (WMulti MIn [WScalar (SFunction f), WScalar (SLiteral (LInteger 1))]))) ''t''"
  by (simp add: sample_select_def analyze_simps table_constraints_subsumed_def)

end
