(* ===== verification/Registry.thy ===== *)
theory Registry
  imports Update_Queries Extract_Sound
begin

text \<open>
  The writer's registry of cached queries: generations
  (\<^verbatim>\<open>src/cache/generation.rs\<close> and the cache of \<^verbatim>\<open>src/cache/types.rs\<close>), the reference counts of
  active relations (\<^verbatim>\<open>src/cache/writer/publication.rs\<close>), the bookkeeping of registration,
  readmission, limit bumps, invalidation and eviction (\<^verbatim>\<open>registration\<close>, \<^verbatim>\<open>cdc/invalidation.rs\<close>,
  \<^verbatim>\<open>eviction.rs\<close>), and the subsumption check (\<^verbatim>\<open>admission/subsume.rs\<close>, \<^verbatim>\<open>writer/subsumption.rs\<close>).

  The registry evolves by the step relation \<open>reg_step\<close>. Its invariants give the facts the rest of
  the writer needs: the rows of a live query are never purged, and every relation a cached query
  uses is active. The statements sent to the cache
  database, the dispatch-side view and the waiters are not part of the model.
\<close>

subsection \<open>Generations\<close>

definition gen_next :: "int \<Rightarrow> int" where
  "gen_next g = (if g = i64_max then i64_max else g + 1)"

definition gen_previous :: "int \<Rightarrow> int" where
  "gen_previous g = max (if g = i64_min then i64_min else g - 1) 0"

subsection \<open>State\<close>

record cached_query =
  cq_generation :: int
  cq_relation_oids :: "oid list"
  cq_max_limit :: "nat option"
  cq_cached_bytes :: nat
  cq_registration_started_at :: "nat option"
  cq_invalidated :: bool
  cq_pinned :: bool

datatype cache_policy = Fifo | Clock

record writer_core =
  wc_tables :: "(oid \<times> string) list"
  wc_update_queries :: "(oid \<times> update_queries) list"
  wc_cached_queries :: "(fingerprint \<times> cached_query) list"
  wc_generation_counter :: int
  wc_generations :: "int list"
  wc_relation_refcounts :: "(oid \<times> nat) list"
  wc_active_relations :: "oid list"
  wc_relations_dirty :: bool
  wc_readmits :: "fingerprint list"

definition core_new :: writer_core where
  "core_new =
     \<lparr>wc_tables = [], wc_update_queries = [], wc_cached_queries = [], wc_generation_counter = 0,
      wc_generations = [], wc_relation_refcounts = [], wc_active_relations = [],
      wc_relations_dirty = False, wc_readmits = []\<rparr>"

definition generation_allocate :: "writer_core \<Rightarrow> int \<times> writer_core" where
  "generation_allocate core =
     (let g = gen_next (wc_generation_counter core) in
      (g, core\<lparr>wc_generation_counter := g, wc_generations := List.insert g (wc_generations core)\<rparr>))"

definition generation_purge_threshold :: "writer_core \<Rightarrow> int" where
  "generation_purge_threshold core =
     (if wc_generations core = [] then wc_generation_counter core
      else gen_previous (Min (set (wc_generations core))))"

subsection \<open>Active relations\<close>

text \<open>The loop returns the new counts and the relations that went from 0 to 1, in order.\<close>

fun acquire_loop :: "oid list \<Rightarrow> (oid \<times> nat) list \<Rightarrow> (oid \<times> nat) list \<times> oid list" where
  "acquire_loop [] counts = (counts, [])"
| "acquire_loop (oid # oids) counts =
     (let n = (case map_of counts oid of None \<Rightarrow> 0 | Some n \<Rightarrow> n);
          (counts', fresh) = acquire_loop oids (AList.update oid (n + 1) counts)
      in (counts', if n = 0 then oid # fresh else fresh))"

definition active_relations_acquire :: "oid list \<Rightarrow> writer_core \<Rightarrow> bool \<times> writer_core" where
  "active_relations_acquire oids core =
     (let (counts, newly_active) = acquire_loop oids (wc_relation_refcounts core);
          core' = core\<lparr>wc_relation_refcounts := counts\<rparr>
      in if newly_active = [] then (False, core')
         else (True, core'\<lparr>wc_active_relations := fold List.insert newly_active (wc_active_relations core),
                           wc_relations_dirty := True\<rparr>))"

fun release_loop :: "oid list \<Rightarrow> (oid \<times> nat) list \<Rightarrow> (oid \<times> nat) list \<times> oid list" where
  "release_loop [] counts = (counts, [])"
| "release_loop (oid # oids) counts =
     (case map_of counts oid of
        None \<Rightarrow> release_loop oids counts
      | Some n \<Rightarrow>
          if n - 1 = 0
          then (let (counts', gone) = release_loop oids (AList.delete oid counts) in (counts', oid # gone))
          else release_loop oids (AList.update oid (n - 1) counts))"

definition active_relations_release :: "oid list \<Rightarrow> writer_core \<Rightarrow> bool \<times> writer_core" where
  "active_relations_release oids core =
     (let (counts, newly_inactive) = release_loop oids (wc_relation_refcounts core);
          core' = core\<lparr>wc_relation_refcounts := counts\<rparr>
      in if newly_inactive = [] then (False, core')
         else (True, core'\<lparr>wc_active_relations := fold removeAll newly_inactive (wc_active_relations core),
                           wc_relations_dirty := True\<rparr>))"

subsection \<open>Registration\<close>

record table_admission =
  ta_relation_oid :: oid
  ta_table_name :: string
  ta_update_query :: update_query
  ta_subsumer_eligible :: bool
  ta_index_constraints :: "table_constraint list"

definition admission_store :: "fingerprint \<Rightarrow> table_admission \<Rightarrow> update_queries \<Rightarrow> update_queries" where
  "admission_store fp a us =
     (let us1 = query_insert (ta_update_query a) us;
          us2 = (if ta_subsumer_eligible a
                 then us1\<lparr>uqs_subsumption := ix_insert fp (ta_index_constraints a) (uqs_subsumption us1)\<rparr>
                 else us1)
      in us2\<lparr>uqs_eval_index := ix_insert fp (ta_index_constraints a) (uqs_eval_index us2)\<rparr>)"

definition update_queries_register ::
  "fingerprint \<Rightarrow> table_admission list \<Rightarrow> writer_core \<Rightarrow> oid list \<times> writer_core" where
  "update_queries_register fp tables core =
     (map ta_relation_oid tables,
      core\<lparr>wc_update_queries :=
        fold (\<lambda>a m. entry_update (uqs_new (ta_relation_oid a)) (admission_store fp a) (ta_relation_oid a) m)
          tables (wc_update_queries core)\<rparr>)"

definition fingerprint_drop :: "fingerprint \<Rightarrow> update_queries \<Rightarrow> update_queries" where
  "fingerprint_drop fp us =
     (let us1 = query_remove fp us;
          us2 = us1\<lparr>uqs_subsumption := ix_remove fp (uqs_subsumption us1)\<rparr>
      in us2\<lparr>uqs_eval_index := ix_remove fp (uqs_eval_index us2)\<rparr>)"

text \<open>A step on the entry of one relation, which is skipped if the relation has none.\<close>

definition relation_modify ::
  "(update_queries \<Rightarrow> update_queries) \<Rightarrow> oid \<Rightarrow> (oid \<times> update_queries) list \<Rightarrow> (oid \<times> update_queries) list" where
  "relation_modify f oid m = (case map_of m oid of None \<Rightarrow> m | Some us \<Rightarrow> AList.update oid (f us) m)"

definition update_queries_remove_fingerprint :: "fingerprint \<Rightarrow> oid list \<Rightarrow> writer_core \<Rightarrow> writer_core" where
  "update_queries_remove_fingerprint fp oids core =
     core\<lparr>wc_update_queries := fold (relation_modify (fingerprint_drop fp)) oids (wc_update_queries core)\<rparr>"

text \<open>
  \<^verbatim>\<open>insert_overwrite\<close> on the map with two keys: entries with the same fingerprint or the same
  generation are dropped first.
\<close>

definition insert_overwrite ::
  "fingerprint \<Rightarrow> cached_query \<Rightarrow> (fingerprint \<times> cached_query) list \<Rightarrow> (fingerprint \<times> cached_query) list" where
  "insert_overwrite fp q m =
     (fp, q) # filter (\<lambda>(fp', q'). fp' \<noteq> fp \<and> cq_generation q' \<noteq> cq_generation q) m"

record registration_identity =
  ri_fingerprint :: fingerprint
  ri_started_at :: nat
  ri_pinned :: bool

definition cached_query_insert ::
  "registration_identity \<Rightarrow> oid list \<Rightarrow> nat option \<Rightarrow> writer_core \<Rightarrow> (int \<times> bool) \<times> writer_core" where
  "cached_query_insert identity relation_oids max_limit core =
     (let (generation, core1) = generation_allocate core;
          (changed, core2) = active_relations_acquire relation_oids core1
      in ((generation, changed),
          core2\<lparr>wc_cached_queries :=
            insert_overwrite (ri_fingerprint identity)
              \<lparr>cq_generation = generation, cq_relation_oids = relation_oids, cq_max_limit = max_limit,
               cq_cached_bytes = 0, cq_registration_started_at = Some (ri_started_at identity),
               cq_invalidated = False, cq_pinned = ri_pinned identity\<rparr>
              (wc_cached_queries core2)\<rparr>))"

definition query_readmit :: "fingerprint \<Rightarrow> nat \<Rightarrow> writer_core \<Rightarrow> writer_core" where
  "query_readmit fp started_at core =
     (let (new_generation, core1) = generation_allocate core in
      case map_of (wc_cached_queries core1) fp of
        None \<Rightarrow> core1
      | Some cached \<Rightarrow>
          core1\<lparr>wc_cached_queries :=
            insert_overwrite fp
              (cached\<lparr>cq_generation := new_generation, cq_invalidated := False, cq_cached_bytes := 0,
                      cq_registration_started_at := Some started_at\<rparr>)
              (AList.delete fp (wc_cached_queries core1))\<rparr>)"

definition subsumption_limit_reindex :: "fingerprint \<Rightarrow> oid list \<Rightarrow> bool \<Rightarrow> writer_core \<Rightarrow> writer_core" where
  "subsumption_limit_reindex fp relation_oids has_limit core =
     core\<lparr>wc_update_queries :=
       fold (\<lambda>oid. relation_modify (limit_reindex fp (map_of (wc_tables core) oid) has_limit) oid)
         relation_oids (wc_update_queries core)\<rparr>"

definition limit_bump_handle :: "fingerprint \<Rightarrow> nat option \<Rightarrow> nat \<Rightarrow> writer_core \<Rightarrow> writer_core" where
  "limit_bump_handle fp new_max_limit now core =
     (case map_of (wc_cached_queries core) fp of
        None \<Rightarrow> core
      | Some cached \<Rightarrow>
          (let old_generation = cq_generation cached;
               (new_generation, core1) = generation_allocate core;
               core2 = core1\<lparr>wc_generations := removeAll old_generation (wc_generations core1)\<rparr>;
               core3 = core2\<lparr>wc_cached_queries :=
                   insert_overwrite fp
                     (cached\<lparr>cq_generation := new_generation, cq_max_limit := new_max_limit,
                             cq_registration_started_at := Some now\<rparr>)
                     (AList.delete fp (wc_cached_queries core2))\<rparr>
           in subsumption_limit_reindex fp (cq_relation_oids cached) (new_max_limit \<noteq> None) core3))"

subsection \<open>Removal\<close>

definition query_failed_cleanup :: "fingerprint \<Rightarrow> writer_core \<Rightarrow> writer_core" where
  "query_failed_cleanup fp core =
     (case map_of (wc_cached_queries core) fp of
        Some q \<Rightarrow>
          (let core1 = core\<lparr>wc_cached_queries := AList.delete fp (wc_cached_queries core)\<rparr>;
               core2 = core1\<lparr>wc_generations := removeAll (cq_generation q) (wc_generations core1)\<rparr>;
               core3 = update_queries_remove_fingerprint fp (cq_relation_oids q) core2
           in snd (active_relations_release (cq_relation_oids q) core3))
      | None \<Rightarrow>
          core\<lparr>wc_update_queries := map (\<lambda>(oid, us). (oid, fingerprint_drop fp us)) (wc_update_queries core)\<rparr>)"

definition query_invalidated_mark :: "fingerprint \<Rightarrow> int \<Rightarrow> writer_core \<Rightarrow> writer_core" where
  "query_invalidated_mark fp generation core =
     (let core1 = core\<lparr>wc_generations := removeAll generation (wc_generations core)\<rparr> in
      case map_of (wc_cached_queries core1) fp of
        None \<Rightarrow> core1
      | Some q \<Rightarrow>
          core1\<lparr>wc_cached_queries := AList.update fp (q\<lparr>cq_invalidated := True\<rparr>) (wc_cached_queries core1)\<rparr>)"

definition cache_query_evict :: "fingerprint \<Rightarrow> writer_core \<Rightarrow> writer_core" where
  "cache_query_evict fp core =
     (case map_of (wc_cached_queries core) fp of
        None \<Rightarrow> core
      | Some q \<Rightarrow>
          (let core1 = core\<lparr>wc_cached_queries := AList.delete fp (wc_cached_queries core)\<rparr>;
               core2 = snd (active_relations_release (cq_relation_oids q) core1);
               core3 = core2\<lparr>wc_generations := removeAll (cq_generation q) (wc_generations core2)\<rparr>
           in update_queries_remove_fingerprint fp (cq_relation_oids q) core3))"

definition cache_query_cdc_invalidate :: "cache_policy \<Rightarrow> fingerprint \<Rightarrow> writer_core \<Rightarrow> bool \<times> writer_core" where
  "cache_query_cdc_invalidate policy fp core =
     (case map_of (wc_cached_queries core) fp of
        Some q \<Rightarrow>
          if cq_pinned q then (True, core\<lparr>wc_readmits := wc_readmits core @ [fp]\<rparr>)
          else if policy = Fifo then (True, cache_query_evict fp core)
          else if cq_invalidated q then (False, core)
          else (True, query_invalidated_mark fp (cq_generation q) core)
      | None \<Rightarrow> if policy = Fifo then (True, cache_query_evict fp core) else (False, core))"

definition cache_table_invalidate :: "oid \<Rightarrow> writer_core \<Rightarrow> writer_core" where
  "cache_table_invalidate relation_oid core =
     fold cache_query_evict
       (map fst (filter (\<lambda>(_, q). relation_oid \<in> set (cq_relation_oids q)) (wc_cached_queries core))) core"

text \<open>\<^verbatim>\<open>min_by_key\<close> returns the first of several minima, as \<^const>\<open>arg_min_list\<close> does.\<close>

definition disk_reclaim_drop_smallest :: "writer_core \<Rightarrow> writer_core" where
  "disk_reclaim_drop_smallest core =
     (case filter (\<lambda>us. uqs_queries us \<noteq> []) (map snd (wc_update_queries core)) of
        [] \<Rightarrow> core
      | entries \<Rightarrow>
          fold cache_query_evict
            (map fst (uqs_queries (arg_min_list (\<lambda>us. length (uqs_queries us)) entries))) core)"

text \<open>
  The writer's part of the tick that collects dead entries: the generation of an invalidated query
  was taken out of the active set when it was invalidated.
\<close>

definition stale_entry_remove :: "fingerprint \<Rightarrow> writer_core \<Rightarrow> writer_core" where
  "stale_entry_remove fp core =
     (case map_of (wc_cached_queries core) fp of
        None \<Rightarrow> core
      | Some q \<Rightarrow>
          (let core1 = core\<lparr>wc_cached_queries := AList.delete fp (wc_cached_queries core)\<rparr>;
               core2 = update_queries_remove_fingerprint fp (cq_relation_oids q) core1
           in snd (active_relations_release (cq_relation_oids q) core2)))"

definition stale_entries_cleanup :: "writer_core \<Rightarrow> writer_core" where
  "stale_entries_cleanup core =
     (let cleanup_threshold = generation_purge_threshold core;
          stale = map fst (filter (\<lambda>(_, q). cq_invalidated q \<and> \<not> cq_pinned q \<and>
                                     cq_generation q < cleanup_threshold) (wc_cached_queries core))
      in fold stale_entry_remove stale core)"

text \<open>\<open>promoted\<close> is the number of rows the cache database reports as promoted.\<close>

definition generation_zero_promote :: "int \<Rightarrow> writer_core \<Rightarrow> writer_core" where
  "generation_zero_promote promoted core =
     (let new_gen = gen_next (wc_generation_counter core) in
      if promoted > 0 then core\<lparr>wc_generation_counter := new_gen\<rparr> else core)"

text \<open>
  The second chance of the clock policy. The three statements on the cache database either all
  succeed, or the handler returns early with the new generation already allocated.
\<close>

definition cache_query_generation_bump :: "bool \<Rightarrow> fingerprint \<Rightarrow> writer_core \<Rightarrow> writer_core" where
  "cache_query_generation_bump db_ok fp core =
     (case map_of (wc_cached_queries core) fp of
        None \<Rightarrow> core
      | Some q \<Rightarrow>
          (let (new_generation, core1) = generation_allocate core in
           if \<not> db_ok then core1
           else
             (let core2 = core1\<lparr>wc_generations := removeAll (cq_generation q) (wc_generations core1)\<rparr> in
              core2\<lparr>wc_cached_queries :=
                insert_overwrite fp (q\<lparr>cq_generation := new_generation\<rparr>)
                  (AList.delete fp (wc_cached_queries core2))\<rparr>)))"

subsection \<open>Subsumption check\<close>

record subsumer_candidate =
  cand_constraints :: query_constraints
  cand_has_limit :: bool
  cand_single_relation :: bool
  cand_ready :: bool

definition subsumption_covered ::
  "query_constraints \<Rightarrow> (oid \<times> string) list
   \<Rightarrow> (oid \<Rightarrow> table_constraint list \<Rightarrow> subsumer_candidate list) \<Rightarrow> bool" where
  "subsumption_covered new_constraints relations source =
     (if relations = [] then False
      else list_all
        (\<lambda>(relation_oid, table_name).
           list_ex
             (\<lambda>c. \<not> cand_has_limit c \<and> cand_ready c \<and> cand_single_relation c \<and>
                  table_constraints_subsumed new_constraints (cand_constraints c) table_name)
             (source relation_oid (table_cs new_constraints table_name)))
        relations)"

definition candidate_of :: "writer_core \<Rightarrow> fingerprint \<Rightarrow> update_query \<Rightarrow> subsumer_candidate" where
  "candidate_of core fp q =
     (let parent = map_of (wc_cached_queries core) fp in
      \<lparr>cand_constraints = uq_constraints q, cand_has_limit = uq_has_limit q,
       cand_single_relation =
         (case parent of None \<Rightarrow> False | Some p \<Rightarrow> length (cq_relation_oids p) = 1),
       cand_ready =
         (case parent of
            None \<Rightarrow> False
          | Some p \<Rightarrow> \<not> cq_invalidated p \<and> cq_registration_started_at p = None)\<rparr>)"

definition writer_candidates ::
  "writer_core \<Rightarrow> oid \<Rightarrow> table_constraint list \<Rightarrow> subsumer_candidate list" where
  "writer_candidates core relation_oid table_constraints =
     (case map_of (wc_update_queries core) relation_oid of
        None \<Rightarrow> []
      | Some us \<Rightarrow>
          List.map_filter
            (\<lambda>fp. map_option (candidate_of core fp) (map_of (uqs_queries us) fp))
            (candidates (uqs_subsumption us) table_constraints))"

definition subsumption_check :: "resolved_query_expr \<Rightarrow> oid list \<Rightarrow> writer_core \<Rightarrow> bool" where
  "subsumption_check resolved relation_oids core =
     (if relation_oids = [] then False
      else (case as_select resolved of
              None \<Rightarrow> False
            | Some select \<Rightarrow>
                (let new_constraints = analyze_query_constraints select in
                 case those (map (\<lambda>oid. map_option (Pair oid) (map_of (wc_tables core) oid)) relation_oids) of
                   None \<Rightarrow> False
                 | Some relations \<Rightarrow>
                     subsumption_covered new_constraints relations (writer_candidates core))))"

subsection \<open>Reference counts of relations\<close>

lemma acquire_loop_counts: "fst (acquire_loop oids counts) = column_refcounts_account oids True counts"
  by (induction oids arbitrary: counts)
    (simp_all add: column_refcounts_account_def refcount_step_def entry_update_def Let_def case_prod_unfold)

lemma release_loop_counts: "fst (release_loop oids counts) = column_refcounts_account oids False counts"
  by (induction oids arbitrary: counts)
    (simp_all add: column_refcounts_account_def refcount_step_def Let_def case_prod_unfold split: option.splits)

lemma acquire_loop_dom:
  "dom (map_of (fst (acquire_loop oids counts))) = dom (map_of counts) \<union> set oids"
proof (induction oids arbitrary: counts)
  case (Cons oid oids)
  have "dom (map_of (AList.update oid n counts)) = insert oid (dom (map_of counts))" for n
    by (auto simp: map_of_update dom_def)
  with Cons.IH show ?case by (simp add: Let_def case_prod_unfold)
qed simp

lemma acquire_loop_fresh:
  "\<forall>oid. map_of counts oid \<noteq> Some 0 \<Longrightarrow>
   set (snd (acquire_loop oids counts)) = set oids - dom (map_of counts)"
proof (induction oids arbitrary: counts)
  case (Cons oid oids)
  let ?n = "case map_of counts oid of None \<Rightarrow> 0 | Some n \<Rightarrow> n"
  let ?c = "AList.update oid (?n + 1) counts"
  have "\<forall>oid'. map_of ?c oid' \<noteq> Some 0" using Cons.prems by (simp add: map_of_update)
  from Cons.IH [OF this] have IH: "set (snd (acquire_loop oids ?c)) = set oids - (insert oid (dom (map_of counts)))"
    by (auto simp: map_of_update dom_def)
  have "?n = 0 \<longleftrightarrow> oid \<notin> dom (map_of counts)"
    using spec [OF Cons.prems, of oid] by (cases "map_of counts oid") (simp_all add: dom_def)
  with IH show ?case by (auto simp: Let_def case_prod_unfold)
qed simp

lemma release_loop_dom:
  "dom (map_of (fst (release_loop oids counts))) = dom (map_of counts) - set (snd (release_loop oids counts))"
proof (induction oids arbitrary: counts)
  case (Cons oid oids)
  have "dom (map_of (AList.delete oid counts)) = dom (map_of counts) - {oid}"
    by (auto simp: map_of_delete dom_def)
  moreover have "dom (map_of (AList.update oid n counts)) = dom (map_of counts)" if "map_of counts oid = Some m" for n m
    using that by (auto simp: map_of_update dom_def)
  ultimately show ?case
    using Cons.IH by (auto simp: Let_def case_prod_unfold split: option.splits)
qed simp

lemma set_fold_insert: "set (fold List.insert xs ys) = set xs \<union> set ys"
  by (induction xs arbitrary: ys) auto

lemma set_fold_removeAll: "set (fold removeAll xs ys) = set ys - set xs"
  by (induction xs arbitrary: ys) auto

definition relations_ok :: "writer_core \<Rightarrow> (oid \<Rightarrow> nat) \<Rightarrow> bool" where
  "relations_ok core f \<longleftrightarrow> counts_ok (wc_relation_refcounts core) f \<and>
     set (wc_active_relations core) = dom (map_of (wc_relation_refcounts core))"

lemma acquire_relations_ok:
  assumes "relations_ok core f"
  shows "relations_ok (snd (active_relations_acquire oids core)) (\<lambda>oid. f oid + count_list oids oid)"
proof -
  let ?loop = "acquire_loop oids (wc_relation_refcounts core)"
  from assms have pos: "\<forall>oid. map_of (wc_relation_refcounts core) oid \<noteq> Some 0"
    by (simp add: relations_ok_def counts_ok_def)
  have "counts_ok (fst ?loop) (\<lambda>oid. f oid + count_list oids oid)"
    unfolding acquire_loop_counts using assms by (intro counts_ok_add) (simp add: relations_ok_def)
  moreover have "set (snd ?loop) = set oids - dom (map_of (wc_relation_refcounts core))"
    by (rule acquire_loop_fresh [OF pos])
  ultimately show ?thesis
    using assms acquire_loop_dom [of oids "wc_relation_refcounts core"]
    by (auto simp: relations_ok_def active_relations_acquire_def Let_def case_prod_unfold set_fold_insert)
qed

lemma release_relations_ok:
  assumes "relations_ok core f"
  shows "relations_ok (snd (active_relations_release oids core)) (\<lambda>oid. f oid - count_list oids oid)"
proof -
  let ?loop = "release_loop oids (wc_relation_refcounts core)"
  have "counts_ok (fst ?loop) (\<lambda>oid. f oid - count_list oids oid)"
    unfolding release_loop_counts using assms by (intro counts_ok_sub) (simp add: relations_ok_def)
  then show ?thesis
    using assms release_loop_dom [of oids "wc_relation_refcounts core"]
    by (auto simp: relations_ok_def active_relations_release_def Let_def case_prod_unfold set_fold_removeAll)
qed

lemma relations_sel [simp]:
  "wc_cached_queries (snd (active_relations_acquire oids core)) = wc_cached_queries core"
  "wc_generations (snd (active_relations_acquire oids core)) = wc_generations core"
  "wc_generation_counter (snd (active_relations_acquire oids core)) = wc_generation_counter core"
  "wc_cached_queries (snd (active_relations_release oids core)) = wc_cached_queries core"
  "wc_generations (snd (active_relations_release oids core)) = wc_generations core"
  "wc_generation_counter (snd (active_relations_release oids core)) = wc_generation_counter core"
  "wc_update_queries (snd (active_relations_acquire oids core)) = wc_update_queries core"
  "wc_update_queries (snd (active_relations_release oids core)) = wc_update_queries core"
  by (simp_all add: active_relations_acquire_def active_relations_release_def Let_def case_prod_unfold)

lemma relations_ok_frame:
  "wc_relation_refcounts c' = wc_relation_refcounts c \<Longrightarrow> wc_active_relations c' = wc_active_relations c \<Longrightarrow>
   relations_ok c' f = relations_ok c f"
  by (simp add: relations_ok_def)

subsection \<open>Steps of the writer\<close>

definition query_ready_mark :: "fingerprint \<Rightarrow> nat \<Rightarrow> writer_core \<Rightarrow> writer_core" where
  "query_ready_mark fp cached_bytes core =
     (case map_of (wc_cached_queries core) fp of
        None \<Rightarrow> core
      | Some q \<Rightarrow>
          core\<lparr>wc_cached_queries :=
            AList.update fp (q\<lparr>cq_cached_bytes := cached_bytes, cq_registration_started_at := None\<rparr>)
              (wc_cached_queries core)\<rparr>)"

text \<open>
  A subsumed query is inserted, and marked as populated when its rows could be stamped in the cache
  database. The registration handler readmits an invalidated query; otherwise it resolves the
  query, stores its update queries (\<open>tables\<close>, the outcome of the admission analysis), and then
  subsumes it, drops the update queries again when it was only to be checked, or inserts it.
\<close>

datatype admit_action = Admit | CheckOnly

definition query_subsume ::
  "bool \<Rightarrow> registration_identity \<Rightarrow> oid list \<Rightarrow> nat option \<Rightarrow> writer_core \<Rightarrow> writer_core" where
  "query_subsume db_ok identity relation_oids max_limit core =
     (let core1 = snd (cached_query_insert identity relation_oids max_limit core);
          fp = ri_fingerprint identity
      in if \<not> db_ok then core1
         else (case map_of (wc_cached_queries core1) fp of
                 None \<Rightarrow> core1
               | Some q \<Rightarrow>
                   core1\<lparr>wc_cached_queries :=
                     AList.update fp (q\<lparr>cq_registration_started_at := None\<rparr>) (wc_cached_queries core1)\<rparr>))"

definition query_register ::
  "bool \<Rightarrow> registration_identity \<Rightarrow> admit_action \<Rightarrow> resolved_query_expr \<Rightarrow> table_admission list
   \<Rightarrow> nat option \<Rightarrow> writer_core \<Rightarrow> writer_core" where
  "query_register db_ok identity action resolved tables max_limit core =
     (let fp = ri_fingerprint identity in
      if (case map_of (wc_cached_queries core) fp of None \<Rightarrow> False | Some q \<Rightarrow> cq_invalidated q)
      then query_readmit fp (ri_started_at identity) core
      else (let (relation_oids, core1) = update_queries_register fp tables core in
            if subsumption_check resolved relation_oids core1
            then query_subsume db_ok identity relation_oids max_limit core1
            else if action = CheckOnly
            then update_queries_remove_fingerprint fp relation_oids core1
            else snd (cached_query_insert identity relation_oids max_limit core1)))"

text \<open>
  The commands and ticks that change the registry. Registration does not test whether the query is
  already registered; \<open>once\<close> says that no registration arrives for a query that is registered and
  not invalidated. A registration that fails after its update queries were stored, like a failed
  population, readmission or limit bump, ends in \<open>query_failed_cleanup\<close>. A readmission comes from
  the queue that the invalidation of a pinned query feeds, or from a registration.
\<close>

inductive reg_step :: "bool \<Rightarrow> writer_core \<Rightarrow> writer_core \<Rightarrow> bool" for once where
  register:
    "\<forall>a\<in>set tables. uq_fingerprint (ta_update_query a) = ri_fingerprint i \<Longrightarrow>
     once \<longrightarrow> (case map_of (wc_cached_queries c) (ri_fingerprint i) of None \<Rightarrow> True | Some q \<Rightarrow> cq_invalidated q) \<Longrightarrow>
     reg_step once c (query_register db_ok i action resolved tables max_limit c)"
| register_failed:
    "\<forall>a\<in>set tables. uq_fingerprint (ta_update_query a) = fp \<Longrightarrow>
     reg_step once c (query_failed_cleanup fp (snd (update_queries_register fp tables c)))"
| readmit_pinned:
    "wc_readmits c = fp # rest \<Longrightarrow> reg_step once c (query_readmit fp now (c\<lparr>wc_readmits := rest\<rparr>))"
| limit_bump: "reg_step once c (limit_bump_handle fp max_limit now c)"
| ready: "reg_step once c (query_ready_mark fp bytes c)"
| failed: "reg_step once c (query_failed_cleanup fp c)"
| invalidate: "reg_step once c (snd (cache_query_cdc_invalidate policy fp c))"
| evict: "reg_step once c (cache_query_evict fp c)"
| table_invalidate: "reg_step once c (cache_table_invalidate relation_oid c)"
| reclaim: "reg_step once c (disk_reclaim_drop_smallest c)"
| stale: "reg_step once c (stale_entries_cleanup c)"
| promote: "reg_step once c (generation_zero_promote promoted c)"
| bump: "reg_step once c (cache_query_generation_bump db_ok fp c)"
| table: "reg_step once c (c\<lparr>wc_tables := tables\<rparr>)"

text \<open>Reachable after \<open>n\<close> steps; the count bounds the generations allocated so far.\<close>

inductive reg_reach :: "bool \<Rightarrow> nat \<Rightarrow> writer_core \<Rightarrow> bool" for once where
  start: "reg_reach once 0 core_new"
| step: "reg_reach once n c \<Longrightarrow> reg_step once c c' \<Longrightarrow> reg_reach once (Suc n) c'"

subsection \<open>Generations of live queries\<close>

definition gen_inv :: "nat \<Rightarrow> int \<Rightarrow> int set \<Rightarrow> (fingerprint \<Rightarrow> cached_query option) \<Rightarrow> bool" where
  "gen_inv n k G M \<longleftrightarrow>
     0 \<le> k \<and> k \<le> int n \<and> finite G \<and> (\<forall>g\<in>G. 1 \<le> g \<and> g \<le> k) \<and>
     (\<forall>fp q. M fp = Some q \<longrightarrow> 1 \<le> cq_generation q \<and> cq_generation q \<le> k) \<and>
     (\<forall>fp q fp' q'. M fp = Some q \<longrightarrow> M fp' = Some q' \<longrightarrow>
        cq_generation q = cq_generation q' \<longrightarrow> fp = fp') \<and>
     (\<forall>fp q. M fp = Some q \<longrightarrow> \<not> cq_invalidated q \<longrightarrow> cq_generation q \<in> G)"

abbreviation core_gen_inv :: "nat \<Rightarrow> writer_core \<Rightarrow> bool" where
  "core_gen_inv n c \<equiv>
     gen_inv n (wc_generation_counter c) (set (wc_generations c)) (map_of (wc_cached_queries c))"

lemma gen_inv_alloc:
  "gen_inv n k G M \<Longrightarrow> gen_inv (Suc n) (k + 1) (insert (k + 1) G) M"
  by (fastforce simp: gen_inv_def)

lemma gen_inv_counter: "gen_inv n k G M \<Longrightarrow> gen_inv (Suc n) (k + 1) G M"
  by (fastforce simp: gen_inv_def)

lemma gen_inv_renew:
  assumes "gen_inv n k G M" "cq_generation q = k + 1" "D \<subseteq> {cq_generation q' |q'. M fp = Some q'}"
  shows "gen_inv (Suc n) (k + 1) (insert (k + 1) G - D) (M(fp \<mapsto> q))"
proof -
  have bnd: "1 \<le> cq_generation q' \<and> cq_generation q' \<le> k" if "M fp' = Some q'" for fp' q'
    using assms(1) that by (auto simp: gen_inv_def)
  have new: "k + 1 \<notin> D" using assms(3) bnd by fastforce
  have inj: "fp1 = fp2" if "M fp1 = Some q1" "M fp2 = Some q2" "cq_generation q1 = cq_generation q2"
    for fp1 fp2 q1 q2 using assms(1) that unfolding gen_inv_def by blast
  have other: "cq_generation q' \<notin> D" if "M fp' = Some q'" "fp' \<noteq> fp" for fp' q'
    using assms(3) that inj by blast
  have live: "cq_generation q' \<in> G" if "M fp' = Some q'" "\<not> cq_invalidated q'" for fp' q'
    using assms(1) that by (auto simp: gen_inv_def)
  have base: "0 \<le> k" "k \<le> int n" "finite G" "\<forall>g\<in>G. 1 \<le> g \<and> g \<le> k"
    using assms(1) by (auto simp: gen_inv_def)
  show ?thesis
    unfolding gen_inv_def
  proof (intro conjI allI impI)
    fix fp1 q1 fp2 q2
    assume "(M(fp \<mapsto> q)) fp1 = Some q1" "(M(fp \<mapsto> q)) fp2 = Some q2" "cq_generation q1 = cq_generation q2"
    then show "fp1 = fp2"
      using bnd [of fp1 q1] bnd [of fp2 q2] inj [of fp1 q1 fp2 q2] assms(2)
      by (cases "fp1 = fp"; cases "fp2 = fp") auto
  next
    fix fp1 q1 assume q1: "(M(fp \<mapsto> q)) fp1 = Some q1"
    then show "1 \<le> cq_generation q1" "cq_generation q1 \<le> k + 1"
      using bnd [of fp1 q1] base assms(2) by (cases "fp1 = fp"; force)+
    assume "\<not> cq_invalidated q1"
    with q1 show "cq_generation q1 \<in> insert (k + 1) G - D"
      using other [of fp1 q1] live [of fp1 q1] new assms(2) by (cases "fp1 = fp") auto
  qed (use base in auto)
qed

lemma gen_inv_drop:
  assumes "gen_inv n k G M" "M fp = Some q"
  shows "gen_inv n k (G - {cq_generation q}) (M(fp := None))"
  using assms unfolding gen_inv_def by (auto split: if_splits)

lemma gen_inv_invalidate:
  assumes "gen_inv n k G M" "M fp = Some q" "cq_generation q' = cq_generation q" "cq_invalidated q'"
  shows "gen_inv n k (G - {cq_generation q}) (M(fp \<mapsto> q'))"
  using assms unfolding gen_inv_def by (auto split: if_splits)

lemma gen_inv_same:
  assumes "gen_inv n k G M" "M fp = Some q" "cq_generation q' = cq_generation q"
    "cq_invalidated q' = cq_invalidated q"
  shows "gen_inv n k G (M(fp \<mapsto> q'))"
  using assms unfolding gen_inv_def by (auto split: if_splits)

lemma gen_inv_mono: "gen_inv n k G M \<Longrightarrow> n \<le> n' \<Longrightarrow> gen_inv n' k G M"
  by (auto simp: gen_inv_def)

lemma gen_inv_threshold:
  assumes "core_gen_inv n c" "map_of (wc_cached_queries c) fp = Some q" "\<not> cq_invalidated q"
  shows "generation_purge_threshold c < cq_generation q"
proof -
  from assms have g: "cq_generation q \<in> set (wc_generations c)" "1 \<le> cq_generation q"
    by (auto simp: gen_inv_def)
  then have ne: "set (wc_generations c) \<noteq> {}" by auto
  let ?m = "Min (set (wc_generations c))"
  have "?m \<le> cq_generation q" using g by simp
  moreover have "1 \<le> ?m" using Min_in [OF _ ne] assms(1) by (auto simp: gen_inv_def)
  moreover have "?m \<noteq> i64_min"
  proof
    assume "?m = i64_min"
    with \<open>1 \<le> ?m\<close> have "1 \<le> i64_min" by (simp only:)
    then show False by (simp add: i64_min_def)
  qed
  ultimately show ?thesis
    using ne g(2) by (simp add: generation_purge_threshold_def gen_previous_def del: Min_ge_iff Min_le_iff)
qed

lemma generation_allocate_eq:
  assumes "wc_generation_counter c < i64_max"
  shows "generation_allocate c =
    (wc_generation_counter c + 1,
     c\<lparr>wc_generation_counter := wc_generation_counter c + 1,
       wc_generations := List.insert (wc_generation_counter c + 1) (wc_generations c)\<rparr>)"
  using assms by (simp add: generation_allocate_def gen_next_def Let_def)

lemma map_of_insert_overwrite:
  assumes "\<And>fp' q'. (fp', q') \<in> set m \<Longrightarrow> cq_generation q' \<noteq> cq_generation q"
  shows "map_of (insert_overwrite fp q m) = (map_of m)(fp \<mapsto> q)"
proof -
  have "filter (\<lambda>(fp', q'). fp' \<noteq> fp \<and> cq_generation q' \<noteq> cq_generation q) m = AList.delete fp m"
    using assms by (auto simp: AList.delete_eq intro!: filter_cong)
  then show ?thesis by (auto simp: insert_overwrite_def map_of_delete)
qed

lemma gen_inv_bound:
  assumes "gen_inv n k G (map_of m)" "distinct (map fst m)" "(fp, q) \<in> set m"
  shows "cq_generation q \<le> k"
  using assms map_of_eq_Some_iff [OF assms(2)] by (auto simp: gen_inv_def)

definition keys_ok :: "writer_core \<Rightarrow> bool" where
  "keys_ok c \<longleftrightarrow> distinct (map fst (wc_cached_queries c))"

lemma distinct_insert_overwrite: "distinct (map fst m) \<Longrightarrow> distinct (map fst (insert_overwrite fp q m))"
  by (auto simp: insert_overwrite_def distinct_fst_filter)

lemma keys_ok_frame: "wc_cached_queries c' = wc_cached_queries c \<Longrightarrow> keys_ok c' = keys_ok c"
  by (simp add: keys_ok_def)

lemma keys_ok_update: "keys_ok c \<Longrightarrow> keys_ok (c\<lparr>wc_cached_queries := AList.update fp q (wc_cached_queries c)\<rparr>)"
  by (simp add: keys_ok_def distinct_update)

lemma keys_ok_insert: "keys_ok c \<Longrightarrow> keys_ok (snd (cached_query_insert i oids max_limit c))"
  by (auto simp: keys_ok_def cached_query_insert_def generation_allocate_def Let_def case_prod_unfold
      intro!: distinct_insert_overwrite)

lemma keys_ok_evict: "keys_ok c \<Longrightarrow> keys_ok (cache_query_evict fp c)"
  by (auto simp: keys_ok_def cache_query_evict_def update_queries_remove_fingerprint_def Let_def
      distinct_delete split: option.splits)

lemma keys_ok_stale: "keys_ok c \<Longrightarrow> keys_ok (stale_entry_remove fp c)"
  by (auto simp: keys_ok_def stale_entry_remove_def update_queries_remove_fingerprint_def Let_def
      distinct_delete split: option.splits)

text \<open>A property that every eviction keeps is kept by the handlers that evict several queries.\<close>

lemma fold_keeps: "(\<And>x c. P c \<Longrightarrow> P (f x c)) \<Longrightarrow> P c \<Longrightarrow> P (fold f xs c)"
  by (induction xs arbitrary: c) simp_all

lemma evictions_keep:
  assumes "\<And>fp c. P c \<Longrightarrow> P (cache_query_evict fp c)" "P c"
  shows "P (cache_table_invalidate oid c)" "P (disk_reclaim_drop_smallest c)"
  using fold_keeps [of P cache_query_evict, OF assms(1)] assms(2)
  by (auto simp: cache_table_invalidate_def disk_reclaim_drop_smallest_def split: list.splits)

lemma stale_cleanup_keeps:
  assumes "\<And>fp c. P c \<Longrightarrow> P (stale_entry_remove fp c)" "P c"
  shows "P (stale_entries_cleanup c)"
  using fold_keeps [of P stale_entry_remove, OF assms(1)] assms(2) by (simp add: stale_entries_cleanup_def Let_def)

lemma keys_ok_readmit: "keys_ok c \<Longrightarrow> keys_ok (query_readmit fp now c)"
  by (auto simp: keys_ok_def query_readmit_def generation_allocate_def Let_def distinct_delete
      intro!: distinct_insert_overwrite split: option.splits)

lemma keys_ok_failed: "keys_ok c \<Longrightarrow> keys_ok (query_failed_cleanup fp c)"
  by (auto simp: keys_ok_def query_failed_cleanup_def update_queries_remove_fingerprint_def Let_def
      distinct_delete split: option.splits)

lemma cached_update_register [simp]:
  "wc_cached_queries (snd (update_queries_register fp tables c)) = wc_cached_queries c"
  "wc_generations (snd (update_queries_register fp tables c)) = wc_generations c"
  "wc_generation_counter (snd (update_queries_register fp tables c)) = wc_generation_counter c"
  "wc_relation_refcounts (snd (update_queries_register fp tables c)) = wc_relation_refcounts c"
  "wc_active_relations (snd (update_queries_register fp tables c)) = wc_active_relations c"
  "fst (update_queries_register fp tables c) = map ta_relation_oid tables"
  by (simp_all add: update_queries_register_def)

lemma remove_fingerprint_sel [simp]:
  "wc_cached_queries (update_queries_remove_fingerprint fp oids c) = wc_cached_queries c"
  "wc_generations (update_queries_remove_fingerprint fp oids c) = wc_generations c"
  "wc_generation_counter (update_queries_remove_fingerprint fp oids c) = wc_generation_counter c"
  "wc_relation_refcounts (update_queries_remove_fingerprint fp oids c) = wc_relation_refcounts c"
  "wc_active_relations (update_queries_remove_fingerprint fp oids c) = wc_active_relations c"
  by (simp_all add: update_queries_remove_fingerprint_def)

lemma query_subsume_cases:
  obtains "query_subsume db_ok i oids max_limit c = snd (cached_query_insert i oids max_limit c)"
  | q where "map_of (wc_cached_queries (snd (cached_query_insert i oids max_limit c))) (ri_fingerprint i) = Some q"
      "query_subsume db_ok i oids max_limit c =
         (snd (cached_query_insert i oids max_limit c))\<lparr>wc_cached_queries :=
            AList.update (ri_fingerprint i) (q\<lparr>cq_registration_started_at := None\<rparr>)
              (wc_cached_queries (snd (cached_query_insert i oids max_limit c)))\<rparr>"
  by (cases db_ok; cases "map_of (wc_cached_queries (snd (cached_query_insert i oids max_limit c))) (ri_fingerprint i)")
    (auto simp: query_subsume_def Let_def)

text \<open>The four outcomes of a registration.\<close>

lemma query_register_cases:
  obtains (readmitted) q where "map_of (wc_cached_queries c) (ri_fingerprint i) = Some q" "cq_invalidated q"
      "query_register db_ok i action resolved tables max_limit c = query_readmit (ri_fingerprint i) (ri_started_at i) c"
  | (subsumed) "query_register db_ok i action resolved tables max_limit c =
      query_subsume db_ok i (map ta_relation_oid tables) max_limit
        (snd (update_queries_register (ri_fingerprint i) tables c))"
      "\<forall>q. map_of (wc_cached_queries c) (ri_fingerprint i) = Some q \<longrightarrow> \<not> cq_invalidated q"
  | (checked) "query_register db_ok i action resolved tables max_limit c =
      update_queries_remove_fingerprint (ri_fingerprint i) (map ta_relation_oid tables)
        (snd (update_queries_register (ri_fingerprint i) tables c))"
  | (admitted) "query_register db_ok i action resolved tables max_limit c =
      snd (cached_query_insert i (map ta_relation_oid tables) max_limit
        (snd (update_queries_register (ri_fingerprint i) tables c)))"
      "\<forall>q. map_of (wc_cached_queries c) (ri_fingerprint i) = Some q \<longrightarrow> \<not> cq_invalidated q"
proof (cases "case map_of (wc_cached_queries c) (ri_fingerprint i) of None \<Rightarrow> False | Some q \<Rightarrow> cq_invalidated q")
  case True
  then show thesis by (auto simp: query_register_def split: option.splits intro: readmitted)
next
  case False
  define sub where "sub = subsumption_check resolved (map ta_relation_oid tables) (snd (update_queries_register (ri_fingerprint i) tables c))"
  from False have live: "\<forall>q. map_of (wc_cached_queries c) (ri_fingerprint i) = Some q \<longrightarrow> \<not> cq_invalidated q" by auto
  have eq: "query_register db_ok i action resolved tables max_limit c =
      (if sub then query_subsume db_ok i (map ta_relation_oid tables) max_limit
         (snd (update_queries_register (ri_fingerprint i) tables c))
       else if action = CheckOnly then update_queries_remove_fingerprint (ri_fingerprint i) (map ta_relation_oid tables)
         (snd (update_queries_register (ri_fingerprint i) tables c))
       else snd (cached_query_insert i (map ta_relation_oid tables) max_limit
         (snd (update_queries_register (ri_fingerprint i) tables c))))"
    using False by (simp add: query_register_def Let_def case_prod_unfold sub_def)
  show thesis
    using subsumed [OF _ live] checked admitted [OF _ live] unfolding eq
    by (cases sub; cases "action = CheckOnly") simp_all
qed

lemma keys_ok_subsume: "keys_ok c \<Longrightarrow> keys_ok (query_subsume db_ok i oids max_limit c)"
  by (rule query_subsume_cases [of db_ok i oids max_limit c]) (simp_all add: keys_ok_insert keys_ok_update)

lemma keys_ok_register: "keys_ok c \<Longrightarrow> keys_ok (query_register db_ok i action resolved tables max_limit c)"
  using keys_ok_frame [OF cached_update_register(1), of "ri_fingerprint i" tables c]
  by (rule_tac query_register_cases [of c i db_ok action resolved tables max_limit])
    (simp_all add: keys_ok_readmit keys_ok_subsume keys_ok_insert, simp add: keys_ok_def)

lemma keys_ok_step:
  assumes "reg_step once c c'" "keys_ok c"
  shows "keys_ok c'"
  using assms(1)
proof cases
  case (register tables i db_ok action resolved max_limit)
  then show ?thesis using keys_ok_register [OF assms(2)] by simp
next
  case (register_failed tables fp)
  have "keys_ok (snd (update_queries_register fp tables c))" using assms(2) by (simp add: keys_ok_def)
  then show ?thesis unfolding register_failed(1) by (rule keys_ok_failed)
next
  case (readmit_pinned fp rest now)
  have "keys_ok (c\<lparr>wc_readmits := rest\<rparr>)" using assms(2) by (simp add: keys_ok_def)
  then show ?thesis unfolding readmit_pinned(1) by (rule keys_ok_readmit)
next
  case (table_invalidate oid)
  show ?thesis unfolding table_invalidate by (rule evictions_keep(1) [of keys_ok, OF keys_ok_evict assms(2)])
next
  case reclaim
  show ?thesis unfolding reclaim by (rule evictions_keep(2) [of keys_ok, OF keys_ok_evict assms(2)])
next
  case stale
  show ?thesis unfolding stale by (rule stale_cleanup_keeps [of keys_ok, OF keys_ok_stale assms(2)])
qed (use assms(2) in \<open>auto simp: keys_ok_failed keys_ok_evict generation_zero_promote_def keys_ok_def
      limit_bump_handle_def query_ready_mark_def cache_query_cdc_invalidate_def query_invalidated_mark_def
      cache_query_generation_bump_def generation_allocate_def subsumption_limit_reindex_def Let_def
      distinct_update distinct_delete keys_ok_evict [unfolded keys_ok_def] keys_ok_failed [unfolded keys_ok_def]
      intro!: distinct_insert_overwrite split: option.splits\<close>)

text \<open>Replacing the entry of a query under a freshly allocated generation.\<close>

lemma renew_entry:
  assumes inv: "core_gen_inv n c" and keys: "keys_ok c" and n: "wc_generation_counter c < i64_max"
    and q: "cq_generation q = wc_generation_counter c + 1"
  shows "map_of (insert_overwrite fp q (wc_cached_queries c)) = (map_of (wc_cached_queries c))(fp \<mapsto> q)"
    "map_of (insert_overwrite fp q (AList.delete fp (wc_cached_queries c))) =
       (map_of (wc_cached_queries c))(fp \<mapsto> q)"
proof -
  have "cq_generation q' \<noteq> cq_generation q" if "(fp', q') \<in> set (wc_cached_queries c)" for fp' q'
    using gen_inv_bound [OF inv keys [unfolded keys_ok_def] that] q by simp
  note fresh = this
  show "map_of (insert_overwrite fp q (wc_cached_queries c)) = (map_of (wc_cached_queries c))(fp \<mapsto> q)"
    by (rule map_of_insert_overwrite) (rule fresh)
  have "map_of (insert_overwrite fp q (AList.delete fp (wc_cached_queries c))) =
      (map_of (AList.delete fp (wc_cached_queries c)))(fp \<mapsto> q)"
    by (rule map_of_insert_overwrite) (auto simp: AList.delete_eq dest: fresh)
  then show "map_of (insert_overwrite fp q (AList.delete fp (wc_cached_queries c))) =
       (map_of (wc_cached_queries c))(fp \<mapsto> q)"
    by (auto simp: map_of_delete)
qed

lemma insert_gen_inv:
  assumes inv: "core_gen_inv n c" and keys: "keys_ok c" and n: "wc_generation_counter c < i64_max"
  shows "core_gen_inv (Suc n) (snd (cached_query_insert i oids max_limit c))"
  using gen_inv_renew [OF inv, of _ "{}"] renew_entry(1) [OF assms]
  by (simp add: cached_query_insert_def generation_allocate_eq [OF n] case_prod_unfold Let_def)

lemma readmit_gen_inv:
  assumes inv: "core_gen_inv n c" and keys: "keys_ok c" and n: "wc_generation_counter c < i64_max"
  shows "core_gen_inv (Suc n) (query_readmit fp now c)"
  using gen_inv_renew [OF inv, of _ "{}"] renew_entry(2) [OF assms] gen_inv_alloc [OF inv]
  by (simp add: query_readmit_def generation_allocate_eq [OF n] Let_def split: option.splits)

lemma limit_bump_gen_inv:
  assumes inv: "core_gen_inv n c" and keys: "keys_ok c" and n: "wc_generation_counter c < i64_max"
  shows "core_gen_inv (Suc n) (limit_bump_handle fp max_limit now c)"
proof (cases "map_of (wc_cached_queries c) fp")
  case None
  then show ?thesis using inv by (simp add: limit_bump_handle_def gen_inv_mono)
next
  case (Some q)
  have "gen_inv (Suc n) (wc_generation_counter c + 1)
      (insert (wc_generation_counter c + 1) (set (wc_generations c)) - {cq_generation q})
      ((map_of (wc_cached_queries c))(fp \<mapsto> q')) "
    if "cq_generation q' = wc_generation_counter c + 1" for q'
    using gen_inv_renew [OF inv that, of "{cq_generation q}" fp] Some by simp
  then show ?thesis
    using Some renew_entry(2) [OF assms]
    by (simp add: limit_bump_handle_def generation_allocate_eq [OF n] Let_def
        subsumption_limit_reindex_def)
qed

lemma bump_gen_inv:
  assumes inv: "core_gen_inv n c" and keys: "keys_ok c" and n: "wc_generation_counter c < i64_max"
  shows "core_gen_inv (Suc n) (cache_query_generation_bump db_ok fp c)"
proof (cases "map_of (wc_cached_queries c) fp")
  case None
  then show ?thesis using inv by (simp add: cache_query_generation_bump_def gen_inv_mono)
next
  case (Some q)
  have "gen_inv (Suc n) (wc_generation_counter c + 1)
      (insert (wc_generation_counter c + 1) (set (wc_generations c)) - {cq_generation q})
      ((map_of (wc_cached_queries c))(fp \<mapsto> q')) "
    if "cq_generation q' = wc_generation_counter c + 1" for q'
    using gen_inv_renew [OF inv that, of "{cq_generation q}" fp] Some by simp
  then show ?thesis
    using Some renew_entry(2) [OF assms] gen_inv_alloc [OF inv]
    by (simp add: cache_query_generation_bump_def generation_allocate_eq [OF n] Let_def)
qed

lemma removal_gen_inv:
  assumes inv: "core_gen_inv n c"
  shows "core_gen_inv n (query_failed_cleanup fp c)" "core_gen_inv n (cache_query_evict fp c)"
  using inv gen_inv_drop [OF inv, of fp]
  by (auto simp: query_failed_cleanup_def cache_query_evict_def update_queries_remove_fingerprint_def
      Let_def delete_conv' split: option.splits)

lemma stale_gen_inv:
  assumes inv: "core_gen_inv n c"
  shows "core_gen_inv n (stale_entry_remove fp c)"
  using inv
  by (auto simp: stale_entry_remove_def Let_def delete_conv' gen_inv_def split: option.splits if_splits)

lemma promote_gen_inv:
  assumes inv: "core_gen_inv n c" and n: "wc_generation_counter c < i64_max"
  shows "core_gen_inv (Suc n) (generation_zero_promote promoted c)"
  using gen_inv_counter [OF inv] gen_inv_mono [OF inv, of "Suc n"] n
  by (simp add: generation_zero_promote_def gen_next_def Let_def)

lemma subsume_gen_inv:
  assumes "core_gen_inv n c" "keys_ok c" "wc_generation_counter c < i64_max"
  shows "core_gen_inv (Suc n) (query_subsume db_ok i oids max_limit c)"
proof (rule query_subsume_cases [of db_ok i oids max_limit c])
  assume "query_subsume db_ok i oids max_limit c = snd (cached_query_insert i oids max_limit c)"
  then show ?thesis using insert_gen_inv [OF assms] by simp
next
  fix q
  assume "map_of (wc_cached_queries (snd (cached_query_insert i oids max_limit c))) (ri_fingerprint i) = Some q"
    "query_subsume db_ok i oids max_limit c =
       (snd (cached_query_insert i oids max_limit c))\<lparr>wc_cached_queries :=
          AList.update (ri_fingerprint i) (q\<lparr>cq_registration_started_at := None\<rparr>)
            (wc_cached_queries (snd (cached_query_insert i oids max_limit c)))\<rparr>"
  then show ?thesis
    using gen_inv_same [OF insert_gen_inv [OF assms]] by (simp add: update_conv')
qed

lemma register_gen_inv:
  assumes inv: "core_gen_inv n c" and keys: "keys_ok c" and k: "wc_generation_counter c < i64_max"
  shows "core_gen_inv (Suc n) (query_register db_ok i action resolved tables max_limit c)"
proof -
  let ?d = "snd (update_queries_register (ri_fingerprint i) tables c)"
  have d: "core_gen_inv n ?d" "keys_ok ?d" "wc_generation_counter ?d < i64_max"
    using inv keys k by (simp_all add: keys_ok_def)
  show ?thesis
  proof (cases rule: query_register_cases [of c i db_ok action resolved tables max_limit])
    case (readmitted q)
    then show ?thesis using readmit_gen_inv [OF inv keys k] by simp
  next
    case subsumed
    then show ?thesis using subsume_gen_inv [OF d] by simp
  next
    case checked
    then show ?thesis using gen_inv_mono [OF inv, of "Suc n"] by simp
  next
    case admitted
    then show ?thesis using insert_gen_inv [OF d] by simp
  qed
qed

lemma invalidate_gen_inv:
  assumes inv: "core_gen_inv n c"
  shows "core_gen_inv n (snd (cache_query_cdc_invalidate policy fp c))"
  using inv gen_inv_invalidate [OF inv, of fp] removal_gen_inv(2) [OF inv, of fp]
  by (auto simp: cache_query_cdc_invalidate_def query_invalidated_mark_def Let_def update_conv'
      split: option.splits)

lemma reg_step_gen_inv:
  assumes "reg_step once c c'" and inv: "core_gen_inv n c" and keys: "keys_ok c" and n: "int n < i64_max"
  shows "core_gen_inv (Suc n) c'"
proof -
  from inv n have k: "wc_generation_counter c < i64_max" by (auto simp: gen_inv_def)
  from assms(1) show ?thesis
  proof cases
    case (register tables i db_ok action resolved max_limit)
    show ?thesis unfolding register(1) by (rule register_gen_inv [OF inv keys k])
  next
    case (register_failed tables fp)
    have "core_gen_inv n (snd (update_queries_register fp tables c))" using inv by simp
    from removal_gen_inv(1) [OF this] show ?thesis unfolding register_failed(1) by (rule gen_inv_mono) simp
  next
    case (readmit_pinned fp rest now)
    show ?thesis unfolding readmit_pinned(1) by (rule readmit_gen_inv) (use inv keys k in \<open>auto simp: keys_ok_def\<close>)
  next
    case (limit_bump fp max_limit now)
    show ?thesis unfolding limit_bump by (rule limit_bump_gen_inv [OF inv keys k])
  next
    case (ready fp bytes)
    then show ?thesis using gen_inv_mono [OF inv, of "Suc n"] gen_inv_mono [OF gen_inv_same [OF inv, of fp], of _ _ "Suc n"]
      by (auto simp: query_ready_mark_def update_conv' split: option.splits)
  next
    case (failed fp)
    show ?thesis unfolding failed by (rule gen_inv_mono [OF removal_gen_inv(1) [OF inv]]) simp
  next
    case (invalidate policy fp)
    show ?thesis unfolding invalidate by (rule gen_inv_mono [OF invalidate_gen_inv [OF inv]]) simp
  next
    case (evict fp)
    show ?thesis unfolding evict by (rule gen_inv_mono [OF removal_gen_inv(2) [OF inv]]) simp
  next
    case (bump db_ok fp)
    show ?thesis unfolding bump by (rule bump_gen_inv [OF inv keys k])
  next
    case (table_invalidate oid)
    show ?thesis unfolding table_invalidate
      by (rule gen_inv_mono [OF evictions_keep(1) [of "core_gen_inv n", OF removal_gen_inv(2) inv]]) simp_all
  next
    case reclaim
    show ?thesis unfolding reclaim
      by (rule gen_inv_mono [OF evictions_keep(2) [of "core_gen_inv n", OF removal_gen_inv(2) inv]]) simp_all
  next
    case stale
    show ?thesis unfolding stale
      by (rule gen_inv_mono [OF stale_cleanup_keeps [of "core_gen_inv n", OF stale_gen_inv inv]]) simp_all
  next
    case (promote promoted)
    show ?thesis unfolding promote by (rule promote_gen_inv [OF inv k])
  next
    case (table tables)
    then show ?thesis using gen_inv_mono [OF inv, of "Suc n"] by simp
  qed
qed

lemma reg_reach_gen_inv:
  assumes "reg_reach once n c" "int n \<le> i64_max"
  shows "core_gen_inv n c \<and> keys_ok c"
  using assms
proof (induction rule: reg_reach.induct)
  case start
  show ?case by (simp add: core_new_def gen_inv_def keys_ok_def)
next
  case (step n c c')
  then have "int n < i64_max" "core_gen_inv n c" "keys_ok c" by simp_all
  with step.hyps show ?case by (blast intro: reg_step_gen_inv keys_ok_step)
qed

subsection \<open>Active relations\<close>

definition relation_uses :: "writer_core \<Rightarrow> oid \<Rightarrow> nat" where
  "relation_uses c oid = qsum (\<lambda>q. count_list (cq_relation_oids q) oid) (wc_cached_queries c)"

text \<open>
  The counts cover the uses. They are equal to them as long as no live query is registered again:
  the second registration acquires the relations once more, and replaces the entry.
\<close>

definition rel_inv :: "bool \<Rightarrow> writer_core \<Rightarrow> bool" where
  "rel_inv once c \<longleftrightarrow> (\<exists>f. relations_ok c f \<and> (\<forall>oid. relation_uses c oid \<le> f oid) \<and> (once \<longrightarrow> f = relation_uses c))"

lemma rel_invI: "relations_ok c f \<Longrightarrow> (\<And>oid. relation_uses c oid \<le> f oid) \<Longrightarrow> (once \<Longrightarrow> f = relation_uses c) \<Longrightarrow> rel_inv once c"
  unfolding rel_inv_def by blast

lemma rel_inv_frame:
  assumes "rel_inv once c" "wc_relation_refcounts c' = wc_relation_refcounts c"
    "wc_active_relations c' = wc_active_relations c" "relation_uses c' = relation_uses c"
  shows "rel_inv once c'"
  using assms by (simp add: rel_inv_def relations_ok_def)

lemma insert_overwrite_eq:
  assumes "\<And>fp' q'. (fp', q') \<in> set m \<Longrightarrow> cq_generation q' \<noteq> cq_generation q"
  shows "insert_overwrite fp q m = (fp, q) # AList.delete fp m"
  using assms by (auto simp: insert_overwrite_def AList.delete_eq intro!: filter_cong)

lemma qsum_Cons [simp]: "qsum f ((k, v) # m) = f v + qsum f m"
  by (simp add: qsum_def)

lemma qsum_same_update:
  assumes "distinct (map fst m)" "map_of m fp = Some q" "f q' = f q"
  shows "qsum f (AList.update fp q' m) = qsum f m"
  using assms
proof (induction m)
  case (Cons x m)
  then show ?case by (cases x) (auto split: if_splits)
qed simp

lemma qsum_renew:
  assumes "core_gen_inv n c" "keys_ok c" "cq_generation q' = wc_generation_counter c + 1"
    "map_of (wc_cached_queries c) fp = Some q" "f q' = f q"
  shows "qsum f (insert_overwrite fp q' (AList.delete fp (wc_cached_queries c))) = qsum f (wc_cached_queries c)"
proof -
  have "cq_generation q0 \<noteq> cq_generation q'" if "(fp', q0) \<in> set (AList.delete fp (wc_cached_queries c))" for fp' q0
    using gen_inv_bound [OF assms(1) assms(2) [unfolded keys_ok_def]] that assms(3)
    by (fastforce simp: AList.delete_eq)
  then have "insert_overwrite fp q' (AList.delete fp (wc_cached_queries c)) =
      (fp, q') # AList.delete fp (wc_cached_queries c)"
    by (simp add: insert_overwrite_eq delete_idem)
  then show ?thesis
    using qsum_delete [of "wc_cached_queries c" fp q f] assms(2,4,5) by (simp add: keys_ok_def)
qed

lemma insert_uses:
  assumes inv: "core_gen_inv n c" "keys_ok c" and n: "wc_generation_counter c < i64_max"
  shows "relation_uses (snd (cached_query_insert i oids max_limit c)) oid =
    qsum (\<lambda>q. count_list (cq_relation_oids q) oid) (AList.delete (ri_fingerprint i) (wc_cached_queries c)) + count_list oids oid"
proof -
  have "fst (generation_allocate c) = wc_generation_counter c + 1"
    by (simp add: generation_allocate_eq [OF n])
  moreover have "cq_generation q0 \<noteq> wc_generation_counter c + 1" if "(fp', q0) \<in> set (wc_cached_queries c)" for fp' q0
    using gen_inv_bound [OF inv(1) inv(2) [unfolded keys_ok_def] that] by simp
  ultimately show ?thesis
    by (simp add: relation_uses_def cached_query_insert_def case_prod_unfold Let_def
        generation_allocate_eq [OF n] insert_overwrite_eq)
qed

lemma delete_uses: "qsum f (AList.delete fp m) \<le> qsum f m"
  by (induction m) (auto simp: qsum_def)

lemma insert_rel_inv:
  assumes inv: "core_gen_inv n c" "keys_ok c" "rel_inv once c" and n: "wc_generation_counter c < i64_max"
    and fresh: "once \<Longrightarrow> map_of (wc_cached_queries c) (ri_fingerprint i) = None"
  shows "rel_inv once (snd (cached_query_insert i oids max_limit c))"
proof -
  let ?c1 = "snd (generation_allocate c)" and ?c' = "snd (cached_query_insert i oids max_limit c)"
  from inv(3) obtain f where f: "relations_ok c f" "\<And>oid. relation_uses c oid \<le> f oid" "once \<Longrightarrow> f = relation_uses c"
    by (auto simp: rel_inv_def)
  have "relations_ok ?c1 f"
    using f(1) by (simp add: relations_ok_def generation_allocate_eq [OF n])
  from acquire_relations_ok [OF this, of oids]
  have ok: "relations_ok ?c' (\<lambda>oid. f oid + count_list oids oid)"
    by (simp add: cached_query_insert_def case_prod_unfold Let_def relations_ok_def)
  have le: "qsum (\<lambda>q. count_list (cq_relation_oids q) oid) (AList.delete (ri_fingerprint i) (wc_cached_queries c)) \<le> f oid" for oid
    using delete_uses f(2) [of oid] unfolding relation_uses_def by (rule order_trans)
  show ?thesis
  proof (rule rel_invI [OF ok])
    show "relation_uses ?c' oid \<le> f oid + count_list oids oid" for oid
      unfolding insert_uses [OF inv(1,2) n] using le [of oid] by simp
    assume once
    with fresh have "AList.delete (ri_fingerprint i) (wc_cached_queries c) = wc_cached_queries c"
      by (intro delete_id) (simp add: map_of_eq_None_iff)
    with f(3) [OF \<open>once\<close>] show "(\<lambda>oid. f oid + count_list oids oid) = relation_uses ?c'"
      by (intro ext) (simp add: insert_uses [OF inv(1,2) n], simp add: relation_uses_def)
  qed
qed

lemma release_rel_inv:
  assumes keys: "keys_ok c" and inv: "rel_inv once c" and q: "map_of (wc_cached_queries c) fp = Some q"
    and d: "wc_relation_refcounts d = wc_relation_refcounts c" "wc_active_relations d = wc_active_relations c"
    and c': "wc_cached_queries c' = AList.delete fp (wc_cached_queries c)"
      "wc_relation_refcounts c' = wc_relation_refcounts (snd (active_relations_release (cq_relation_oids q) d))"
      "wc_active_relations c' = wc_active_relations (snd (active_relations_release (cq_relation_oids q) d))"
  shows "rel_inv once c'"
proof -
  from inv obtain f where f: "relations_ok c f" "\<And>oid. relation_uses c oid \<le> f oid" "once \<Longrightarrow> f = relation_uses c"
    by (auto simp: rel_inv_def)
  have uses: "relation_uses c' oid = relation_uses c oid - count_list (cq_relation_oids q) oid" for oid
    using qsum_delete [OF keys [unfolded keys_ok_def] q] by (simp add: relation_uses_def c'(1))
  have "relations_ok d f" using f(1) d by (simp add: relations_ok_def)
  from release_relations_ok [OF this, of "cq_relation_oids q"] c'(2,3)
  have ok: "relations_ok c' (\<lambda>oid. f oid - count_list (cq_relation_oids q) oid)" by (simp add: relations_ok_def)
  show ?thesis by (rule rel_invI [OF ok]) (use f(2,3) uses in \<open>auto intro: diff_le_mono\<close>)
qed

lemma removal_rel_inv:
  assumes keys: "keys_ok c" and inv: "rel_inv once c"
  shows "rel_inv once (query_failed_cleanup fp c)" "rel_inv once (cache_query_evict fp c)"
    "rel_inv once (stale_entry_remove fp c)"
proof -
  show "rel_inv once (query_failed_cleanup fp c)"
  proof (cases "map_of (wc_cached_queries c) fp")
    case None
    then show ?thesis
      by (intro rel_inv_frame [OF inv]) (simp_all add: query_failed_cleanup_def relation_uses_def fun_eq_iff)
  next
    case (Some q)
    show ?thesis
      by (rule release_rel_inv [OF keys inv Some, where d = c]) (auto simp: query_failed_cleanup_def Some Let_def
          update_queries_remove_fingerprint_def active_relations_release_def case_prod_unfold)
  qed
  show "rel_inv once (cache_query_evict fp c)"
  proof (cases "map_of (wc_cached_queries c) fp")
    case None
    then show ?thesis using inv by (simp add: cache_query_evict_def)
  next
    case (Some q)
    show ?thesis
      by (rule release_rel_inv [OF keys inv Some, where d = c]) (auto simp: cache_query_evict_def Some Let_def
          update_queries_remove_fingerprint_def active_relations_release_def case_prod_unfold)
  qed
  show "rel_inv once (stale_entry_remove fp c)"
  proof (cases "map_of (wc_cached_queries c) fp")
    case None
    then show ?thesis using inv by (simp add: stale_entry_remove_def)
  next
    case (Some q)
    show ?thesis
      by (rule release_rel_inv [OF keys inv Some, where d = c]) (auto simp: stale_entry_remove_def Some Let_def
          update_queries_remove_fingerprint_def active_relations_release_def case_prod_unfold)
  qed
qed

lemma update_rel_inv:
  assumes "keys_ok c" "rel_inv once c" "map_of (wc_cached_queries c) fp = Some q"
    "cq_relation_oids q' = cq_relation_oids q"
    "wc_cached_queries c' = AList.update fp q' (wc_cached_queries c)"
    "wc_relation_refcounts c' = wc_relation_refcounts c" "wc_active_relations c' = wc_active_relations c"
  shows "rel_inv once c'"
  using assms
  by (intro rel_inv_frame [OF assms(2)])
    (auto simp: relation_uses_def fun_eq_iff keys_ok_def intro!: qsum_same_update)

lemma renew_rel_inv:
  assumes "core_gen_inv n c" "keys_ok c" "rel_inv once c" "cq_generation q' = wc_generation_counter c + 1"
    "map_of (wc_cached_queries c) fp = Some q" "cq_relation_oids q' = cq_relation_oids q"
    "wc_cached_queries c' = insert_overwrite fp q' (AList.delete fp (wc_cached_queries c))"
    "wc_relation_refcounts c' = wc_relation_refcounts c" "wc_active_relations c' = wc_active_relations c"
  shows "rel_inv once c'"
  using assms(7-9) qsum_renew [OF assms(1,2,4,5)] assms(6)
  by (intro rel_inv_frame [OF assms(3)]) (simp_all add: relation_uses_def fun_eq_iff)

lemma readmit_rel_inv:
  assumes "core_gen_inv n c" "keys_ok c" "rel_inv once c" "wc_generation_counter c < i64_max"
  shows "rel_inv once (query_readmit fp now c)"
proof (cases "map_of (wc_cached_queries c) fp")
  case None
  then show ?thesis
    by (intro rel_inv_frame [OF assms(3)])
      (simp_all add: query_readmit_def generation_allocate_eq [OF assms(4)] relation_uses_def Let_def fun_eq_iff)
next
  case (Some q)
  show ?thesis
    by (rule renew_rel_inv [OF assms(1-3) _ Some, where q' = "q\<lparr>cq_generation := wc_generation_counter c + 1,
            cq_invalidated := False, cq_cached_bytes := 0, cq_registration_started_at := Some now\<rparr>"])
      (simp_all add: query_readmit_def generation_allocate_eq [OF assms(4)] Some Let_def)
qed

lemma limit_bump_rel_inv:
  assumes "core_gen_inv n c" "keys_ok c" "rel_inv once c" "wc_generation_counter c < i64_max"
  shows "rel_inv once (limit_bump_handle fp max_limit now c)"
proof (cases "map_of (wc_cached_queries c) fp")
  case None
  then show ?thesis using assms(3) by (simp add: limit_bump_handle_def)
next
  case (Some q)
  show ?thesis
    by (rule renew_rel_inv [OF assms(1-3) _ Some, where q' = "q\<lparr>cq_generation := wc_generation_counter c + 1,
            cq_max_limit := max_limit, cq_registration_started_at := Some now\<rparr>"])
      (simp_all add: limit_bump_handle_def generation_allocate_eq [OF assms(4)] Some Let_def
        subsumption_limit_reindex_def)
qed

lemma bump_rel_inv:
  assumes "core_gen_inv n c" "keys_ok c" "rel_inv once c" "wc_generation_counter c < i64_max"
  shows "rel_inv once (cache_query_generation_bump db_ok fp c)"
proof (cases "map_of (wc_cached_queries c) fp")
  case None
  then show ?thesis using assms(3) by (simp add: cache_query_generation_bump_def)
next
  case (Some q)
  show ?thesis
  proof (cases db_ok)
    case True
    show ?thesis
      by (rule renew_rel_inv [OF assms(1-3) _ Some, where q' = "q\<lparr>cq_generation := wc_generation_counter c + 1\<rparr>"])
        (simp_all add: cache_query_generation_bump_def generation_allocate_eq [OF assms(4)] Some Let_def True)
  next
    case False
    then show ?thesis
      by (intro rel_inv_frame [OF assms(3)])
        (simp_all add: cache_query_generation_bump_def generation_allocate_eq [OF assms(4)] Some Let_def
          relation_uses_def fun_eq_iff)
  qed
qed

lemma invalidate_rel_inv:
  assumes "keys_ok c" "rel_inv once c"
  shows "rel_inv once (snd (cache_query_cdc_invalidate policy fp c))"
proof (cases "map_of (wc_cached_queries c) fp")
  case None
  then show ?thesis using assms removal_rel_inv(2) [OF assms] by (simp add: cache_query_cdc_invalidate_def)
next
  case (Some q)
  have "rel_inv once (c\<lparr>wc_readmits := wc_readmits c @ [fp]\<rparr>)"
    by (rule rel_inv_frame [OF assms(2)]) (simp_all add: relation_uses_def fun_eq_iff)
  moreover have "rel_inv once (query_invalidated_mark fp (cq_generation q) c)"
    by (rule update_rel_inv [OF assms Some, where q' = "q\<lparr>cq_invalidated := True\<rparr>"])
      (simp_all add: query_invalidated_mark_def Some Let_def)
  ultimately show ?thesis
    using assms removal_rel_inv(2) [OF assms] by (simp add: cache_query_cdc_invalidate_def Some)
qed

lemma subsume_rel_inv:
  assumes "core_gen_inv n c" "keys_ok c" "rel_inv once c" "wc_generation_counter c < i64_max"
    and "once \<Longrightarrow> map_of (wc_cached_queries c) (ri_fingerprint i) = None"
  shows "rel_inv once (query_subsume db_ok i oids max_limit c)"
proof (rule query_subsume_cases [of db_ok i oids max_limit c])
  assume "query_subsume db_ok i oids max_limit c = snd (cached_query_insert i oids max_limit c)"
  then show ?thesis using insert_rel_inv [OF assms] by simp
next
  fix q
  assume q: "map_of (wc_cached_queries (snd (cached_query_insert i oids max_limit c))) (ri_fingerprint i) = Some q"
    and eq: "query_subsume db_ok i oids max_limit c =
       (snd (cached_query_insert i oids max_limit c))\<lparr>wc_cached_queries :=
          AList.update (ri_fingerprint i) (q\<lparr>cq_registration_started_at := None\<rparr>)
            (wc_cached_queries (snd (cached_query_insert i oids max_limit c)))\<rparr>"
  show ?thesis
    by (rule update_rel_inv [OF keys_ok_insert [OF assms(2)] insert_rel_inv [OF assms] q,
          where q' = "q\<lparr>cq_registration_started_at := None\<rparr>"]) (simp_all add: eq)
qed

lemma register_rel_inv:
  assumes inv: "core_gen_inv n c" and keys: "keys_ok c" and rel: "rel_inv once c"
    and k: "wc_generation_counter c < i64_max"
    and fresh: "once \<Longrightarrow> case map_of (wc_cached_queries c) (ri_fingerprint i) of None \<Rightarrow> True | Some q \<Rightarrow> cq_invalidated q"
  shows "rel_inv once (query_register db_ok i action resolved tables max_limit c)"
proof -
  let ?d = "snd (update_queries_register (ri_fingerprint i) tables c)"
  have d: "core_gen_inv n ?d" "keys_ok ?d" "rel_inv once ?d" "wc_generation_counter ?d < i64_max"
    using inv keys k by (simp_all add: keys_ok_def)
      (rule rel_inv_frame [OF rel]; simp add: relation_uses_def fun_eq_iff)
  have live: "map_of (wc_cached_queries ?d) (ri_fingerprint i) = None"
    if "once" "\<forall>q. map_of (wc_cached_queries c) (ri_fingerprint i) = Some q \<longrightarrow> \<not> cq_invalidated q"
    using fresh [OF that(1)] that(2) by (auto split: option.splits)
  show ?thesis
  proof (cases rule: query_register_cases [of c i db_ok action resolved tables max_limit])
    case (readmitted q)
    then show ?thesis using readmit_rel_inv [OF inv keys rel k] by simp
  next
    case subsumed
    then show ?thesis using subsume_rel_inv [OF d live] by simp
  next
    case checked
    then show ?thesis by (intro rel_inv_frame [OF rel]) (simp_all add: relation_uses_def fun_eq_iff)
  next
    case admitted
    then show ?thesis using insert_rel_inv [OF d live] by simp
  qed
qed

lemma reg_step_rel_inv:
  assumes "reg_step once c c'" and inv: "core_gen_inv n c" and keys: "keys_ok c" and rel: "rel_inv once c"
    and n: "int n < i64_max"
  shows "rel_inv once c'"
proof -
  from inv n have k: "wc_generation_counter c < i64_max" by (auto simp: gen_inv_def)
  from assms(1) show ?thesis
  proof cases
    case (register tables i db_ok action resolved max_limit)
    show ?thesis unfolding register(1) by (rule register_rel_inv [OF inv keys rel k]) (use register(3) in auto)
  next
    case (register_failed tables fp)
    have "keys_ok (snd (update_queries_register fp tables c))" using keys by (simp add: keys_ok_def)
    moreover have "rel_inv once (snd (update_queries_register fp tables c))"
      by (rule rel_inv_frame [OF rel]) (simp_all add: relation_uses_def fun_eq_iff)
    ultimately show ?thesis unfolding register_failed(1) by (rule removal_rel_inv(1))
  next
    case (readmit_pinned fp rest now)
    show ?thesis unfolding readmit_pinned(1)
      by (rule readmit_rel_inv)
        (use inv keys k rel in \<open>auto simp: keys_ok_def rel_inv_def relations_ok_def relation_uses_def [abs_def]\<close>)
  next
    case (limit_bump fp max_limit now)
    show ?thesis unfolding limit_bump by (rule limit_bump_rel_inv [OF inv keys rel k])
  next
    case (ready fp bytes)
    show ?thesis
    proof (cases "map_of (wc_cached_queries c) fp")
      case None
      then show ?thesis using rel ready by (simp add: query_ready_mark_def)
    next
      case (Some q)
      show ?thesis
        by (rule update_rel_inv [OF keys rel Some,
              where q' = "q\<lparr>cq_cached_bytes := bytes, cq_registration_started_at := None\<rparr>"])
          (simp_all add: ready query_ready_mark_def Some)
    qed
  next
    case (failed fp)
    show ?thesis unfolding failed by (rule removal_rel_inv(1) [OF keys rel])
  next
    case (invalidate policy fp)
    show ?thesis unfolding invalidate by (rule invalidate_rel_inv [OF keys rel])
  next
    case (evict fp)
    show ?thesis unfolding evict by (rule removal_rel_inv(2) [OF keys rel])
  next
    case (bump db_ok fp)
    show ?thesis unfolding bump by (rule bump_rel_inv [OF inv keys rel k])
  next
    case (table_invalidate oid)
    have "keys_ok c' \<and> rel_inv once c'"
      unfolding table_invalidate by (rule evictions_keep(1)) (use keys rel keys_ok_evict removal_rel_inv(2) in blast)+
    then show ?thesis ..
  next
    case reclaim
    have "keys_ok c' \<and> rel_inv once c'"
      unfolding reclaim by (rule evictions_keep(2)) (use keys rel keys_ok_evict removal_rel_inv(2) in blast)+
    then show ?thesis ..
  next
    case stale
    have "keys_ok c' \<and> rel_inv once c'"
      unfolding stale by (rule stale_cleanup_keeps) (use keys rel keys_ok_stale removal_rel_inv(3) in blast)+
    then show ?thesis ..
  next
    case (promote promoted)
    then show ?thesis
      by (intro rel_inv_frame [OF rel]) (simp_all add: generation_zero_promote_def Let_def relation_uses_def fun_eq_iff)
  next
    case (table tables)
    then show ?thesis by (intro rel_inv_frame [OF rel]) (simp_all add: relation_uses_def fun_eq_iff)
  qed
qed

lemma reg_reach_rel_inv:
  assumes "reg_reach once n c" "int n \<le> i64_max"
  shows "rel_inv once c"
  using assms
proof (induction rule: reg_reach.induct)
  case start
  show ?case
    by (rule rel_invI [of _ "\<lambda>_. 0"])
      (simp_all add: core_new_def relations_ok_def counts_ok_def refs_def relation_uses_def qsum_def fun_eq_iff)
next
  case (step n c c')
  then have n: "int n < i64_max" and rel: "rel_inv once c" by simp_all
  from n have "core_gen_inv n c \<and> keys_ok c" by (intro reg_reach_gen_inv [OF step.hyps(1)]) simp
  then show ?case using reg_step_rel_inv [OF step.hyps(2) _ _ rel n] by blast
qed

lemma rel_inv_active:
  assumes "rel_inv once c" "keys_ok c"
  shows "(\<exists>fp q. map_of (wc_cached_queries c) fp = Some q \<and> oid \<in> set (cq_relation_oids q)) \<Longrightarrow>
      oid \<in> set (wc_active_relations c)"
    and "once \<Longrightarrow> oid \<in> set (wc_active_relations c) \<Longrightarrow>
      \<exists>fp q. map_of (wc_cached_queries c) fp = Some q \<and> oid \<in> set (cq_relation_oids q)"
proof -
  from assms(1) obtain f where f: "relations_ok c f" "relation_uses c oid \<le> f oid" "once \<Longrightarrow> f = relation_uses c"
    by (auto simp: rel_inv_def)
  then have active: "oid \<in> set (wc_active_relations c) \<longleftrightarrow> f oid \<noteq> 0"
    using counted_iff [of "wc_relation_refcounts c" f oid] by (auto simp: relations_ok_def domIff)
  have uses: "relation_uses c oid \<noteq> 0 \<longleftrightarrow>
      (\<exists>fp q. map_of (wc_cached_queries c) fp = Some q \<and> oid \<in> set (cq_relation_oids q))"
    using map_of_eq_Some_iff [OF assms(2) [unfolded keys_ok_def]]
    by (force simp: relation_uses_def qsum_zero_iff count_list_0_iff)
  show "(\<exists>fp q. map_of (wc_cached_queries c) fp = Some q \<and> oid \<in> set (cq_relation_oids q)) \<Longrightarrow>
      oid \<in> set (wc_active_relations c)" using active uses f(2) by fastforce
  show "once \<Longrightarrow> oid \<in> set (wc_active_relations c) \<Longrightarrow>
      \<exists>fp q. map_of (wc_cached_queries c) fp = Some q \<and> oid \<in> set (cq_relation_oids q)"
    using active uses f(3) by simp
qed

subsection \<open>Sources of candidates\<close>

text \<open>
  The interface of the trait \<^verbatim>\<open>SubsumerSource\<close>: a lookup returns only candidates that the source
  offers for the relation. The decision \<open>subsumption_covered\<close> relies on nothing else.
\<close>

locale subsumer_source =
  fixes source :: "oid \<Rightarrow> table_constraint list \<Rightarrow> subsumer_candidate list"
    and offers :: "oid \<Rightarrow> subsumer_candidate set"
  assumes source_offers: "set (source relation_oid cs) \<subseteq> offers relation_oid"
begin

lemma covered_offer:
  assumes "subsumption_covered new relations source" "(relation_oid, t) \<in> set relations"
  shows "\<exists>c\<in>offers relation_oid. \<not> cand_has_limit c \<and> cand_ready c \<and> cand_single_relation c \<and>
    table_constraints_subsumed new (cand_constraints c) t"
  using assms source_offers [of relation_oid "table_cs new t"]
  by (fastforce simp: subsumption_covered_def list_all_iff list_ex_iff split: if_splits)

end

definition writer_offers :: "writer_core \<Rightarrow> oid \<Rightarrow> subsumer_candidate set" where
  "writer_offers core relation_oid =
     {candidate_of core fp q |fp q us.
        map_of (wc_update_queries core) relation_oid = Some us \<and> map_of (uqs_queries us) fp = Some q}"

lemma writer_candidates_offered: "set (writer_candidates core oid cs) \<subseteq> writer_offers core oid"
  by (cases "map_of (wc_update_queries core) oid")
    (auto simp: writer_candidates_def writer_offers_def List.map_filter_def, blast)

interpretation writer_source: subsumer_source "writer_candidates core" "writer_offers core" for core
  by unfold_locales (rule writer_candidates_offered)

lemma subsumption_check_parent:
  assumes "subsumption_check resolved relation_oids core" "relation_oid \<in> set relation_oids"
  shows "\<exists>select t us fp q p.
    as_select resolved = Some select \<and> map_of (wc_tables core) relation_oid = Some t \<and>
    map_of (wc_update_queries core) relation_oid = Some us \<and> map_of (uqs_queries us) fp = Some q \<and>
    map_of (wc_cached_queries core) fp = Some p \<and> \<not> cq_invalidated p \<and>
    cq_registration_started_at p = None \<and> length (cq_relation_oids p) = 1 \<and> \<not> uq_has_limit q \<and>
    table_constraints_subsumed (analyze_query_constraints select) (uq_constraints q) t"
proof -
  from assms(1) obtain select relations where s: "as_select resolved = Some select"
    "those (map (\<lambda>oid. map_option (Pair oid) (map_of (wc_tables core) oid)) relation_oids) = Some relations"
    "subsumption_covered (analyze_query_constraints select) relations (writer_candidates core)"
    by (auto simp: subsumption_check_def Let_def split: if_splits option.splits)
  obtain t where t: "map_of (wc_tables core) relation_oid = Some t" "(relation_oid, t) \<in> set relations"
    using those_member [OF s(2) assms(2)] by auto
  from writer_source.covered_offer [OF s(3) t(2)]
  obtain c where c: "c \<in> writer_offers core relation_oid" "\<not> cand_has_limit c" "cand_ready c"
    "cand_single_relation c" "table_constraints_subsumed (analyze_query_constraints select) (cand_constraints c) t"
    by blast
  from c(1) obtain fp q us where "c = candidate_of core fp q"
    "map_of (wc_update_queries core) relation_oid = Some us" "map_of (uqs_queries us) fp = Some q"
    by (auto simp: writer_offers_def)
  with s(1) t(1) c(2-5) show ?thesis
    by (auto simp: candidate_of_def Let_def split: option.splits)
qed

lemma threshold_frame:
  "wc_generations c' = wc_generations c \<Longrightarrow> wc_generation_counter c' = wc_generation_counter c \<Longrightarrow>
   generation_purge_threshold c' = generation_purge_threshold c"
  by (simp add: generation_purge_threshold_def)

subsection \<open>Properties\<close>

text \<open>
  C20. The rows of a live query are never purged: in every state the writer can reach, the purge
  threshold lies below the generation of every cached query that is not invalidated, however
  registrations (of new, invalidated and already registered queries), subsumptions, readmissions,
  limit bumps, failures, invalidations, evictions, generation bumps, the promotion of generation 0
  and the clean-up of stale entries interleave. (Fewer than \<open>2 ^ 63\<close> steps, so that the counter does
  not saturate.)
\<close>

theorem live_generation_never_purged:
  assumes "reg_reach once n c" "int n \<le> i64_max"
    and "map_of (wc_cached_queries c) fp = Some q" "\<not> cq_invalidated q"
  shows "generation_purge_threshold c < cq_generation q"
  using reg_reach_gen_inv [OF assms(1,2)] gen_inv_threshold [OF _ assms(3,4)] by blast

definition sample_identity :: registration_identity where
  "sample_identity = \<lparr>ri_fingerprint = 7, ri_started_at = 0, ri_pinned = True\<rparr>"

definition sample_admission :: "oid \<Rightarrow> table_admission" where
  "sample_admission oid =
     \<lparr>ta_relation_oid = oid, ta_table_name = ''t'', ta_update_query = sample_update_query False,
      ta_subsumer_eligible = True, ta_index_constraints = []\<rparr>"

definition sample_query :: resolved_query_expr where
  "sample_query = QueryExpr (BSelect (sample_select (sample_cmp GreaterThan 3))) [] None"

definition sample_register :: "oid list \<Rightarrow> writer_core \<Rightarrow> writer_core" where
  "sample_register oids = query_register True sample_identity Admit sample_query (map sample_admission oids) None"

definition sample_core :: writer_core where
  "sample_core = sample_register [1, 2] core_new"

lemma sample_register_step:
  assumes "once \<longrightarrow> map_of (wc_cached_queries c) 7 = None"
  shows "reg_step once c (sample_register oids c)"
  unfolding sample_register_def
  by (rule reg_step.register) (use assms in \<open>auto simp: sample_identity_def sample_admission_def sample_update_query_def\<close>)

lemma sample_reach: "reg_reach once 1 sample_core"
  using reg_reach.step [OF reg_reach.start sample_register_step [of once core_new "[1, 2]"]]
  by (simp add: sample_core_def core_new_def)

lemma sample_core_eq:
  "sample_core = snd (cached_query_insert sample_identity [1, 2] None
     (snd (update_queries_register 7 [sample_admission 1, sample_admission 2] core_new)))"
proof -
  have "\<not> subsumption_check sample_query [1, 2] (snd (update_queries_register 7 [sample_admission 1, sample_admission 2] core_new))"
    by (simp add: subsumption_check_def sample_query_def update_queries_register_def core_new_def Let_def)
  then show ?thesis
    by (simp add: sample_core_def sample_register_def query_register_def Let_def case_prod_unfold sample_identity_def
        sample_admission_def core_new_def)
qed

lemma sample_core_sel:
  "map_of (wc_cached_queries sample_core) 7 =
     Some \<lparr>cq_generation = 1, cq_relation_oids = [1, 2], cq_max_limit = None, cq_cached_bytes = 0,
           cq_registration_started_at = Some 0, cq_invalidated = False, cq_pinned = True\<rparr>"
  "wc_generations sample_core = [1]" "wc_generation_counter sample_core = 1" "wc_readmits sample_core = []"
  by (simp_all add: sample_core_eq cached_query_insert_def generation_allocate_def core_new_def
      update_queries_register_def gen_next_def i64_max_def insert_overwrite_def sample_identity_def
      active_relations_acquire_def Let_def case_prod_unfold)

theorem live_generation_never_purged_witness: "generation_purge_threshold sample_core < 1"
  using live_generation_never_purged [OF sample_reach _ sample_core_sel(1)] by (simp add: i64_max_def)

text \<open>
  C21. No change of a cached query's tables is missed: in every state the writer can reach, each
  relation that a cached query uses is in the set the change-data stream is subscribed for. And as
  long as no registration arrives for a query that is registered and not invalidated (the handler
  does not test this), the set is exact: every relation in it is used by a cached query. (Fewer than
  \<open>2 ^ 63\<close> steps.)
\<close>

theorem active_relations_exact:
  assumes "reg_reach once n c" "int n \<le> i64_max"
  shows "((\<exists>fp q. map_of (wc_cached_queries c) fp = Some q \<and> relation_oid \<in> set (cq_relation_oids q)) \<longrightarrow>
            relation_oid \<in> set (wc_active_relations c)) \<and>
         (once \<and> relation_oid \<in> set (wc_active_relations c) \<longrightarrow>
            (\<exists>fp q. map_of (wc_cached_queries c) fp = Some q \<and> relation_oid \<in> set (cq_relation_oids q)))"
  using rel_inv_active [OF reg_reach_rel_inv [OF assms]] reg_reach_gen_inv [OF assms] by blast

theorem active_relations_exact_witness: "2 \<in> set (wc_active_relations sample_core)"
proof -
  have "\<exists>fp q. map_of (wc_cached_queries sample_core) fp = Some q \<and> 2 \<in> set (cq_relation_oids q)"
    using sample_core_sel(1) by (intro exI [of _ 7]) simp
  then show ?thesis using active_relations_exact [OF sample_reach [of True], where relation_oid = 2] by (simp add: i64_max_def)
qed


text \<open>The witness registers \<open>SELECT * FROM t\<close> and then checks \<open>SELECT * FROM t WHERE x > 3\<close> under fingerprint 8.\<close>

definition sample_loaded_core :: writer_core where
  "sample_loaded_core = sample_register [1] (core_new\<lparr>wc_tables := [(1, ''t'')]\<rparr>)"

definition sample_ready_core :: writer_core where
  "sample_ready_core = query_ready_mark 7 10 sample_loaded_core"

lemma sample_ready_reach: "reg_reach True 3 sample_ready_core"
proof -
  let ?c1 = "core_new\<lparr>wc_tables := [(1, ''t'')]\<rparr>"
  have "reg_step True core_new ?c1" by (rule reg_step.table)
  from reg_reach.step [OF reg_reach.start this] have "reg_reach True (Suc 0) ?c1" .
  from reg_reach.step [OF this sample_register_step] have "reg_reach True (Suc (Suc 0)) sample_loaded_core"
    by (simp add: sample_loaded_core_def core_new_def)
  from reg_reach.step [OF this reg_step.ready] show ?thesis
    by (simp add: sample_ready_core_def numeral_3_eq_3)
qed

definition sample_eight :: table_admission where
  "sample_eight = (sample_admission 1)\<lparr>ta_update_query := (sample_update_query False)\<lparr>uq_fingerprint := 8\<rparr>\<rparr>"

lemma sample_check: "subsumption_check sample_query [1] (snd (update_queries_register 8 [sample_eight] sample_ready_core))"
  by code_simp

lemma sample_ready_tables:
  "map_of (wc_tables sample_ready_core) 1 = Some ''t''"
  "map (map_prod id (\<lambda>us. map (uq_constraints \<circ> snd) (uqs_queries us)))
     (wc_update_queries (snd (update_queries_register 8 [sample_eight] sample_ready_core))) =
   [(1, [query_constraints_default, query_constraints_default])]"
  by code_simp+

lemma sample_stored:
  assumes "map_of (wc_update_queries (snd (update_queries_register 8 [sample_eight] sample_ready_core))) 1 = Some us"
    and "map_of (uqs_queries us) fp = Some q"
  shows "table_cs (uq_constraints q) t = []"
proof -
  have "(1, us) \<in> set (wc_update_queries (snd (update_queries_register 8 [sample_eight] sample_ready_core)))"
    using assms(1) by (rule map_of_SomeD)
  then have "map_prod id (\<lambda>us. map (uq_constraints \<circ> snd) (uqs_queries us)) (1 :: oid, us) \<in>
      set [(1, [query_constraints_default, query_constraints_default])]"
    unfolding sample_ready_tables(2) [symmetric] set_map by (rule imageI)
  moreover have "(fp, q) \<in> set (uqs_queries us)" using assms(2) by (rule map_of_SomeD)
  ultimately have "uq_constraints q \<in> {query_constraints_default}"
    by (metis (mono_tags, lifting) comp_apply image_eqI insert_iff list.set(1,2) list.set_map map_prod_simp
        prod.inject singletonD snd_conv)
  then show ?thesis by (simp add: query_constraints_default_def table_cs_def)
qed


text \<open>
  A second registration of a live query acquires its relations again: when the query is evicted,
  one reference is left over, and the relations stay active without a query that uses them.
\<close>

lemma second_registration_leaks_relations:
  "reg_reach False 3 (cache_query_evict 7 (sample_register [1, 2] sample_core))"
  "wc_cached_queries (cache_query_evict 7 (sample_register [1, 2] sample_core)) = []"
  "wc_active_relations (cache_query_evict 7 (sample_register [1, 2] sample_core)) = [2, 1]"
proof -
  have "reg_reach False (Suc 1) (sample_register [1, 2] sample_core)"
    by (rule reg_reach.step [OF sample_reach sample_register_step]) simp
  from reg_reach.step [OF this reg_step.evict]
  show "reg_reach False 3 (cache_query_evict 7 (sample_register [1, 2] sample_core))" by (simp add: numeral_3_eq_3)
  show "wc_cached_queries (cache_query_evict 7 (sample_register [1, 2] sample_core)) = []" by code_simp
  show "wc_active_relations (cache_query_evict 7 (sample_register [1, 2] sample_core)) = [2, 1]" by code_simp
qed

text \<open>A check-only registration of a live query drops the update queries that watch its relations.\<close>

lemma check_only_drops_live_update_queries:
  "map_of (wc_cached_queries (query_register True sample_identity CheckOnly sample_query [sample_admission 1, sample_admission 2] None sample_core)) 7 \<noteq> None"
  "list_all (\<lambda>(_, us). uqs_queries us = [])
     (wc_update_queries (query_register True sample_identity CheckOnly sample_query [sample_admission 1, sample_admission 2] None sample_core))"
  by code_simp+

text \<open>
  The invalidation of a pinned query only queues a readmission, and the readmission allocates a
  new generation without retiring the old one: the old generation stays in the active set with no
  owner, and holds the purge threshold down for good.
\<close>

lemma pinned_readmit_leaks_generation:
  "\<exists>c. reg_reach once 3 c \<and> 1 \<in> set (wc_generations c) \<and> generation_purge_threshold c = 0 \<and>
     (\<forall>fp q. map_of (wc_cached_queries c) fp = Some q \<longrightarrow> cq_generation q = 2)"
proof (intro exI conjI allI impI)
  let ?c1 = "sample_core\<lparr>wc_readmits := [7]\<rparr>"
  let ?c2 = "query_readmit 7 0 sample_core"
  have "?c1 = snd (cache_query_cdc_invalidate Clock 7 sample_core)"
    by (simp add: cache_query_cdc_invalidate_def sample_core_sel)
  then have "reg_step once sample_core ?c1" by (metis reg_step.invalidate)
  from reg_reach.step [OF sample_reach this] have r: "reg_reach once 2 ?c1" by (simp add: numeral_2_eq_2)
  have "reg_step once ?c1 (query_readmit 7 0 (?c1\<lparr>wc_readmits := []\<rparr>))" by (rule reg_step.readmit_pinned) simp
  moreover have "?c1\<lparr>wc_readmits := []\<rparr> = sample_core" using sample_core_sel(4) by (cases sample_core) simp
  ultimately have "reg_step once ?c1 ?c2" by simp
  from reg_reach.step [OF r this] show "reg_reach once 3 ?c2" by (simp add: numeral_3_eq_3)
  have gens: "wc_generations ?c2 = [2, 1]"
    by (simp add: query_readmit_def generation_allocate_def sample_core_sel gen_next_def i64_max_def Let_def)
  then show "1 \<in> set (wc_generations ?c2)" by simp
  show "generation_purge_threshold ?c2 = 0"
    by (simp add: generation_purge_threshold_def gens gen_previous_def i64_min_def)
  show "cq_generation q = 2" if "map_of (wc_cached_queries ?c2) fp = Some q" for fp q
  proof -
    have "fp' = 7" if "(fp', q') \<in> set (wc_cached_queries sample_core)" for fp' q'
      using that by (simp add: sample_core_eq cached_query_insert_def insert_overwrite_def
          core_new_def update_queries_register_def sample_identity_def Let_def case_prod_unfold
          generation_allocate_def)
    then have "filter (\<lambda>(fp', q'). fp' \<noteq> 7 \<and> P q') (AList.delete 7 (wc_cached_queries sample_core)) = []" for P
      by (auto simp: AList.delete_eq filter_empty_conv)
    with that show ?thesis
      by (auto simp: query_readmit_def generation_allocate_def sample_core_sel gen_next_def i64_max_def
          Let_def insert_overwrite_def split: if_splits)
  qed
qed

end
