(* ===== verification/Invalidation.thy ===== *)
theory Invalidation
  imports Row_Match Registry
begin

text \<open>
  Which cached queries a row event invalidates
  (\<^verbatim>\<open>src/cache/writer/cdc/invalidation.rs\<close>).

  The writer does not examine every query of a relation: \<open>narrowed_candidates\<close> combines the point
  probe of the row with the carve-out sets. The properties show that this narrowing is exact (it
  finds what an examination of all stored queries finds), that the flag which lets an update skip
  the check altogether is never unset for a query the check would invalidate, and that the
  fallback for rows with elided columns is at least as conservative as the check on the full row.
\<close>

subsection \<open>The checks\<close>

datatype cdc_operation = CdcUpsert | CdcDelete

record row_event =
  re_row_data :: row_data
  re_key_data :: "row_data option"
  re_operation :: cdc_operation
  re_row_changes :: "row_changes option"

definition eval_candidates_into ::
  "(oid \<times> update_queries) list \<Rightarrow> (oid \<times> table_metadata) list \<Rightarrow> oid \<Rightarrow> row_data \<Rightarrow> fingerprint list" where
  "eval_candidates_into update_queries tables relation_oid row =
     (case (map_of update_queries relation_oid, map_of tables relation_oid) of
        (Some uqs, Some table_metadata) \<Rightarrow>
          candidates_point_into (uqs_eval_index uqs) (row_value_forms table_metadata row)
      | _ \<Rightarrow> [])"

definition row_relevant :: "update_query \<Rightarrow> table_metadata \<Rightarrow> row_event \<Rightarrow> bool" where
  "row_relevant q tm event =
     (if map_of (qc_table_constraints (uq_constraints q)) (tm_name tm) \<noteq> None
      then row_constraints_match (uq_constraints q) tm (re_row_data event)
      else \<not> join_membership_unchanged q tm (re_key_data event))"

fun subquery_change_expands :: "subquery_kind \<Rightarrow> cdc_operation \<Rightarrow> bool" where
  "subquery_change_expands SkScalar _ = True"
| "subquery_change_expands SkInclusion CdcUpsert = True"
| "subquery_change_expands SkInclusion CdcDelete = False"
| "subquery_change_expands SkExclusion CdcUpsert = False"
| "subquery_change_expands SkExclusion CdcDelete = True"

definition from_clause_uncached_invalidates :: "update_query \<Rightarrow> table_metadata \<Rightarrow> row_event \<Rightarrow> bool" where
  "from_clause_uncached_invalidates q tm event =
     (if re_operation event = CdcDelete then uq_has_limit q
      else \<not> uq_is_single_table q \<and> row_relevant q tm event)"

definition row_uncached_invalidates :: "update_query \<Rightarrow> table_metadata \<Rightarrow> row_event \<Rightarrow> bool" where
  "row_uncached_invalidates q tm event =
     (case uq_source q of
        UsFromClause \<Rightarrow> from_clause_uncached_invalidates q tm event
      | UsSubquery kind \<Rightarrow>
          row_relevant q tm event \<and> subquery_change_expands kind (re_operation event)
      | UsOuterJoinTerminal \<Rightarrow> False
      | UsOuterJoinOptional \<Rightarrow> row_constraints_match (uq_constraints q) tm (re_row_data event))"

definition columns_changed :: "string list \<Rightarrow> row_changes \<Rightarrow> bool" where
  "columns_changed columns rc = list_ex (column_changed rc) columns"

definition limit_window_move_invalidates ::
  "update_query \<Rightarrow> table_metadata \<Rightarrow> row_data \<Rightarrow> row_changes \<Rightarrow> bool" where
  "limit_window_move_invalidates q tm row_data rc =
     (let windowed = uq_has_limit q \<and> uq_source q = UsFromClause
      in if \<not> windowed \<or> \<not> columns_changed (uq_limit_window_columns q) rc then False
         else if columns_changed (uq_predicate_columns q) rc then True
         else row_constraints_match (uq_constraints q) tm row_data \<and>
              \<not> window_move_is_promotion q tm row_data rc)"

definition join_columns_changed :: "update_query \<Rightarrow> table_metadata \<Rightarrow> row_changes \<Rightarrow> bool" where
  "join_columns_changed q tm rc =
     list_ex (\<lambda>column. case map_of rc column of None \<Rightarrow> True | Some cc \<Rightarrow> cch_changed cc)
       (table_join_columns (uq_constraints q) (tm_name tm))"

definition row_cached_invalidates ::
  "update_query \<Rightarrow> table_metadata \<Rightarrow> row_data \<Rightarrow> row_changes \<Rightarrow> bool" where
  "row_cached_invalidates q tm row_data rc =
     (if source_always (uq_source q) then True
      else if limit_window_move_invalidates q tm row_data rc then True
      else join_columns_changed q tm rc \<and> row_constraints_match (uq_constraints q) tm row_data)"

definition toast_fallback_structural_invalidate ::
  "update_query \<Rightarrow> table_metadata \<Rightarrow> row_event \<Rightarrow> string list \<Rightarrow> bool" where
  "toast_fallback_structural_invalidate q tm event toasted_columns =
     (if list_ex (\<lambda>c. c \<in> set toasted_columns) (uq_predicate_columns q) then True
      else if source_always (uq_source q) then True
      else uq_has_limit q \<or> (\<not> uq_is_single_table q \<and> row_relevant q tm event))"

definition narrowed_candidates :: "update_queries \<Rightarrow> row_event \<Rightarrow> fingerprint list \<Rightarrow> fingerprint list" where
  "narrowed_candidates uqs event cands =
     (let expand_limit =
            (case (re_operation event, re_row_changes event) of
               (CdcDelete, _) \<Rightarrow> True
             | (CdcUpsert, Some rc) \<Rightarrow> limit_predicate_changed uqs rc
             | (CdcUpsert, None) \<Rightarrow> False)
      in cands @ uqs_always_check uqs @ (if expand_limit then uqs_has_limit_from uqs else []))"

definition query_row_invalidates :: "update_query \<Rightarrow> table_metadata \<Rightarrow> row_event \<Rightarrow> bool" where
  "query_row_invalidates q tm event =
     (case re_row_changes event of
        Some rc \<Rightarrow> row_cached_invalidates q tm (re_row_data event) rc
      | None \<Rightarrow> row_uncached_invalidates q tm event)"

definition update_queries_check_invalidate ::
  "(oid \<times> update_queries) list \<Rightarrow> (oid \<times> table_metadata) list \<Rightarrow> oid \<Rightarrow> row_event \<Rightarrow> fingerprint list
   \<Rightarrow> fingerprint list" where
  "update_queries_check_invalidate update_queries tables relation_oid event cands =
     (case (map_of update_queries relation_oid, map_of tables relation_oid) of
        (Some uqs, Some tm) \<Rightarrow>
          filter (\<lambda>fp. case map_of (uqs_queries uqs) fp of
                         None \<Rightarrow> False
                       | Some q \<Rightarrow> query_row_invalidates q tm event)
            (narrowed_candidates uqs event cands)
      | _ \<Rightarrow> [])"

subsection \<open>The skip flag\<close>

text \<open>
  C25. The flag that lets an update skip the invalidation check is in step with the check: if the
  check invalidates a query on an insert or update, cached or not, then
  \<open>update_invalidation_possible\<close> holds for that query and table, whatever the row.
\<close>

theorem invalidation_only_if_possible:
  assumes "query_row_invalidates q tm event" "re_operation event = CdcUpsert"
  shows "update_invalidation_possible q (tm_name tm)"
proof (cases "re_row_changes event")
  case None
  with assms show ?thesis
    by (auto simp: query_row_invalidates_def row_uncached_invalidates_def update_invalidation_possible_def
        from_clause_uncached_invalidates_def split: update_query_source.splits)
next
  case (Some rc)
  then have "row_cached_invalidates q tm (re_row_data event) rc"
    using assms(1) by (simp add: query_row_invalidates_def)
  then consider "source_always (uq_source q)" | "limit_window_move_invalidates q tm (re_row_data event) rc"
    | "join_columns_changed q tm rc"
    by (auto simp: row_cached_invalidates_def split: if_splits)
  then show ?thesis
  proof cases
    case 2
    then show ?thesis
      by (auto simp: limit_window_move_invalidates_def update_invalidation_possible_def columns_changed_def
          split: if_splits)
  next
    case 3
    then show ?thesis by (auto simp: join_columns_changed_def update_invalidation_possible_def)
  qed (simp add: update_invalidation_possible_def)
qed

definition sample_event :: row_event where
  "sample_event =
     \<lparr>re_row_data = [Some ''9'', Some ''x''], re_key_data = Some [], re_operation = CdcUpsert,
      re_row_changes =
        Some [(''a'', \<lparr>cch_changed = True, cch_old_less_than_new = None, cch_old_is_null = False\<rparr>)]\<rparr>"

lemmas invalidation_simps =
  query_row_invalidates_def row_cached_invalidates_def limit_window_move_invalidates_def
  columns_changed_def column_changed_def sample_event_def sample_update_query_def

theorem invalidation_only_if_possible_witness:
  "query_row_invalidates (sample_update_query True) sample_table sample_event \<and>
   update_invalidation_possible (sample_update_query True) (tm_name sample_table)"
proof -
  have "query_row_invalidates (sample_update_query True) sample_table sample_event"
    by (simp add: invalidation_simps)
  with invalidation_only_if_possible [OF this] show ?thesis by (simp add: sample_event_def)
qed

subsection \<open>Narrowing\<close>

text \<open>
  The state of one relation after any sequence of registrations and removals, and the map from
  fingerprints to the admission that registered them last.
\<close>

datatype relation_op = RoRegister table_admission | RoDrop fingerprint

definition adm_fp :: "table_admission \<Rightarrow> fingerprint" where
  "adm_fp a = uq_fingerprint (ta_update_query a)"

fun relation_step :: "relation_op \<Rightarrow> update_queries \<Rightarrow> update_queries" where
  "relation_step (RoRegister a) us = admission_store (adm_fp a) a us"
| "relation_step (RoDrop fp) us = fingerprint_drop fp us"

definition relation_run :: "oid \<Rightarrow> relation_op list \<Rightarrow> update_queries" where
  "relation_run oid ops = fold relation_step ops (uqs_new oid)"

fun admitted_step :: "relation_op \<Rightarrow> (fingerprint \<Rightarrow> table_admission option) \<Rightarrow> fingerprint \<Rightarrow> table_admission option" where
  "admitted_step (RoRegister a) A = A(adm_fp a \<mapsto> a)"
| "admitted_step (RoDrop fp) A = A(fp := None)"

definition relation_ok :: "update_queries \<Rightarrow> (fingerprint \<Rightarrow> table_admission option) \<Rightarrow> bool" where
  "relation_ok us A \<longleftrightarrow>
     uqs_inv us \<and> map_of (uqs_queries us) = (\<lambda>fp. map_option ta_update_query (A fp)) \<and>
     ix_rel (uqs_eval_index us) (\<lambda>fp. map_option ta_index_constraints (A fp))"

lemma uqs_inv_indexes [simp]:
  "uqs_inv (us\<lparr>uqs_eval_index := ix\<rparr>) = uqs_inv us" "uqs_inv (us\<lparr>uqs_subsumption := ix\<rparr>) = uqs_inv us"
  by (simp_all add: uqs_inv_def)

lemma eval_index_account [simp]:
  "uqs_eval_index (carveout_account fp q added us) = uqs_eval_index us"
  "uqs_eval_index (change_dependent_account cd added us) = uqs_eval_index us"
  "uqs_eval_index (query_unaccount fp prev us) = uqs_eval_index us"
proof -
  show *: "uqs_eval_index (carveout_account fp q added us) = uqs_eval_index us" for fp q us
    by (simp add: carveout_account_def Let_def split: prod.split)
  show **: "uqs_eval_index (change_dependent_account cd added us) = uqs_eval_index us" for cd added us
    by (simp add: change_dependent_account_def)
  show "uqs_eval_index (query_unaccount fp prev us) = uqs_eval_index us"
    by (cases prev) (simp_all add: query_unaccount_def carveout_account_def ** Let_def split: prod.split)
qed

lemma eval_index_query [simp]:
  "uqs_eval_index (query_insert q us) = uqs_eval_index us"
  "uqs_eval_index (query_remove fp us) = uqs_eval_index us"
  by (simp_all add: query_insert_def query_remove_def Let_def split: option.split)

lemma relation_step_ok:
  assumes "relation_ok us A"
  shows "relation_ok (relation_step op us) (admitted_step op A)"
proof (cases op)
  case (RoRegister a)
  have "(\<lambda>fp. map_option ta_index_constraints ((A(adm_fp a \<mapsto> a)) fp)) =
      (\<lambda>fp. map_option ta_index_constraints (A fp))(adm_fp a \<mapsto> ta_index_constraints a)" by auto
  with assms RoRegister ixs.rel_ins show ?thesis
    by (auto simp: relation_ok_def admission_store_def Let_def query_insert_inv queries_query_insert adm_fp_def)
next
  case (RoDrop fp)
  have "(\<lambda>fp'. map_option ta_index_constraints ((A(fp := None)) fp')) =
      (\<lambda>fp. map_option ta_index_constraints (A fp))(fp := None)" by auto
  with assms RoDrop ixs.rel_del show ?thesis
    by (auto simp: relation_ok_def fingerprint_drop_def Let_def query_remove_inv queries_query_remove)
qed

lemma relation_new_ok: "relation_ok (uqs_new oid) (\<lambda>_. None)"
  using ixs.rel_empty by (simp add: relation_ok_def uqs_new_inv) (simp add: uqs_new_def)

lemma relation_run_ok:
  "relation_ok (relation_run oid ops) (fold admitted_step ops (\<lambda>_. None))"
proof -
  have "relation_ok us A \<Longrightarrow> relation_ok (fold relation_step ops us) (fold admitted_step ops A)" for us A
    by (induction ops arbitrary: us A) (simp_all add: relation_step_ok)
  then show ?thesis by (simp add: relation_run_def relation_new_ok)
qed

lemma admitted_from:
  assumes "fold admitted_step ops (\<lambda>_. None) fp = Some a"
  shows "RoRegister a \<in> set ops"
proof -
  have "fold admitted_step ops A fp = Some a \<Longrightarrow> RoRegister a \<in> set ops \<or> A fp = Some a" for A
  proof (induction ops arbitrary: A)
    case (Cons op ops)
    then show ?case by (cases op) (fastforce split: if_splits)+
  qed simp
  with assms show ?thesis by fastforce
qed

text \<open>
  The constraints an update query is indexed under: admission stores none for a relation that
  occurs twice, else those of the table. The second condition is on the query: each column is
  compared with literals of one kind that row check and index treat alike.
\<close>

definition admission_ok :: "table_metadata \<Rightarrow> table_admission \<Rightarrow> bool" where
  "admission_ok tm a \<longleftrightarrow>
     (ta_index_constraints a = [] \<or>
      ta_index_constraints a = table_cs (uq_constraints (ta_update_query a)) (tm_name tm)) \<and>
     (\<forall>c. column_kind_ok (ta_index_constraints a) c)"

lemma match_candidate:
  assumes ok: "relation_ok us A" and a: "A fp = Some a" and adm: "admission_ok tm a"
    and match: "row_constraints_match (uq_constraints (ta_update_query a)) tm row"
  shows "fp \<in> set (candidates_point_into (uqs_eval_index us) (row_value_forms tm row))"
proof (rule candidates_point_complete)
  show "ix_rel (uqs_eval_index us) (\<lambda>fp. map_option ta_index_constraints (A fp))"
    using ok by (simp add: relation_ok_def)
  show "map_option ta_index_constraints (A fp) = Some (ta_index_constraints a)" using a by simp
  have "\<forall>tc\<in>set (ta_index_constraints a). constraint_row_matches tc tm row"
    using adm match
    by (auto simp: admission_ok_def row_constraints_match_def table_cs_def list_all_iff split: option.splits)
  then show "\<forall>c\<in>tc_column ` set (ta_index_constraints a).
      forms_match (column_range_of (ta_index_constraints a) c) (row_value_forms tm row c)"
    using adm row_forms_match by (auto simp: admission_ok_def)
qed

lemma unconstrained_match:
  "map_of (qc_table_constraints qc) (tm_name tm) = None \<Longrightarrow> row_constraints_match qc tm row"
  by (simp add: row_constraints_match_def)

lemma relevant_match: "row_relevant q tm event \<Longrightarrow> row_constraints_match (uq_constraints q) tm (re_row_data event)"
  by (auto simp: row_relevant_def intro: unconstrained_match split: if_splits)

text \<open>Every branch of the check is behind one of the three narrowed sets.\<close>

lemma invalidates_cases:
  assumes "query_row_invalidates q tm event"
  obtains "source_always (uq_source q)"
  | "row_constraints_match (uq_constraints q) tm (re_row_data event)"
  | "is_limit_from q" "re_operation event = CdcDelete"
  | rc where "is_limit_from q" "re_row_changes event = Some rc" "columns_changed (uq_predicate_columns q) rc"
proof (cases "re_row_changes event")
  case None
  with assms have inv: "row_uncached_invalidates q tm event" by (simp add: query_row_invalidates_def)
  show ?thesis
  proof (cases "uq_source q")
    case UsFromClause
    with inv have f: "from_clause_uncached_invalidates q tm event" by (simp add: row_uncached_invalidates_def)
    show ?thesis
    proof (cases "re_operation event = CdcDelete")
      case True
      with f UsFromClause that(3) show ?thesis
        by (simp add: from_clause_uncached_invalidates_def is_limit_from_def)
    next
      case False
      with f that(2) relevant_match show ?thesis by (simp add: from_clause_uncached_invalidates_def)
    qed
  qed (use inv that(1) in \<open>simp_all add: row_uncached_invalidates_def\<close>)
next
  case (Some rc)
  with assms have inv: "row_cached_invalidates q tm (re_row_data event) rc"
    by (simp add: query_row_invalidates_def)
  show ?thesis
  proof (cases "limit_window_move_invalidates q tm (re_row_data event) rc")
    case True
    then have lim: "is_limit_from q"
      by (auto simp: limit_window_move_invalidates_def is_limit_from_def Let_def split: if_splits)
    from True consider "columns_changed (uq_predicate_columns q) rc"
      | "row_constraints_match (uq_constraints q) tm (re_row_data event)"
      by (auto simp: limit_window_move_invalidates_def Let_def split: if_splits)
    with lim Some that show ?thesis by metis
  next
    case False
    with inv have "source_always (uq_source q) \<or> row_constraints_match (uq_constraints q) tm (re_row_data event)"
      by (auto simp: row_cached_invalidates_def split: if_splits)
    with that(1,2) show ?thesis by blast
  qed
qed

lemma columns_changed_member:
  assumes "columns_changed cols rc"
  obtains c cc where "c \<in> set cols" "(c, cc) \<in> set rc" "cch_changed cc"
  using assms map_of_SomeD
  by (force simp: columns_changed_def column_changed_def list_ex_iff split: option.splits)

lemma narrowed_complete:
  assumes ok: "relation_ok us A" and a: "A fp = Some a" and adm: "admission_ok tm a"
    and inv: "query_row_invalidates (ta_update_query a) tm event"
  shows "fp \<in> set (narrowed_candidates us event
    (candidates_point_into (uqs_eval_index us) (row_value_forms tm (re_row_data event))))"
proof -
  let ?q = "ta_update_query a"
  have q: "map_of (uqs_queries us) fp = Some ?q" using ok a by (simp add: relation_ok_def)
  have u: "uqs_inv us" using ok by (simp add: relation_ok_def)
  have limit: "fp \<in> set (uqs_has_limit_from us)" if "is_limit_from ?q"
    using u q that unfolding uqs_inv_def by blast
  from inv show ?thesis
  proof (cases rule: invalidates_cases)
    case 1
    with u q have "fp \<in> set (uqs_always_check us)" unfolding uqs_inv_def by blast
    then show ?thesis by (simp add: narrowed_candidates_def Let_def)
  next
    case 2
    from match_candidate [OF ok a adm this] show ?thesis by (simp add: narrowed_candidates_def Let_def)
  next
    case 3
    with limit show ?thesis by (simp add: narrowed_candidates_def)
  next
    case (4 rc)
    obtain c cc where "c \<in> set (uq_predicate_columns ?q)" "(c, cc) \<in> set rc" "cch_changed cc"
      by (rule columns_changed_member [OF 4(3)])
    with 4(1) q have "limit_predicate_changed us rc" using limit_predicate_changed_iff [OF u] by blast
    with 4 limit show ?thesis
      by (auto simp: narrowed_candidates_def split: cdc_operation.splits)
  qed
qed

text \<open>
  C26. Narrowing is exact: for a relation in any state that registrations and removals lead to,
  and any insert, update or delete event, the queries invalidated through the row probe and the
  carve-out sets are exactly the stored queries that the check invalidates when all of them are
  examined. The registered queries are indexed under no constraint or under their constraints on
  the table, and each column of these is compared through a cast, or with integer literals only, or
  with boolean literals only, or with text literals only and then without an \<open>IN\<close> list next to an
  ordering bound. Float literals are not covered: the check compares them up to an epsilon, the
  index by the exact key.
\<close>

theorem narrowed_check_exact:
  assumes "map_of uqss oid = Some (relation_run oid ops)" "map_of tables oid = Some tm"
    and "\<forall>a. RoRegister a \<in> set ops \<longrightarrow> admission_ok tm a"
  shows "set (update_queries_check_invalidate uqss tables oid event
              (eval_candidates_into uqss tables oid (re_row_data event))) =
    {fp. \<exists>q. map_of (uqs_queries (relation_run oid ops)) fp = Some q \<and> query_row_invalidates q tm event}"
proof -
  let ?us = "relation_run oid ops" and ?A = "fold admitted_step ops (\<lambda>_. None)"
  let ?N = "set (narrowed_candidates ?us event
    (candidates_point_into (uqs_eval_index ?us) (row_value_forms tm (re_row_data event))))"
  note ok = relation_run_ok [of oid ops]
  have q: "map_of (uqs_queries ?us) = (\<lambda>fp. map_option ta_update_query (?A fp))"
    using ok by (simp add: relation_ok_def)
  have "fp \<in> ?N" if "map_of (uqs_queries ?us) fp = Some q" "query_row_invalidates q tm event" for fp q
    using that q narrowed_complete [OF ok] assms(3) admitted_from [of ops fp]
    by (cases "?A fp") auto
  moreover have "set (update_queries_check_invalidate uqss tables oid event
      (eval_candidates_into uqss tables oid (re_row_data event))) =
      {fp \<in> ?N. case map_of (uqs_queries ?us) fp of None \<Rightarrow> False | Some q \<Rightarrow> query_row_invalidates q tm event}"
    by (simp add: update_queries_check_invalidate_def eval_candidates_into_def assms(1,2))
  ultimately show ?thesis by (auto split: option.splits)
qed

definition sample_limit_admission :: table_admission where
  "sample_limit_admission =
     \<lparr>ta_relation_oid = 1, ta_table_name = ''t'', ta_update_query = sample_update_query True,
      ta_subsumer_eligible = False, ta_index_constraints = []\<rparr>"

theorem narrowed_check_exact_witness:
  "let uqss = [(1, relation_run 1 [RoRegister sample_limit_admission])]; tables = [(1, sample_table)] in
   7 \<in> set (update_queries_check_invalidate uqss tables 1 sample_event
            (eval_candidates_into uqss tables 1 (re_row_data sample_event)))"
proof -
  let ?us = "relation_run 1 [RoRegister sample_limit_admission]"
  have ok: "\<forall>a. RoRegister a \<in> set [RoRegister sample_limit_admission] \<longrightarrow> admission_ok sample_table a"
    by (simp add: admission_ok_def sample_limit_admission_def column_kind_ok_def)
  have "map_of (uqs_queries ?us) 7 = Some (sample_update_query True)"
    using relation_run_ok [of 1 "[RoRegister sample_limit_admission]"]
    by (simp add: relation_ok_def adm_fp_def sample_limit_admission_def sample_update_query_def)
  moreover have "query_row_invalidates (sample_update_query True) sample_table sample_event"
    by (simp add: invalidation_simps)
  ultimately show ?thesis
    unfolding Let_def
    by (subst narrowed_check_exact [where ops = "[RoRegister sample_limit_admission]" and tm = sample_table])
      (use ok in auto)
qed

subsection \<open>Rows with elided columns\<close>

lemma row_match_agree:
  assumes "\<forall>c. c \<notin> set toasted \<longrightarrow> row_value_of tm full c = row_value_of tm row c"
    and "\<forall>tc\<in>set (table_cs qc (tm_name tm)). constraint_column tc \<notin> set toasted"
  shows "row_constraints_match qc tm full = row_constraints_match qc tm row"
  using assms
  by (auto simp: row_constraints_match_def constraint_row_matches_def table_cs_def list_all_iff
      split: option.split)

text \<open>
  C29. The fallback for an update whose image lacks unchanged out-of-line values is conservative:
  if the check on the complete row, cached with any reported changes or not cached, would
  invalidate a query, then the structural test on the incomplete row does. It relies on the
  predicate columns covering the table's constraints, on a single-table query having no join
  columns, and on primary-key columns being reported unchanged when no key tuple was sent.
\<close>

theorem toast_fallback_conservative:
  assumes "query_row_invalidates q tm (event\<lparr>re_row_data := full, re_row_changes := changes\<rparr>)"
    and "re_operation event = CdcUpsert"
    and "\<forall>c. c \<notin> set toasted \<longrightarrow> row_value_of tm full c = row_value_of tm (re_row_data event) c"
    and "\<forall>tc\<in>set (table_cs (uq_constraints q) (tm_name tm)). constraint_column tc \<in> set (uq_predicate_columns q)"
    and "uq_is_single_table q \<longrightarrow> table_join_columns (uq_constraints q) (tm_name tm) = []"
    and "\<forall>rc. changes = Some rc \<and> re_key_data event = Some [] \<longrightarrow>
           (\<forall>c\<in>set (tm_primary_key_columns tm). \<exists>cc. map_of rc c = Some cc \<and> \<not> cch_changed cc)"
  shows "toast_fallback_structural_invalidate q tm event toasted"
proof (cases "list_ex (\<lambda>c. c \<in> set toasted) (uq_predicate_columns q) \<or> source_always (uq_source q) \<or> uq_has_limit q")
  case True
  then show ?thesis by (auto simp: toast_fallback_structural_invalidate_def)
next
  case False
  then have "\<forall>tc\<in>set (table_cs (uq_constraints q) (tm_name tm)). constraint_column tc \<notin> set toasted"
    using assms(4) by (auto simp: list_ex_iff)
  note agree = row_match_agree [OF assms(3) this]
  have relevant: "row_relevant q tm (event\<lparr>re_row_data := full, re_row_changes := changes\<rparr>) = row_relevant q tm event"
    by (simp add: row_relevant_def agree)
  have "\<not> uq_is_single_table q \<and> row_relevant q tm event"
  proof (cases changes)
    case None
    with assms(1,2) False relevant show ?thesis
      by (cases "uq_source q")
        (simp_all add: query_row_invalidates_def row_uncached_invalidates_def from_clause_uncached_invalidates_def)
  next
    case (Some rc)
    have "\<not> limit_window_move_invalidates q tm full rc"
      using False by (simp add: limit_window_move_invalidates_def)
    with assms(1) Some False have join: "join_columns_changed q tm rc"
      and match: "row_constraints_match (uq_constraints q) tm (re_row_data event)"
      by (simp_all add: query_row_invalidates_def row_cached_invalidates_def agree)
    obtain c where c: "c \<in> set (table_join_columns (uq_constraints q) (tm_name tm))"
      "(case map_of rc c of None \<Rightarrow> True | Some cc \<Rightarrow> cch_changed cc)"
      using join unfolding join_columns_changed_def list_ex_iff by blast
    then have "\<not> uq_is_single_table q" using assms(5) by auto
    moreover have "\<not> join_membership_unchanged q tm (re_key_data event)"
    proof
      assume "join_membership_unchanged q tm (re_key_data event)"
      then have "re_key_data event = Some []" "c \<in> set (tm_primary_key_columns tm)"
        using c(1) by (simp_all add: join_membership_unchanged_def list_all_iff Let_def split: option.splits if_splits)
      with assms(6) Some c(2) show False by fastforce
    qed
    ultimately show ?thesis using match by (simp add: row_relevant_def)
  qed
  then show ?thesis by (simp add: toast_fallback_structural_invalidate_def)
qed

definition toasted_event :: row_event where
  "toasted_event = sample_event\<lparr>re_row_data := [Some ''9'', None], re_key_data := Some [Some ''8'', None]\<rparr>"

theorem toast_fallback_conservative_witness:
  "toast_fallback_structural_invalidate (sample_update_query True) sample_table toasted_event [''name'']"
proof (rule toast_fallback_conservative
    [where full = "[Some ''9'', Some ''x'']" and changes = "re_row_changes sample_event"])
  show "query_row_invalidates (sample_update_query True) sample_table
      (toasted_event\<lparr>re_row_data := [Some ''9'', Some ''x''], re_row_changes := re_row_changes sample_event\<rparr>)"
    by (simp add: invalidation_simps toasted_event_def)
qed (auto simp: sample_table_simps sample_event_def toasted_event_def sample_update_query_def
      query_constraints_default_def table_cs_def table_join_columns_def)

end
