(* ===== verification/Range_Overlap.thy ===== *)
theory Range_Overlap
  imports Subsumption
begin

text \<open>
  The read-after-write overlap algebra of \<^verbatim>\<open>src/query/constraints/range_overlap.rs\<close>: can the
  rows of a pending write match a read? Containment of a written value in a range, disjointness
  of two ranges, and disjointness of two per-column range maps.

  The interface \<open>overlap_domain\<close> is weaker than \<open>column_domain\<close>: literals of different
  spelling may denote one value (\<open>10\<close> and \<open>10.0\<close>), because this half of the code compares
  through \<open>literal_value_eq\<close> and \<open>literal_value_order_numeric\<close>.
\<close>

subsection \<open>Comparing integers with floats\<close>

definition two_pow_63 :: f64 where
  "two_pow_63 = Fin (2 ^ 63)"

definition int_float_cmp :: "int \<Rightarrow> f64 \<Rightarrow> ordering" where
  "int_float_cmp i f =
     (if two_pow_63 \<le> f then OrdLess
      else if f < Fin (- (2 ^ 63)) then OrdGreater
      else (let fl = f64_floor f; floor_int = f64_as_i64 fl in
            case cmp i floor_int of
              OrdGreater \<Rightarrow> OrdGreater
            | OrdLess \<Rightarrow> OrdLess
            | OrdEqual \<Rightarrow> if f = fl then OrdEqual else OrdLess))"

fun literal_value_order_numeric :: "literal_value \<Rightarrow> literal_value \<Rightarrow> ordering option" where
  "literal_value_order_numeric (LInteger i) (LFloat f) = Some (int_float_cmp i f)"
| "literal_value_order_numeric (LFloat f) (LInteger i) =
     Some (ordering_reverse (int_float_cmp i f))"
| "literal_value_order_numeric a b = literal_value_order a b"

fun literal_value_eq :: "literal_value \<Rightarrow> literal_value \<Rightarrow> bool option" where
  "literal_value_eq (LInteger a) (LInteger b) = Some (a = b)"
| "literal_value_eq (LFloat a) (LFloat b) = Some (a = b)"
| "literal_value_eq (LInteger i) (LFloat f) = Some (int_float_cmp i f = OrdEqual)"
| "literal_value_eq (LFloat f) (LInteger i) = Some (int_float_cmp i f = OrdEqual)"
| "literal_value_eq (LString a) (LString b) = Some (a = b)"
| "literal_value_eq (LStringWithCast a _) (LStringWithCast b _) = Some (a = b)"
| "literal_value_eq _ _ = None"

subsection \<open>Containment and disjointness\<close>

fun in_set_loop :: "literal_value list \<Rightarrow> literal_value \<Rightarrow> bool \<Rightarrow> bool option" where
  "in_set_loop [] v all_unequal = (if all_unequal then Some False else None)"
| "in_set_loop (elem # es) v all_unequal =
     (case literal_value_eq elem v of
        Some True \<Rightarrow> Some True
      | Some False \<Rightarrow> in_set_loop es v all_unequal
      | None \<Rightarrow> in_set_loop es v False)"

definition in_set_contains :: "literal_value list \<Rightarrow> literal_value \<Rightarrow> bool option" where
  "in_set_contains s v = in_set_loop s v True"

fun bounds_admit ::
  "range_view \<Rightarrow> literal_value \<Rightarrow> bound_side list \<Rightarrow> bool \<Rightarrow> bool option" where
  "bounds_admit rng v [] admitted = Some admitted"
| "bounds_admit rng v (side # sides) admitted =
     (case rv_bound rng side of
        None \<Rightarrow> bounds_admit rng v sides admitted
      | Some bound \<Rightarrow>
          (case literal_value_order_numeric v (rb_value bound) of
             None \<Rightarrow> None
           | Some ord \<Rightarrow>
               bounds_admit rng v sides (admitted \<and> admits side ord (rb_inclusive bound))))"

definition range_contains :: "range_view \<Rightarrow> literal_value \<Rightarrow> bool option" where
  "range_contains rng v =
     (if list_ex (\<lambda>nv. literal_value_eq nv v = Some True) (rv_not_equal rng) then Some False
      else bounds_admit rng v [Lower, Upper] True)"

definition column_range_contains :: "column_range \<Rightarrow> literal_value \<Rightarrow> bool option" where
  "column_range_contains r v =
     (if literal_value_is_incomparable v then None
      else (case r of
              RUnconstrained \<Rightarrow> Some True
            | REmpty \<Rightarrow> Some False
            | RUnknown \<Rightarrow> None
            | REqual e \<Rightarrow> literal_value_eq e v
            | RInSet s \<Rightarrow> in_set_contains s v
            | RRange lower upper excl \<Rightarrow> range_contains (range_view_new lower upper excl) v))"

fun bound_below :: "range_bound option \<Rightarrow> range_bound option \<Rightarrow> bool" where
  "bound_below (Some u) (Some l) =
     (case literal_value_order_numeric (rb_value u) (rb_value l) of
        Some OrdLess \<Rightarrow> True
      | Some OrdEqual \<Rightarrow> \<not> (rb_inclusive u \<and> rb_inclusive l)
      | Some OrdGreater \<Rightarrow> False
      | None \<Rightarrow> False)"
| "bound_below _ _ = False"

fun column_range_disjoint :: "column_range \<Rightarrow> column_range \<Rightarrow> bool" where
  "column_range_disjoint REmpty _ = True"
| "column_range_disjoint _ REmpty = True"
| "column_range_disjoint RUnknown _ = False"
| "column_range_disjoint _ RUnknown = False"
| "column_range_disjoint (REqual x) r = (column_range_contains r x = Some False)"
| "column_range_disjoint r (REqual x) = (column_range_contains r x = Some False)"
| "column_range_disjoint (RInSet s) r =
     list_all (\<lambda>v. column_range_contains r v = Some False) s"
| "column_range_disjoint r (RInSet s) =
     list_all (\<lambda>v. column_range_contains r v = Some False) s"
| "column_range_disjoint RUnconstrained _ = False"
| "column_range_disjoint _ RUnconstrained = False"
| "column_range_disjoint (RRange la ua _) (RRange lb ub _) =
     (bound_below ua lb \<or> bound_below ub la)"

type_synonym range_map = "(string \<times> column_range) list"

definition column_ranges_disjoint :: "range_map \<Rightarrow> range_map \<Rightarrow> bool" where
  "column_ranges_disjoint a b =
     (if list_ex (\<lambda>(_, r). r = REmpty) a \<or> list_ex (\<lambda>(_, r). r = REmpty) b then True
      else list_ex
             (\<lambda>(col, ra). case map_of b col of
                            None \<Rightarrow> False
                          | Some rb \<Rightarrow> column_range_disjoint ra rb) a)"

definition column_ranges_from_comparisons ::
  "(string \<times> binary_op \<times> literal_value) list \<Rightarrow> range_map" where
  "column_ranges_from_comparisons comparisons =
     map (\<lambda>(column, cs). (column, column_range_build cs))
       (fold (\<lambda>(column, op, v) by_column.
                entry_push column (Comparison column op v) by_column) comparisons [])"

definition table_column_ranges :: "query_constraints \<Rightarrow> string \<Rightarrow> range_map" where
  "table_column_ranges constraints table =
     (case map_of (qc_table_constraints constraints) table of
        None \<Rightarrow> []
      | Some tcs \<Rightarrow>
          map (\<lambda>((col, _), cs). (col, column_range_build cs))
            (filter (\<lambda>((_, cast), _). cast = None) (constraints_group_by_column tcs)))"

subsection \<open>The integer/float comparison is exact\<close>

lemma int_float_cmp_correct:
  assumes "i64_range i"
  shows "int_float_cmp i f = cmp (Fin (of_int i)) f"
proof (cases f)
  case (Fin r)
  consider "2 ^ 63 \<le> r" | "r < - (2 ^ 63)" | "- (2 ^ 63) \<le> r" "r < 2 ^ 63" by linarith
  then show ?thesis
  proof cases
    case 1
    have "rat_of_int i < 2 ^ 63"
      using assms by (simp add: i64_range_def i64_max_def)
    with 1 Fin show ?thesis by (simp add: int_float_cmp_def two_pow_63_def cmp_def)
  next
    case 2
    have "- (2 ^ 63) \<le> rat_of_int i"
      using assms by (simp add: i64_range_def i64_min_def)
    with 2 Fin show ?thesis by (simp add: int_float_cmp_def two_pow_63_def cmp_def)
  next
    case 3
    have bounds: "- (2 ^ 63) \<le> \<lfloor>r\<rfloor>" "\<lfloor>r\<rfloor> \<le> 2 ^ 63 - 1"
      using 3 by (simp_all add: le_floor_iff floor_le_iff)
    then have cast: "f64_as_i64 (Fin (of_int \<lfloor>r\<rfloor>)) = \<lfloor>r\<rfloor>"
      by (simp add: i64_min_def i64_max_def Let_def)
    have unfold: "int_float_cmp i (Fin r) = (case cmp i \<lfloor>r\<rfloor> of OrdGreater \<Rightarrow> OrdGreater | OrdLess \<Rightarrow> OrdLess
        | OrdEqual \<Rightarrow> if r = of_int \<lfloor>r\<rfloor> then OrdEqual else OrdLess)"
      using 3 Fin cast
      by (simp add: int_float_cmp_def two_pow_63_def Let_def del: f64_as_i64.simps)
    consider "i < \<lfloor>r\<rfloor>" "of_int i < r" | "i = \<lfloor>r\<rfloor>" "r = of_int \<lfloor>r\<rfloor>"
      | "i = \<lfloor>r\<rfloor>" "of_int i < r" "r \<noteq> of_int \<lfloor>r\<rfloor>" | "\<lfloor>r\<rfloor> < i" "r < of_int i"
      using of_int_floor_le [of r] by (cases i "\<lfloor>r\<rfloor>" rule: linorder_cases) linarith+
    then show ?thesis unfolding Fin unfold by cases (auto simp: cmp_def)
  qed
qed (auto simp: int_float_cmp_def two_pow_63_def cmp_def)

subsection \<open>Soundness over a column type\<close>

locale overlap_domain =
  fixes dl :: "literal_value \<Rightarrow> 'v option"
    and lt :: "'v \<Rightarrow> 'v \<Rightarrow> bool"
    and typed :: "literal_value \<Rightarrow> bool"
  assumes lt_irrefl: "\<not> lt x x"
    and lt_trans: "lt x y \<Longrightarrow> lt y z \<Longrightarrow> lt x z"
    and typed_denotes: "typed l \<Longrightarrow> dl l \<noteq> None"
    and eq_sound: "typed a \<Longrightarrow> typed b \<Longrightarrow> literal_value_eq a b = Some t \<Longrightarrow> t \<longleftrightarrow> dl a = dl b"
    and order_sound:
      "typed a \<Longrightarrow> typed b \<Longrightarrow> literal_value_order_numeric a b = Some r \<Longrightarrow> dl a = Some x
       \<Longrightarrow> dl b = Some y \<Longrightarrow> r = (if lt x y then OrdLess else if x = y then OrdEqual else OrdGreater)"
    and order_total: "typed a \<Longrightarrow> typed b \<Longrightarrow> literal_value_order_numeric a b \<noteq> None
       \<Longrightarrow> dl a = Some x \<Longrightarrow> dl b = Some y \<Longrightarrow> lt x y \<or> x = y \<or> lt y x"
begin

lemma typed_val:
  assumes "typed l" obtains x where "dl l = Some x"
  using typed_denotes [OF assms] by auto

lemma lt_asym: "lt x y \<Longrightarrow> \<not> lt y x"
  using lt_irrefl lt_trans by blast

lemma admits_sound:
  assumes "typed v" "typed (rb_value b)" "dl v = Some x"
    and r: "literal_value_order_numeric v (rb_value b) = Some r"
  shows "admits side r (rb_inclusive b) \<longleftrightarrow> bound_sem dl lt side b x"
proof -
  from assms(2) obtain y where y: "dl (rb_value b) = Some y" by (rule typed_val)
  note ord = order_sound [OF assms(1,2) r assms(3) y]
  have "lt x y \<or> x = y \<or> lt y x" using order_total [OF assms(1,2) _ assms(3) y] r by simp
  then consider "lt x y" "\<not> lt y x" "x \<noteq> y" | "x = y" "\<not> lt y x" "\<not> lt x y"
    | "lt y x" "\<not> lt x y" "x \<noteq> y"
    using lt_asym lt_irrefl by blast
  then show ?thesis
    using ord y by cases (cases side; simp add: admits_def bound_sem_def)+
qed

lemma in_set_loop_sound:
  assumes "\<forall>l\<in>set s. typed l" "typed v" "in_set_loop s v au = Some t"
  shows "t \<longleftrightarrow> dl v \<in> dl ` set s" and "\<not> t \<Longrightarrow> au"
proof -
  have "(t \<longleftrightarrow> dl v \<in> dl ` set s) \<and> (\<not> t \<longrightarrow> au)"
    using assms
  proof (induction s v au rule: in_set_loop.induct)
    case (2 e es v au)
    show ?case
    proof (cases "literal_value_eq e v")
      case None
      with 2 show ?thesis by auto
    next
      case (Some b)
      with 2 eq_sound [of e v b] show ?thesis by (cases b) auto
    qed
  qed (auto split: if_splits)
  then show "t \<longleftrightarrow> dl v \<in> dl ` set s" "\<not> t \<Longrightarrow> au" by blast+
qed

lemma bounds_admit_sound:
  assumes "typed v" "dl v = Some x" "\<forall>side. \<forall>l\<in>slot_lits (rv_bound rv side). typed l"
    and "bounds_admit rv v sides adm = Some t"
  shows "t \<longleftrightarrow> adm \<and> (\<forall>side\<in>set sides. slot_sem dl lt side (rv_bound rv side) x)"
  using assms(4)
proof (induction sides arbitrary: adm)
  case (Cons side sides)
  show ?case
  proof (cases "rv_bound rv side")
    case None
    with Cons show ?thesis by simp
  next
    case (Some b)
    with Cons.prems obtain r where r: "literal_value_order_numeric v (rb_value b) = Some r"
      by (auto split: option.splits)
    have "typed (rb_value b)" using assms(3) Some by (metis singletonI slot_lits_simps(2))
    from Cons.IH [of "adm \<and> admits side r (rb_inclusive b)"] Cons.prems Some r
      admits_sound [OF assms(1) this assms(2) r, of side]
    show ?thesis by auto
  qed
qed simp

lemma column_range_contains_sound:
  assumes "\<forall>l\<in>range_lits r. typed l" "typed v" "dl v = Some x"
    and "column_range_contains r v = Some False"
  shows "\<not> range_sem dl lt r (Some x)"
proof (cases r)
  case (REqual e)
  with assms show ?thesis
    using eq_sound [of e v False] by (auto simp: column_range_contains_def split: if_splits)
next
  case (RInSet s)
  with assms show ?thesis
    using in_set_loop_sound(1) [of s v True False]
    by (auto simp: column_range_contains_def in_set_contains_def split: if_splits)
next
  case (RRange lo up ne)
  let ?rv = "range_view_new lo up ne"
  have lits: "\<forall>side. \<forall>l\<in>slot_lits (rv_bound ?rv side). typed l"
  proof
    fix side show "\<forall>l\<in>slot_lits (rv_bound ?rv side). typed l"
      using assms(1) RRange by (cases side) auto
  qed
  consider nv where "nv \<in> set ne" "literal_value_eq nv v = Some True"
    | "bounds_admit ?rv v [Lower, Upper] True = Some False"
    using assms(4) RRange
    by (auto simp: column_range_contains_def range_contains_def list_ex_iff split: if_splits)
  then show ?thesis
  proof cases
    case 1
    with assms RRange have "dl nv = dl v" using eq_sound [of nv v True] by simp
    with 1 assms(3) RRange show ?thesis by (auto intro: rev_image_eqI)
  next
    case 2
    from bounds_admit_sound [OF assms(2,3) lits 2] RRange show ?thesis by auto
  qed
qed (use assms in \<open>auto simp: column_range_contains_def split: if_splits\<close>)

lemma bound_below_sound:
  assumes "\<forall>l\<in>slot_lits up \<union> slot_lits lo. typed l" "bound_below up lo"
  shows "\<not> (slot_sem dl lt Upper up x \<and> slot_sem dl lt Lower lo x)"
proof -
  from assms(2) obtain u l where ul: "up = Some u" "lo = Some l"
    by (cases "(up, lo)" rule: bound_below.cases) auto
  with assms(1) have t: "typed (rb_value u)" "typed (rb_value l)" by auto
  from t(1) obtain y where y: "dl (rb_value u) = Some y" by (rule typed_val)
  from t(2) obtain z where z: "dl (rb_value l) = Some z" by (rule typed_val)
  from assms(2) ul obtain r where r: "literal_value_order_numeric (rb_value u) (rb_value l) = Some r"
      "r = OrdLess \<or> r = OrdEqual \<and> \<not> (rb_inclusive u \<and> rb_inclusive l)"
    by (auto split: option.splits ordering.splits)
  from order_sound [OF t r(1) y z] r(2)
  have "lt y z \<or> y = z \<and> \<not> (rb_inclusive u \<and> rb_inclusive l)" by (auto split: if_splits)
  moreover have "\<not> (lt z x \<and> lt x z)" "lt y z \<Longrightarrow> \<not> (lt z x \<and> lt x y)"
    "lt y z \<Longrightarrow> \<not> lt z y" using lt_asym lt_trans by blast+
  ultimately show ?thesis using ul y z lt_irrefl by (auto simp: bound_sem_def)
qed

lemma equal_disjoint:
  assumes "column_range_contains r e = Some False" "\<forall>l\<in>range_lits r. typed l" "typed e"
    and "range_sem dl lt (REqual e) v"
  shows "\<not> range_sem dl lt r v"
  using column_range_contains_sound [OF assms(2,3) _ assms(1)] assms(4) by auto

lemma in_set_disjoint:
  assumes "\<forall>e\<in>set s. column_range_contains r e = Some False" "\<forall>l\<in>range_lits r. typed l"
    and "\<forall>e\<in>set s. typed e" "range_sem dl lt (RInSet s) v"
  shows "\<not> range_sem dl lt r v"
proof -
  from assms(4) obtain e where "e \<in> set s" "range_sem dl lt (REqual e) v" by auto
  with assms(1-3) show ?thesis by (intro equal_disjoint) auto
qed

lemma column_range_disjoint_sound:
  assumes "\<forall>l\<in>range_lits a. typed l" "\<forall>l\<in>range_lits b. typed l" "column_range_disjoint a b"
  shows "\<not> (range_sem dl lt a v \<and> range_sem dl lt b v)"
proof (cases "\<exists>la ua na lb ub nb. a = RRange la ua na \<and> b = RRange lb ub nb")
  case True
  then obtain la ua na lb ub nb where ab: "a = RRange la ua na" "b = RRange lb ub nb" by blast
  show ?thesis
  proof (cases v)
    case (Some x)
    have "bound_below ua lb \<or> bound_below ub la" using assms(3) ab by simp
    moreover have "\<forall>l\<in>slot_lits ua \<union> slot_lits lb. typed l" "\<forall>l\<in>slot_lits ub \<union> slot_lits la. typed l"
      using assms(1,2) ab by auto
    ultimately show ?thesis using bound_below_sound [of _ _ x] ab Some by auto
  qed (simp add: ab)
next
  case False
  note [simp del] = range_sem.simps(4-6)
  from False assms show ?thesis
    by (cases a; cases b)
      (auto simp: list_all_iff dest: equal_disjoint in_set_disjoint)
qed

end

subsection \<open>Column types\<close>

text \<open>
  Literals whose value does not depend on the column they are compared with. A string literal
  with an explicit cast is left out: two spellings of one value of the cast type
  (\<open>'1'::numeric\<close>, \<open>'1.0'::numeric\<close>) are different strings.
\<close>

fun plain_lit :: "literal_value \<Rightarrow> bool" where
  "plain_lit (LInteger n) = i64_range n"
| "plain_lit (LFloat _) = True"
| "plain_lit (LString _) = True"
| "plain_lit (LBoolean _) = True"
| "plain_lit _ = False"

lemma value_order_numeric:
  assumes "plain_lit a" "plain_lit b" "literal_value_order_numeric a b = Some r"
    and "val_dl a = Some x" "val_dl b = Some y" "collation coll"
  shows "r = (if val_lt coll x y then OrdLess else if x = y then OrdEqual else OrdGreater)"
    and "val_lt coll x y \<or> x = y \<or> val_lt coll y x"
  using assms val_lt_total [of coll x y]
  by (cases a; cases b; auto simp: int_float_cmp_correct cmp_def split: if_splits)+

lemma value_eq:
  assumes "plain_lit a" "plain_lit b" "literal_value_eq a b = Some t"
  shows "t \<longleftrightarrow> val_dl a = val_dl b"
  using assms by (cases a; cases b) (auto simp: int_float_cmp_correct)

lemma value_overlap:
  assumes "collation coll"
  shows "overlap_domain val_dl (val_lt coll) plain_lit"
proof (unfold_locales, goal_cases)
  case 1 show ?case by (rule val_lt_irrefl [OF assms])
next
  case 2 then show ?case by (rule val_lt_trans [OF assms])
next
  case (3 l) then show ?case by (cases l) auto
next
  case 4 then show ?case by (rule value_eq)
next
  case 5 then show ?case by (intro value_order_numeric(1) [OF _ _ _ _ _ assms])
next
  case (6 a b x y)
  then obtain r where "literal_value_order_numeric a b = Some r" by blast
  with 6 show ?case by (intro value_order_numeric(2) [OF _ _ _ _ _ assms])
qed

text \<open>Byte order of strings is one collation, and the overlap algebra is sound for it.\<close>

interpretation c_overlap: overlap_domain val_dl "val_lt (<)" plain_lit
  by (rule value_overlap [OF c_collation.collation_axioms])

subsection \<open>Rows and range maps\<close>

definition ranges_sem ::
  "(string \<Rightarrow> string \<Rightarrow> bool) \<Rightarrow> range_map \<Rightarrow> (string \<Rightarrow> sql_value option) \<Rightarrow> bool" where
  "ranges_sem coll m row \<longleftrightarrow> (\<forall>(col, r)\<in>set m. range_sem val_dl (val_lt coll) r (row col))"

definition ranges_plain :: "range_map \<Rightarrow> bool" where
  "ranges_plain m \<longleftrightarrow> (\<forall>(col, r)\<in>set m. \<forall>l\<in>range_lits r. plain_lit l)"

lemma column_ranges_disjoint_correct:
  assumes "collation coll" "ranges_plain a" "ranges_plain b" "column_ranges_disjoint a b"
  shows "\<not> (ranges_sem coll a row \<and> ranges_sem coll b row)"
proof
  assume both: "ranges_sem coll a row \<and> ranges_sem coll b row"
  have no_empty: "(col, REmpty) \<notin> set a" "(col, REmpty) \<notin> set b" for col
    using both by (fastforce simp: ranges_sem_def)+
  with assms(4) obtain col ra rb where ab: "(col, ra) \<in> set a" "map_of b col = Some rb"
      "column_range_disjoint ra rb"
    by (fastforce simp: column_ranges_disjoint_def list_ex_iff split: if_splits option.splits)
  then have b: "(col, rb) \<in> set b" by (auto dest: map_of_SomeD)
  from assms(2,3) ab(1) b have "\<forall>l\<in>range_lits ra. plain_lit l" "\<forall>l\<in>range_lits rb. plain_lit l"
    by (auto simp: ranges_plain_def)
  from overlap_domain.column_range_disjoint_sound
      [OF value_overlap [OF assms(1)] this ab(3), of "row col"] both ab(1) b
  show False by (auto simp: ranges_sem_def)
qed

subsection \<open>Properties\<close>

text \<open>
  C11. Integer and float literals are compared by exact value: the numeric order of two such
  literals is always defined and is the order of the numbers they denote, and the equality test
  says whether the two numbers are equal. No \<open>i64\<close> is rounded to a float on the way.
\<close>

theorem literal_numeric_exact:
  assumes "plain_lit a" "plain_lit b" "num_dl a = Some (Num x)" "num_dl b = Some (Num y)"
  shows "literal_value_order_numeric a b = Some (cmp x y) \<and> literal_value_eq a b = Some (x = y)"
  using assms by (cases a; cases b) (auto simp: int_float_cmp_correct cmp_reverse cmp_def)

theorem literal_numeric_exact_witness:
  "literal_value_order_numeric (LInteger 9007199254740993) (LFloat (Fin 9007199254740992))
     = Some OrdGreater"
  using literal_numeric_exact
    [of "LInteger 9007199254740993" "LFloat (Fin 9007199254740992)"
        "Fin 9007199254740993" "Fin 9007199254740992"]
  by (simp add: i64_range_def i64_min_def i64_max_def cmp_def)

text \<open>
  C12. Containment is sound: when a written value is reported as provably excluded by a range,
  the range does not accept that value. The value and the literals of the range are plain integer
  (64-bit), float, string or boolean literals, in any mixture, none of them with a cast; the
  collation is arbitrary.
\<close>

theorem column_range_contains_excludes:
  assumes "collation coll" "\<forall>l\<in>range_lits r. plain_lit l" "plain_lit v" "val_dl v = Some x"
    and "column_range_contains r v = Some False"
  shows "\<not> range_sem val_dl (val_lt coll) r (Some x)"
  by (rule overlap_domain.column_range_contains_sound [OF value_overlap [OF assms(1)] assms(2-5)])

theorem column_range_contains_excludes_witness:
  "\<not> range_sem val_dl (val_lt (<))
       (RRange (Some \<lparr>rb_value = LInteger 10, rb_inclusive = True\<rparr>) None [])
       (Some (VNum (Num (Fin 9))))"
  using column_range_contains_excludes
    [OF c_collation.collation_axioms,
     of "RRange (Some \<lparr>rb_value = LInteger 10, rb_inclusive = True\<rparr>) None []"
        "LFloat (Fin 9)" "VNum (Num (Fin 9))"]
  by (simp add: i64_range_def i64_min_def i64_max_def column_range_contains_def range_contains_def
      int_float_cmp_def two_pow_63_def Let_def range_simps)

text \<open>
  C9. Disjointness of two per-column range maps is sound: if the maps of a read predicate and
  of a write predicate are reported disjoint, no row satisfies both predicates. The literals of both
  maps are plain integer (64-bit), float, string or boolean literals, in any mixture: literals with
  a cast are compared by their spelling, and for them the claim fails.
\<close>

theorem column_ranges_disjoint_sound:
  assumes "collation coll" "ranges_plain a" "ranges_plain b" "column_ranges_disjoint a b"
  shows "\<not> (\<exists>row. ranges_sem coll a row \<and> ranges_sem coll b row)"
  using column_ranges_disjoint_correct [OF assms] by blast

theorem column_ranges_disjoint_sound_witness:
  "\<not> (\<exists>row. ranges_sem (<) [(''x'', REqual (LInteger 1)), (''y'', RUnconstrained)] row \<and>
             ranges_sem (<) [(''x'', RInSet [LInteger 2, LFloat (Fin 3)])] row)"
  using column_ranges_disjoint_sound
    [OF c_collation.collation_axioms,
     of "[(''x'', REqual (LInteger 1)), (''y'', RUnconstrained)]"
        "[(''x'', RInSet [LInteger 2, LFloat (Fin 3)])]"]
  by (simp add: ranges_plain_def column_ranges_disjoint_def column_range_contains_def
      in_set_contains_def int_float_cmp_def two_pow_63_def cmp_def i64_range_def i64_min_def
      i64_max_def Let_def)

text \<open>
  The equality test compares quoted literals by their bytes, also when both carry a cast to a
  type in which different spellings denote one value.
\<close>

lemma cast_literals_provably_unequal:
  "literal_value_eq (LStringWithCast ''1'' ''numeric'') (LStringWithCast ''1.0'' ''numeric'')
     = Some False"
  by simp

end
