(* ===== verification/Write_Aggregate.thy ===== *)
theory Write_Aggregate
  imports Range_Overlap Row_Values
begin

text \<open>
  Pending writes of one connection, aggregated per table
  (\<^verbatim>\<open>src/proxy/connection/write_log/aggregate.rs\<close>), over the write classes of
  \<^verbatim>\<open>src/query/write.rs\<close>.

  An aggregate stores the rows of inserts, the predicates of deletes, and predicate and image of
  updates; it degrades to \<open>opaque\<close> when one of its caps is exceeded. \<open>agg_covers\<close> says that an
  aggregate still accounts for a given write; folding and merging keep it. A read that the
  disjointness checks let through shares no row with any write the aggregate covers.
\<close>

subsection \<open>Write classes\<close>

record relation_ref =
  rr_schema :: "string option"
  rr_name :: string

type_synonym insert_row = "literal_value option list"

record insert_statement =
  ins_relation :: relation_ref
  ins_columns :: "string list"
  ins_rows :: "insert_row list"

type_synonym write_comparison = "string \<times> binary_op \<times> literal_value"

record delete_statement =
  del_relation :: relation_ref
  del_comparisons :: "write_comparison list"

record update_statement =
  upd_relation :: relation_ref
  upd_where_comparisons :: "write_comparison list"
  upd_set :: "(string \<times> literal_value option) list"

datatype write_class =
    WcInsertRows insert_statement
  | WcDeleteRows delete_statement
  | WcUpdateRows update_statement
  | WcTable relation_ref
  | WcConnection
  | WcConnectionUnstampable

subsection \<open>Caps\<close>

definition update_delete_predicate_cap :: nat where "update_delete_predicate_cap = 64"
definition merged_predicate_cap :: nat where "merged_predicate_cap = 1024"
definition insert_merged_rows_cap :: nat where "insert_merged_rows_cap = 1024"
definition insert_merged_cells_cap :: nat where "insert_merged_cells_cap = 8192"

subsection \<open>Inserted rows\<close>

record insert_aggregate =
  ia_columns :: "string list"
  ia_rows :: "insert_row list"

definition ia_default :: insert_aggregate where
  "ia_default = \<lparr>ia_columns = [], ia_rows = []\<rparr>"

definition caps_exceeded :: "insert_aggregate \<Rightarrow> string list \<Rightarrow> nat \<Rightarrow> bool" where
  "caps_exceeded ia incoming_columns incoming_rows =
     (let new_columns = length (filter (\<lambda>column. column \<notin> set (ia_columns ia)) incoming_columns);
          rows_total = length (ia_rows ia) + incoming_rows
      in rows_total > insert_merged_rows_cap \<or>
         rows_total * (length (ia_columns ia) + new_columns) > insert_merged_cells_cap)"

fun list_position :: "'a \<Rightarrow> 'a list \<Rightarrow> nat option" where
  "list_position x [] = None"
| "list_position x (y # ys) = (if x = y then Some 0 else map_option Suc (list_position x ys))"

fun column_positions_resolve :: "string list \<Rightarrow> string list \<Rightarrow> nat list \<times> string list" where
  "column_positions_resolve [] columns = ([], columns)"
| "column_positions_resolve (c # cs) columns =
     (let (p, columns') =
            (case list_position c columns of
               Some p \<Rightarrow> (p, columns)
             | None \<Rightarrow> (length columns, columns @ [c]));
          (ps, columns'') = column_positions_resolve cs columns'
      in (p # ps, columns''))"

definition row_scatter :: "nat \<Rightarrow> nat list \<Rightarrow> insert_row \<Rightarrow> insert_row" where
  "row_scatter width positions vals =
     fold (\<lambda>(v, position) cells. cells[position := v]) (zip vals positions) (replicate width None)"

definition row_push :: "nat list \<Rightarrow> insert_row \<Rightarrow> insert_aggregate \<Rightarrow> insert_aggregate" where
  "row_push positions vals ia =
     ia\<lparr>ia_rows := ia_rows ia @ [row_scatter (length (ia_columns ia)) positions vals]\<rparr>"

definition rows_fold :: "string list \<Rightarrow> insert_row list \<Rightarrow> insert_aggregate \<Rightarrow> insert_aggregate" where
  "rows_fold columns rows ia =
     (let (positions, columns') = column_positions_resolve columns (ia_columns ia)
      in fold (row_push positions) rows (ia\<lparr>ia_columns := columns'\<rparr>))"

text \<open>\<open>None\<close> is the result \<open>false\<close>: a cap would be exceeded, and nothing has changed.\<close>

definition ia_fold :: "insert_statement \<Rightarrow> insert_aggregate \<Rightarrow> insert_aggregate option" where
  "ia_fold stmt ia =
     (if caps_exceeded ia (ins_columns stmt) (length (ins_rows stmt)) then None
      else Some (rows_fold (ins_columns stmt) (ins_rows stmt) ia))"

definition ia_merge :: "insert_aggregate \<Rightarrow> insert_aggregate \<Rightarrow> insert_aggregate option" where
  "ia_merge other ia =
     (if caps_exceeded ia (ia_columns other) (length (ia_rows other)) then None
      else if ia_rows ia = [] then Some other
      else Some (rows_fold (ia_columns other) (ia_rows other) ia))"

definition constrained_positions :: "string list \<Rightarrow> range_map \<Rightarrow> (nat \<times> column_range) list" where
  "constrained_positions columns read_ranges =
     List.map_filter (\<lambda>(position, column). map_option (\<lambda>r. (position, r)) (map_of read_ranges column))
       (List.enumerate 0 columns)"

definition has_empty :: "range_map \<Rightarrow> bool" where
  "has_empty read_ranges = list_ex (\<lambda>(_, r). r = REmpty) read_ranges"

definition cell_excluded :: "insert_row \<Rightarrow> nat \<times> column_range \<Rightarrow> bool" where
  "cell_excluded row pr =
     (case list_get row (fst pr) of
        Some (Some v) \<Rightarrow> column_range_contains (snd pr) v = Some False
      | _ \<Rightarrow> False)"

definition ia_disjoint :: "insert_aggregate \<Rightarrow> range_map \<Rightarrow> bool" where
  "ia_disjoint ia read_ranges =
     (if has_empty read_ranges then True
      else (let constrained = constrained_positions (ia_columns ia) read_ranges
            in if constrained = [] then ia_rows ia = []
               else list_all (\<lambda>row. list_ex (cell_excluded row) constrained) (ia_rows ia)))"

subsection \<open>Merged equality predicates\<close>

type_synonym equality_tuple = "literal_value list"
type_synonym merged_tuples = "(string list \<times> equality_tuple list) list"

fun adjacent_equal :: "string list \<Rightarrow> bool" where
  "adjacent_equal (a # b # cs) = (a = b \<or> adjacent_equal (b # cs))"
| "adjacent_equal _ = False"

definition equality_tuple_build :: "write_comparison list \<Rightarrow> (string list \<times> equality_tuple) option" where
  "equality_tuple_build comparisons =
     (if list_ex (\<lambda>(_, op, _). op \<noteq> Equal) comparisons then None
      else (let pairs = sort_key fst (map (\<lambda>(column, _, v). (column, v)) comparisons)
            in if adjacent_equal (map fst pairs) then None
               else Some (map fst pairs, map snd pairs)))"

definition value_excluded :: "equality_tuple \<Rightarrow> nat \<times> column_range \<Rightarrow> bool" where
  "value_excluded tuple pr =
     (case list_get tuple (fst pr) of
        Some v \<Rightarrow> column_range_contains (snd pr) v = Some False
      | None \<Rightarrow> False)"

definition merged_tuples_disjoint :: "merged_tuples \<Rightarrow> range_map \<Rightarrow> bool" where
  "merged_tuples_disjoint merged read_ranges =
     (if has_empty read_ranges then True
      else list_all
             (\<lambda>(columns, tuples).
                let constrained = constrained_positions columns read_ranges
                in if constrained = [] then tuples = []
                   else list_all (\<lambda>tuple. list_ex (value_excluded tuple) constrained) tuples)
             merged)"

type_synonym set_tuple = "literal_value option list"
type_synonym update_shape = "string list \<times> string list"
type_synonym merged_updates = "(update_shape \<times> (equality_tuple \<times> set_tuple) list) list"

definition update_tuple_build ::
  "update_statement \<Rightarrow> (update_shape \<times> (equality_tuple \<times> set_tuple)) option" where
  "update_tuple_build update =
     (case equality_tuple_build (upd_where_comparisons update) of
        None \<Rightarrow> None
      | Some (where_columns, where_values) \<Rightarrow>
          if \<not> distinct (map fst (upd_set update)) then None
          else (let set_pairs = sort_key fst (upd_set update)
                in Some ((where_columns, map fst set_pairs), (where_values, map snd set_pairs))))"

definition merged_updates_disjoint :: "merged_updates \<Rightarrow> range_map \<Rightarrow> bool" where
  "merged_updates_disjoint merged read_ranges =
     (if has_empty read_ranges then True
      else list_all
             (\<lambda>((where_columns, set_columns), tuples).
                let where_constrained = constrained_positions where_columns read_ranges;
                    where_in_image =
                      filter (\<lambda>(position, _).
                                case list_get where_columns position of
                                  Some column \<Rightarrow> column \<notin> set set_columns
                                | None \<Rightarrow> False) where_constrained;
                    set_constrained = constrained_positions set_columns read_ranges
                in list_all
                     (\<lambda>(where_values, set_values).
                        if \<not> list_ex (value_excluded where_values) where_constrained then False
                        else list_ex (value_excluded where_values) where_in_image \<or>
                             list_ex (cell_excluded set_values) set_constrained)
                     tuples)
             merged)"

subsection \<open>Aggregates\<close>

record update_predicate =
  up_where_ranges :: range_map
  up_image_ranges :: range_map

definition update_predicate_build :: "update_statement \<Rightarrow> update_predicate" where
  "update_predicate_build update =
     (let where_ranges = column_ranges_from_comparisons (upd_where_comparisons update)
      in \<lparr>up_where_ranges = where_ranges,
          up_image_ranges =
            fold (\<lambda>(column, v) image_ranges.
                    case v of
                      Some literal \<Rightarrow> AList.update column (REqual literal) image_ranges
                    | None \<Rightarrow> AList.delete column image_ranges)
              (upd_set update) where_ranges\<rparr>)"

record table_aggregate =
  tg_opaque :: bool
  tg_inserts :: "insert_aggregate option"
  tg_merged_deletes :: merged_tuples
  tg_deletes :: "range_map list"
  tg_merged_updates :: merged_updates
  tg_merged_predicates :: nat
  tg_updates :: "update_predicate list"

definition tg_default :: table_aggregate where
  "tg_default =
     \<lparr>tg_opaque = False, tg_inserts = None, tg_merged_deletes = [], tg_deletes = [],
      tg_merged_updates = [], tg_merged_predicates = 0, tg_updates = []\<rparr>"

definition degrade_opaque :: "table_aggregate \<Rightarrow> table_aggregate" where
  "degrade_opaque agg =
     agg\<lparr>tg_opaque := True, tg_inserts := None, tg_merged_deletes := [], tg_deletes := [],
         tg_merged_updates := [], tg_updates := [], tg_merged_predicates := 0\<rparr>"

definition extend_all_entries :: "('k \<times> 'v list) list \<Rightarrow> ('k \<times> 'v list) list \<Rightarrow> ('k \<times> 'v list) list" where
  "extend_all_entries other m = fold (\<lambda>(k, vs). entry_update [] (\<lambda>ws. ws @ vs) k) other m"

definition tg_merge :: "table_aggregate \<Rightarrow> table_aggregate \<Rightarrow> table_aggregate" where
  "tg_merge other agg =
     (if tg_opaque agg \<or> tg_opaque other then degrade_opaque agg
      else (case (case tg_inserts other of
                    None \<Rightarrow> Some (tg_inserts agg)
                  | Some other_inserts \<Rightarrow>
                      map_option Some
                        (ia_merge other_inserts
                          (case tg_inserts agg of None \<Rightarrow> ia_default | Some ia \<Rightarrow> ia))) of
              None \<Rightarrow> degrade_opaque agg
            | Some inserts \<Rightarrow>
                (let agg' =
                       agg\<lparr>tg_inserts := inserts,
                           tg_merged_deletes := extend_all_entries (tg_merged_deletes other) (tg_merged_deletes agg),
                           tg_merged_updates := extend_all_entries (tg_merged_updates other) (tg_merged_updates agg),
                           tg_merged_predicates := tg_merged_predicates agg + tg_merged_predicates other,
                           tg_deletes := tg_deletes agg @ tg_deletes other,
                           tg_updates := tg_updates agg @ tg_updates other\<rparr>
                 in if length (tg_deletes agg') + length (tg_updates agg') > update_delete_predicate_cap \<or>
                       tg_merged_predicates agg' > merged_predicate_cap
                    then degrade_opaque agg' else agg')))"

definition tg_has_row_predicates :: "table_aggregate \<Rightarrow> bool" where
  "tg_has_row_predicates agg \<longleftrightarrow>
     tg_inserts agg \<noteq> None \<or> tg_merged_deletes agg \<noteq> [] \<or> tg_deletes agg \<noteq> [] \<or>
     tg_merged_updates agg \<noteq> [] \<or> tg_updates agg \<noteq> []"

subsection \<open>Recording into an aggregate\<close>

text \<open>The three row-enumerable branches of \<^verbatim>\<open>WriteLog::record\<close> (\<^verbatim>\<open>write_log/log.rs\<close>).\<close>

definition record_insert :: "insert_statement \<Rightarrow> table_aggregate \<Rightarrow> table_aggregate" where
  "record_insert stmt agg =
     (if tg_opaque agg then agg
      else (case ia_fold stmt (case tg_inserts agg of None \<Rightarrow> ia_default | Some ia \<Rightarrow> ia) of
              Some inserts \<Rightarrow> agg\<lparr>tg_inserts := Some inserts\<rparr>
            | None \<Rightarrow> degrade_opaque agg))"

definition record_delete :: "delete_statement \<Rightarrow> table_aggregate \<Rightarrow> table_aggregate" where
  "record_delete delete agg =
     (if tg_opaque agg then agg
      else (let (agg', overflow) =
                  (case equality_tuple_build (del_comparisons delete) of
                     Some (columns, tuple) \<Rightarrow>
                       (let a = agg\<lparr>tg_merged_deletes := entry_push columns tuple (tg_merged_deletes agg),
                                    tg_merged_predicates := tg_merged_predicates agg + 1\<rparr>
                        in (a, tg_merged_predicates a > merged_predicate_cap))
                   | None \<Rightarrow>
                       (let a = agg\<lparr>tg_deletes :=
                              tg_deletes agg @ [column_ranges_from_comparisons (del_comparisons delete)]\<rparr>
                        in (a, length (tg_deletes a) + length (tg_updates a) > update_delete_predicate_cap)))
            in if overflow then degrade_opaque agg' else agg'))"

definition record_update :: "update_statement \<Rightarrow> table_aggregate \<Rightarrow> table_aggregate" where
  "record_update update agg =
     (if tg_opaque agg then agg
      else (let (agg', overflow) =
                  (case update_tuple_build update of
                     Some (shape, tuple) \<Rightarrow>
                       (let a = agg\<lparr>tg_merged_updates := entry_push shape tuple (tg_merged_updates agg),
                                    tg_merged_predicates := tg_merged_predicates agg + 1\<rparr>
                        in (a, tg_merged_predicates a > merged_predicate_cap))
                   | None \<Rightarrow>
                       (let a = agg\<lparr>tg_updates := tg_updates agg @ [update_predicate_build update]\<rparr>
                        in (a, length (tg_deletes a) + length (tg_updates a) > update_delete_predicate_cap)))
            in if overflow then degrade_opaque agg' else agg'))"

subsection \<open>The check of a read\<close>

record disjoint_kinds =
  dk_insert :: bool
  dk_delete :: bool
  dk_update :: bool

definition dk_any :: "disjoint_kinds \<Rightarrow> bool" where
  "dk_any k \<longleftrightarrow> dk_insert k \<or> dk_delete k \<or> dk_update k"

definition ranges_test :: "range_map option \<Rightarrow> (range_map \<Rightarrow> bool) \<Rightarrow> bool" where
  "ranges_test read_ranges P = (case read_ranges of None \<Rightarrow> False | Some rs \<Rightarrow> P rs)"

text \<open>
  The early returns of \<^verbatim>\<open>aggregate_intersects\<close> are \<open>Inl\<close>, carrying the kinds folded so far; a
  check that does not apply leaves the kinds unchanged.
\<close>

definition intersect_check ::
  "bool \<Rightarrow> bool \<Rightarrow> (disjoint_kinds \<Rightarrow> disjoint_kinds) \<Rightarrow> disjoint_kinds + disjoint_kinds
   \<Rightarrow> disjoint_kinds + disjoint_kinds" where
  "intersect_check applies disjoint mark st =
     (case st of
        Inl k \<Rightarrow> Inl k
      | Inr k \<Rightarrow> if \<not> applies then Inr k else if disjoint then Inr (mark k) else Inl k)"

definition aggregate_intersects ::
  "table_aggregate \<Rightarrow> range_map option \<Rightarrow> disjoint_kinds \<Rightarrow> bool \<times> disjoint_kinds" where
  "aggregate_intersects agg read_ranges kinds =
     (if tg_opaque agg then (True, kinds)
      else
        (let mark_i = (\<lambda>k. k\<lparr>dk_insert := True\<rparr>);
             mark_d = (\<lambda>k. k\<lparr>dk_delete := True\<rparr>);
             mark_u = (\<lambda>k. k\<lparr>dk_update := True\<rparr>);
             s1 = (case tg_inserts agg of
                     None \<Rightarrow> Inr kinds
                   | Some inserts \<Rightarrow>
                       intersect_check True (ranges_test read_ranges (ia_disjoint inserts)) mark_i (Inr kinds));
             s2 = intersect_check (tg_merged_deletes agg \<noteq> [])
                    (ranges_test read_ranges (merged_tuples_disjoint (tg_merged_deletes agg))) mark_d s1;
             s3 = fold (\<lambda>delete. intersect_check True
                    (ranges_test read_ranges (\<lambda>rs. column_ranges_disjoint rs delete)) mark_d)
                    (tg_deletes agg) s2;
             s4 = intersect_check (tg_merged_updates agg \<noteq> [])
                    (ranges_test read_ranges (merged_updates_disjoint (tg_merged_updates agg))) mark_u s3;
             s5 = fold (\<lambda>update. intersect_check True
                    (ranges_test read_ranges
                       (\<lambda>rs. column_ranges_disjoint rs (up_where_ranges update) \<and>
                             column_ranges_disjoint rs (up_image_ranges update))) mark_u)
                    (tg_updates agg) s4
         in case s5 of Inl k \<Rightarrow> (True, k) | Inr k \<Rightarrow> (False, k)))"


subsection \<open>Rows a write affects\<close>

text \<open>
  A known cell fixes the value of its column when its literal denotes one value whatever the
  column's type. Literals the overlap algebra calls incomparable say nothing.
\<close>

type_synonym db_row = "string \<Rightarrow> sql_value option"

definition written_lit :: "literal_value \<Rightarrow> bool" where
  "written_lit v \<longleftrightarrow> plain_lit v \<or> literal_value_is_incomparable v"

definition cell_holds :: "literal_value \<Rightarrow> sql_value option \<Rightarrow> bool" where
  "cell_holds v x \<longleftrightarrow> (plain_lit v \<longrightarrow> x = val_dl v)"

definition where_holds ::
  "(string \<Rightarrow> string \<Rightarrow> bool) \<Rightarrow> write_comparison list \<Rightarrow> db_row \<Rightarrow> bool" where
  "where_holds coll comparisons row \<longleftrightarrow>
     (\<forall>(c, op, l)\<in>set comparisons. cmp_sem val_dl (val_lt coll) op l (row c))"

definition insert_holds :: "string list \<Rightarrow> insert_row \<Rightarrow> db_row \<Rightarrow> bool" where
  "insert_holds columns cells row \<longleftrightarrow>
     (\<forall>i c v. list_get columns i = Some c \<longrightarrow> list_get cells i = Some (Some v) \<longrightarrow> cell_holds v (row c))"

definition image_holds ::
  "(string \<Rightarrow> string \<Rightarrow> bool) \<Rightarrow> update_statement \<Rightarrow> db_row \<Rightarrow> bool" where
  "image_holds coll update row \<longleftrightarrow>
     (\<exists>old. where_holds coll (upd_where_comparisons update) old \<and>
        (\<forall>c. case map_of (rev (upd_set update)) c of
               None \<Rightarrow> row c = old c
             | Some None \<Rightarrow> True
             | Some (Some v) \<Rightarrow> cell_holds v (row c)))"

fun write_affects :: "(string \<Rightarrow> string \<Rightarrow> bool) \<Rightarrow> write_class \<Rightarrow> db_row \<Rightarrow> bool" where
  "write_affects coll (WcInsertRows s) row \<longleftrightarrow>
     (\<exists>cells\<in>set (ins_rows s). insert_holds (ins_columns s) cells row)"
| "write_affects coll (WcDeleteRows s) row \<longleftrightarrow> where_holds coll (del_comparisons s) row"
| "write_affects coll (WcUpdateRows s) row \<longleftrightarrow>
     where_holds coll (upd_where_comparisons s) row \<or> image_holds coll s row"
| "write_affects coll _ row \<longleftrightarrow> True"

text \<open>
  Writes whose predicates the range algebra reads exactly: every literal of a column has the
  column's kind, and columns that are not numeric carry no ordering comparison.
\<close>

definition comparisons_ok :: "(string \<Rightarrow> lit_kind) \<Rightarrow> write_comparison list \<Rightarrow> bool" where
  "comparisons_ok kind comparisons \<longleftrightarrow>
     (\<forall>(c, op, l)\<in>set comparisons.
        has_kind (kind c) l \<and> plain_lit l \<and> (kind c \<in> {KText, KBool} \<longrightarrow> \<not> is_ordering op))"

fun write_ok :: "(string \<Rightarrow> lit_kind) \<Rightarrow> write_class \<Rightarrow> bool" where
  "write_ok kind (WcInsertRows s) \<longleftrightarrow>
     (\<forall>cells\<in>set (ins_rows s). \<forall>v. Some v \<in> set cells \<longrightarrow> written_lit v)"
| "write_ok kind (WcDeleteRows s) \<longleftrightarrow> comparisons_ok kind (del_comparisons s)"
| "write_ok kind (WcUpdateRows s) \<longleftrightarrow>
     comparisons_ok kind (upd_where_comparisons s) \<and>
     (\<forall>c v. (c, Some v) \<in> set (upd_set s) \<longrightarrow> written_lit v)"
| "write_ok kind _ \<longleftrightarrow> True"

subsection \<open>The disjointness checks are sound\<close>

lemma list_get_Some_iff: "list_get xs i = Some x \<longleftrightarrow> i < length xs \<and> xs ! i = x"
  by (auto simp: list_get_def)

lemma list_get_member: "list_get xs i = Some x \<Longrightarrow> x \<in> set xs"
  by (auto simp: list_get_Some_iff)

lemma in_constrained_positions:
  "(p, r) \<in> set (constrained_positions columns rs) \<longleftrightarrow>
     (\<exists>c. list_get columns p = Some c \<and> map_of rs c = Some r)"
  by (auto simp: constrained_positions_def map_filter_def in_set_enumerate_eq list_get_Some_iff
      image_iff split: option.splits)

lemma no_empty_range:
  "ranges_sem coll rs row \<Longrightarrow> \<not> has_empty rs"
  by (fastforce simp: has_empty_def list_ex_iff ranges_sem_def)

lemma held_cell_not_excluded:
  assumes "collation coll" "ranges_plain rs" "ranges_sem coll rs row" "map_of rs c = Some r"
    and "cell_holds v (row c)" "written_lit v"
  shows "column_range_contains r v \<noteq> Some False"
proof
  assume excl: "column_range_contains r v = Some False"
  then have "\<not> literal_value_is_incomparable v" by (auto simp: column_range_contains_def)
  with assms(5,6) have v: "plain_lit v" "row c = val_dl v"
    by (auto simp: written_lit_def cell_holds_def)
  then obtain x where x: "val_dl v = Some x" by (cases v) auto
  from assms(4) have c: "(c, r) \<in> set rs" by (rule map_of_SomeD)
  with assms(2) have "\<forall>l\<in>range_lits r. plain_lit l" by (auto simp: ranges_plain_def)
  from overlap_domain.column_range_contains_sound
      [OF value_overlap [OF assms(1)] this v(1) x excl] c assms(3) v(2) x
  show False by (auto simp: ranges_sem_def)
qed

lemma where_equal_holds:
  assumes "where_holds coll comparisons row" "(c, Equal, v) \<in> set comparisons"
  shows "cell_holds v (row c)"
  using assms by (force simp: where_holds_def cell_holds_def cmp_sem_def split: option.splits)

lemma ia_disjoint_sound:
  assumes ctx: "collation coll" "ranges_plain rs" "ranges_sem coll rs row"
    and disj: "ia_disjoint ia rs" and cells: "cells \<in> set (ia_rows ia)"
    and ok: "\<forall>v. Some v \<in> set cells \<longrightarrow> written_lit v"
  shows "\<not> insert_holds (ia_columns ia) cells row"
proof
  assume holds: "insert_holds (ia_columns ia) cells row"
  from disj cells no_empty_range [OF ctx(3)] obtain p r where
      "(p, r) \<in> set (constrained_positions (ia_columns ia) rs)" and excl: "cell_excluded cells (p, r)"
    by (fastforce simp: ia_disjoint_def list_all_iff list_ex_iff Let_def split: if_splits)
  then obtain c where c: "list_get (ia_columns ia) p = Some c" "map_of rs c = Some r"
    by (auto simp: in_constrained_positions)
  from excl obtain v where v: "list_get cells p = Some (Some v)" "column_range_contains r v = Some False"
    by (auto simp: cell_excluded_def split: option.splits)
  from holds c(1) v(1) have "cell_holds v (row c)" by (auto simp: insert_holds_def)
  with held_cell_not_excluded [OF ctx c(2)] ok v list_get_member [OF v(1)] show False by blast
qed

lemma list_get_pair:
  assumes "list_get (map fst xs) p = Some a" "list_get (map snd xs) p = Some b"
  shows "(a, b) \<in> set xs"
proof -
  from assms have "p < length xs" "xs ! p = (a, b)" by (auto simp: list_get_Some_iff)
  then show ?thesis by (metis nth_mem)
qed

lemma equality_tuple_build_member:
  assumes "equality_tuple_build comparisons = Some (columns, tuple)"
    and "list_get columns p = Some c" "list_get tuple p = Some v"
  shows "(c, Equal, v) \<in> set comparisons"
proof -
  let ?pairs = "sort_key fst (map (\<lambda>(column, _, v). (column, v)) comparisons)"
  from assms(1) have eq: "columns = map fst ?pairs" "tuple = map snd ?pairs"
      and ops: "\<forall>(c, op, v)\<in>set comparisons. op = Equal"
    by (auto simp: equality_tuple_build_def Let_def list_ex_iff split: if_splits)
  from assms(2,3) have "(c, v) \<in> set ?pairs"
    unfolding eq by (rule list_get_pair)
  with ops show ?thesis by auto
qed

lemma comparisons_ok_written:
  "comparisons_ok kind comparisons \<Longrightarrow> (c, op, v) \<in> set comparisons \<Longrightarrow> written_lit v"
  by (auto simp: comparisons_ok_def written_lit_def)

lemma value_excluded_where:
  assumes ctx: "collation coll" "ranges_plain rs" "ranges_sem coll rs row"
    and ok: "comparisons_ok kind comparisons"
    and build: "equality_tuple_build comparisons = Some (columns, tuple)"
    and pr: "(p, r) \<in> set (constrained_positions columns rs)" "value_excluded tuple (p, r)"
    and same: "list_get columns p = Some c \<Longrightarrow> row c = old c"
    and holds: "where_holds coll comparisons old"
    and c: "list_get columns p = Some c"
  shows False
proof -
  from pr c obtain v where v: "map_of rs c = Some r" "list_get tuple p = Some v"
      "column_range_contains r v = Some False"
    by (auto simp: in_constrained_positions value_excluded_def split: option.splits)
  from equality_tuple_build_member [OF build c v(2)] have mem: "(c, Equal, v) \<in> set comparisons" .
  from where_equal_holds [OF holds mem] same [OF c] have "cell_holds v (row c)" by simp
  with held_cell_not_excluded [OF ctx v(1)] comparisons_ok_written [OF ok mem] v(3) show False by blast
qed

lemma merged_tuples_disjoint_sound:
  assumes ctx: "collation coll" "ranges_plain rs" "ranges_sem coll rs row"
    and ok: "comparisons_ok kind comparisons"
    and build: "equality_tuple_build comparisons = Some (columns, tuple)"
    and disj: "merged_tuples_disjoint merged rs"
    and mem: "map_of merged columns = Some tuples" "tuple \<in> set tuples"
  shows "\<not> where_holds coll comparisons row"
proof
  assume holds: "where_holds coll comparisons row"
  from map_of_SomeD [OF mem(1)] disj mem(2) no_empty_range [OF ctx(3)] obtain p r where
      pr: "(p, r) \<in> set (constrained_positions columns rs)" "value_excluded tuple (p, r)"
    by (fastforce simp: merged_tuples_disjoint_def list_all_iff list_ex_iff Let_def split: if_splits)
  then obtain c where "list_get columns p = Some c" by (auto simp: in_constrained_positions)
  from value_excluded_where [OF ctx ok build pr refl holds this] show False .
qed


lemma update_tuple_build_parts:
  assumes "update_tuple_build update = Some ((where_columns, set_columns), (where_values, set_values))"
  shows "equality_tuple_build (upd_where_comparisons update) = Some (where_columns, where_values)"
    and "distinct (map fst (upd_set update))"
    and "set_columns = map fst (sort_key fst (upd_set update))"
    and "set_values = map snd (sort_key fst (upd_set update))"
  using assms by (auto simp: update_tuple_build_def Let_def split: option.splits if_splits)

lemma cell_excluded_iff:
  "cell_excluded cells (p, r) \<longleftrightarrow>
     (\<exists>v. list_get cells p = Some (Some v) \<and> column_range_contains r v = Some False)"
  by (auto simp: cell_excluded_def split: option.splits)

lemma merged_updates_disjoint_sound:
  assumes ctx: "collation coll" "ranges_plain rs" "ranges_sem coll rs row"
    and ok: "write_ok kind (WcUpdateRows update)"
    and build: "update_tuple_build update = Some (shape, tuple)"
    and disj: "merged_updates_disjoint merged rs"
    and mem: "map_of merged shape = Some tuples" "tuple \<in> set tuples"
  shows "\<not> write_affects coll (WcUpdateRows update) row"
proof
  obtain where_columns set_columns where_values set_values where
      st: "shape = (where_columns, set_columns)" "tuple = (where_values, set_values)"
    by (cases shape; cases tuple)
  note parts = update_tuple_build_parts [OF build [unfolded st]]
  from ok have oks: "comparisons_ok kind (upd_where_comparisons update)"
      "\<And>c v. (c, Some v) \<in> set (upd_set update) \<Longrightarrow> written_lit v" by auto
  let ?W = "constrained_positions where_columns rs"
  let ?in_image = "\<lambda>(position, _). case list_get where_columns position of
      Some column \<Rightarrow> column \<notin> set set_columns | None \<Rightarrow> False"
  from map_of_SomeD [OF mem(1)] mem(2) disj no_empty_range [OF ctx(3)] st have
      excl: "list_ex (value_excluded where_values) ?W"
        "list_ex (value_excluded where_values) (filter ?in_image ?W) \<or>
         list_ex (cell_excluded set_values) (constrained_positions set_columns rs)"
    by (fastforce simp: merged_updates_disjoint_def list_all_iff Let_def split: if_splits)+
  assume "write_affects coll (WcUpdateRows update) row"
  then consider "where_holds coll (upd_where_comparisons update) row" | "image_holds coll update row"
    by auto
  then show False
  proof cases
    case 1
    from excl(1) obtain p r c where "(p, r) \<in> set ?W" "value_excluded where_values (p, r)"
        "list_get where_columns p = Some c"
      by (auto simp: list_ex_iff in_constrained_positions)
    from value_excluded_where [OF ctx oks(1) parts(1) this(1,2) refl 1 this(3)] show False .
  next
    case 2
    then obtain old where old: "where_holds coll (upd_where_comparisons update) old"
        "\<And>c. case map_of (rev (upd_set update)) c of
                None \<Rightarrow> row c = old c | Some None \<Rightarrow> True | Some (Some v) \<Rightarrow> cell_holds v (row c)"
      by (auto simp: image_holds_def)
    from excl(2) show False
    proof
      assume "list_ex (value_excluded where_values) (filter ?in_image ?W)"
      then obtain p r c where pr: "(p, r) \<in> set ?W" "value_excluded where_values (p, r)"
          and c: "list_get where_columns p = Some c" "c \<notin> set set_columns"
        by (auto simp: list_ex_iff split: option.splits)
      from c(2) parts(3) have "map_of (rev (upd_set update)) c = None" by (auto simp: map_of_eq_None_iff)
      with old(2) [of c] have "row c = old c" by simp
      from value_excluded_where [OF ctx oks(1) parts(1) pr this old(1) c(1)] show False .
    next
      assume "list_ex (cell_excluded set_values) (constrained_positions set_columns rs)"
      then obtain p r c v where c: "list_get set_columns p = Some c" "map_of rs c = Some r"
          and v: "list_get set_values p = Some (Some v)" "column_range_contains r v = Some False"
        by (auto simp: list_ex_iff in_constrained_positions cell_excluded_iff)
      from list_get_pair [OF c(1) [unfolded parts(3)] v(1) [unfolded parts(4)]]
      have mem: "(c, Some v) \<in> set (upd_set update)" by simp
      with parts(2) have "map_of (rev (upd_set update)) c = Some (Some v)"
        by (intro map_of_is_SomeI) (simp_all add: rev_map [symmetric])
      with old(2) [of c] have "cell_holds v (row c)" by simp
      with held_cell_not_excluded [OF ctx c(2)] oks(2) [OF mem] v(2) show False by blast
    qed
  qed
qed

subsection \<open>Range maps of statements\<close>

lemma value_domain_plain:
  assumes "collation coll"
  shows "column_domain val_dl (val_lt coll) (\<lambda>l. has_kind k l \<and> plain_lit l)"
proof -
  from value_domain [OF assms, of k] have d: "column_domain val_dl (val_lt coll) (has_kind k)" .
  show ?thesis
    using d unfolding column_domain_def by blast
qed

lemma set_alist_update: "set (AList.update k v m) \<subseteq> insert (k, v) (set m)"
  by (induction m) auto

lemma comparison_groups:
  assumes "(c, cs) \<in> set (fold (\<lambda>(column, op, v) by_column.
             entry_push column (Comparison column op v) by_column) comparisons m)"
    and "\<And>c cs tc. (c, cs) \<in> set m \<Longrightarrow> tc \<in> set cs \<Longrightarrow> P c tc"
    and "\<And>c op v. (c, op, v) \<in> set comparisons \<Longrightarrow> P c (Comparison c op v)"
    and "tc \<in> set cs"
  shows "P c tc"
  using assms
proof (induction comparisons arbitrary: m)
  case (Cons x comparisons)
  obtain c0 op v where x: "x = (c0, op, v)" by (cases x)
  show ?case
  proof (rule Cons.IH)
    show "(c, cs) \<in> set (fold (\<lambda>(column, op, v) by_column.
             entry_push column (Comparison column op v) by_column) comparisons
               (entry_push c0 (Comparison c0 op v) m))"
      using Cons.prems(1) by (simp add: x)
    show "P c' tc'" if a: "(c', cs') \<in> set (entry_push c0 (Comparison c0 op v) m)" "tc' \<in> set cs'"
      for c' cs' tc'
    proof (cases "(c', cs') \<in> set m")
      case True
      with Cons.prems(2) a(2) show ?thesis by blast
    next
      case False
      with a(1) set_alist_update [of c0 _ m] have c': "c' = c0"
          "cs' = (case map_of m c0 of None \<Rightarrow> [] | Some vs \<Rightarrow> vs) @ [Comparison c0 op v]"
        unfolding entry_push_def entry_update_def by blast+
      with a(2) Cons.prems(2) [OF map_of_SomeD] Cons.prems(3) [of c0 op v] x show ?thesis
        by (auto split: option.splits)
    qed
  qed (use Cons.prems in auto)
qed auto

lemma comparison_group_range:
  assumes coll: "collation coll" and ok: "comparisons_ok kind comparisons"
    and cs: "\<And>tc. tc \<in> set cs \<Longrightarrow> \<exists>op v. tc = Comparison c op v \<and> (c, op, v) \<in> set comparisons"
  shows "where_holds coll comparisons row \<Longrightarrow>
           range_sem val_dl (val_lt coll) (column_range_build cs) (row c)"
    and "\<forall>l\<in>range_lits (column_range_build cs). plain_lit l"
proof -
  have lits: "\<forall>tc\<in>set cs. \<forall>l\<in>tc_lits tc. has_kind (kind c) l \<and> plain_lit l"
    using cs ok by (fastforce simp: comparisons_ok_def)
  have "bucket_ok (kind c) cs"
    using lits cs ok by (fastforce simp: bucket_ok_def comparisons_ok_def ord_lits_def)
  note sound = column_domain.column_range_build_sound [OF value_domain_plain [OF coll] lits
      bucket_orderable [OF coll this]]
  show "range_sem val_dl (val_lt coll) (column_range_build cs) (row c)"
    if "where_holds coll comparisons row"
  proof (cases "column_range_build cs = RUnknown")
    case False
    have "\<forall>tc\<in>set cs. tc_sem val_dl (val_lt coll) tc (row c)"
      using that cs by (fastforce simp: where_holds_def)
    with sound(1) [OF False] show ?thesis by blast
  qed simp
  show "\<forall>l\<in>range_lits (column_range_build cs). plain_lit l"
    by (cases "column_range_build cs = RUnknown") (use sound(2) in auto)
qed

lemma comparison_ranges_entry:
  assumes "(c, r) \<in> set (column_ranges_from_comparisons comparisons)"
  obtains cs where "r = column_range_build cs"
    and "\<And>tc. tc \<in> set cs \<Longrightarrow> \<exists>op v. tc = Comparison c op v \<and> (c, op, v) \<in> set comparisons"
proof -
  from assms obtain cs where cs: "r = column_range_build cs"
      "(c, cs) \<in> set (fold (\<lambda>(column, op, v) by_column.
             entry_push column (Comparison column op v) by_column) comparisons [])"
    by (auto simp: column_ranges_from_comparisons_def)
  show ?thesis
    by (rule that [OF cs(1)], rule comparison_groups [OF cs(2)]) auto
qed

lemma comparison_ranges_sound:
  assumes "collation coll" "comparisons_ok kind comparisons"
    and "(c, r) \<in> set (column_ranges_from_comparisons comparisons)"
  shows "where_holds coll comparisons row \<Longrightarrow> range_sem val_dl (val_lt coll) r (row c)"
    and "\<forall>l\<in>range_lits r. plain_lit l"
  using comparison_ranges_entry [OF assms(3)] comparison_group_range [OF assms(1,2)] by metis+

lemma where_ranges_sound:
  assumes ctx: "collation coll" "ranges_plain rs" "ranges_sem coll rs row"
    and ok: "comparisons_ok kind comparisons"
    and disj: "column_ranges_disjoint rs (column_ranges_from_comparisons comparisons)"
  shows "\<not> where_holds coll comparisons row"
proof
  assume holds: "where_holds coll comparisons row"
  have "ranges_sem coll (column_ranges_from_comparisons comparisons) row"
      "ranges_plain (column_ranges_from_comparisons comparisons)"
    using comparison_ranges_sound [OF ctx(1) ok] holds by (auto simp: ranges_sem_def ranges_plain_def)
  with column_ranges_disjoint_correct [OF ctx(1,2) _ disj] ctx(3) show False by blast
qed


lemma distinct_comparison_ranges: "distinct (map fst (column_ranges_from_comparisons comparisons))"
proof -
  have "distinct (map fst (fold (\<lambda>(column, op, v) by_column.
          entry_push column (Comparison column op v) by_column) comparisons m))"
    if "distinct (map fst m)" for m :: "(string \<times> table_constraint list) list"
    using that by (induction comparisons arbitrary: m) auto
  then show ?thesis by (simp add: column_ranges_from_comparisons_def comp_def case_prod_unfold)
qed

definition image_step :: "string \<times> literal_value option \<Rightarrow> range_map \<Rightarrow> range_map" where
  "image_step = (\<lambda>(column, v) image_ranges.
     case v of
       Some literal \<Rightarrow> AList.update column (REqual literal) image_ranges
     | None \<Rightarrow> AList.delete column image_ranges)"

lemma image_ranges_eq:
  "up_image_ranges (update_predicate_build update) =
     fold image_step (upd_set update) (column_ranges_from_comparisons (upd_where_comparisons update))"
  by (simp add: update_predicate_build_def image_step_def Let_def)

lemma map_of_image_steps:
  "map_of (fold image_step set_list m) c =
     (case map_of (rev set_list) c of
        None \<Rightarrow> map_of m c
      | Some None \<Rightarrow> None
      | Some (Some v) \<Rightarrow> Some (REqual v))"
  by (induction set_list rule: rev_induct)
    (auto simp: image_step_def map_of_update map_of_delete split: option.splits)

lemma distinct_image_steps:
  "distinct (map fst m) \<Longrightarrow> distinct (map fst (fold image_step set_list m))"
  by (induction set_list arbitrary: m)
    (auto simp: image_step_def distinct_update distinct_delete split: option.splits)

lemma disjoint_incomparable:
  "literal_value_is_incomparable v \<Longrightarrow> column_range_disjoint r (REqual v) \<Longrightarrow> r = REmpty"
  by (cases r; cases v) (auto simp: column_range_contains_def split: if_splits)

lemma column_ranges_disjoint_pair:
  assumes "column_ranges_disjoint a b" "\<not> has_empty a" "\<not> has_empty b"
  obtains c ra rb where "(c, ra) \<in> set a" "map_of b c = Some rb" "column_range_disjoint ra rb"
  using assms
  by (auto simp: column_ranges_disjoint_def has_empty_def list_ex_iff split: if_splits option.splits)

lemma image_ranges_sound:
  assumes ctx: "collation coll" "ranges_plain rs" "ranges_sem coll rs row"
    and ok: "write_ok kind (WcUpdateRows update)"
    and disj: "column_ranges_disjoint rs (up_image_ranges (update_predicate_build update))"
  shows "\<not> image_holds coll update row"
proof
  let ?where = "column_ranges_from_comparisons (upd_where_comparisons update)"
  let ?image = "fold image_step (upd_set update) ?where"
  assume "image_holds coll update row"
  then obtain old where old: "where_holds coll (upd_where_comparisons update) old"
      "\<And>c. case map_of (rev (upd_set update)) c of
              None \<Rightarrow> row c = old c | Some None \<Rightarrow> True | Some (Some v) \<Rightarrow> cell_holds v (row c)"
    by (auto simp: image_holds_def)
  from ok have oks: "comparisons_ok kind (upd_where_comparisons update)"
      "\<And>c v. (c, Some v) \<in> set (upd_set update) \<Longrightarrow> written_lit v" by auto
  have entry: "(\<exists>v. r = REqual v \<and> written_lit v \<and> cell_holds v (row c)) \<or>
      range_sem val_dl (val_lt coll) r (row c) \<and> (\<forall>l\<in>range_lits r. plain_lit l)"
    if r: "map_of ?image c = Some r" for c r
  proof (cases "map_of (rev (upd_set update)) c")
    case None
    with r old(2) [of c] have "(c, r) \<in> set ?where" "row c = old c"
      by (auto simp: map_of_image_steps dest: map_of_SomeD)
    with comparison_ranges_sound [OF ctx(1) oks(1)] old(1) show ?thesis by simp
  next
    case (Some w)
    with r obtain v where v: "w = Some v" "r = REqual v"
      by (auto simp: map_of_image_steps split: option.splits)
    from map_of_SomeD [OF Some [unfolded v(1)]] have "(c, Some v) \<in> set (upd_set update)" by simp
    with oks(2) old(2) [of c] Some v show ?thesis by auto
  qed
  have "\<not> has_empty ?image"
  proof
    assume "has_empty ?image"
    then obtain c where "(c, REmpty) \<in> set ?image" by (auto simp: has_empty_def list_ex_iff)
    then have "map_of ?image c = Some REmpty"
      by (rule map_of_is_SomeI [OF distinct_image_steps [OF distinct_comparison_ranges]])
    from entry [OF this] show False by auto
  qed
  with disj no_empty_range [OF ctx(3)] obtain c ra rb where ab: "(c, ra) \<in> set rs"
      "map_of ?image c = Some rb" "column_range_disjoint ra rb"
    unfolding image_ranges_eq by (rule column_ranges_disjoint_pair)
  from ab(1) ctx(2,3) have a: "\<forall>l\<in>range_lits ra. plain_lit l" "range_sem val_dl (val_lt coll) ra (row c)"
    by (auto simp: ranges_plain_def ranges_sem_def)
  note sound = overlap_domain.column_range_disjoint_sound [OF value_overlap [OF ctx(1)] a(1) _ ab(3)]
  from entry [OF ab(2)] show False
  proof
    assume "\<exists>v. rb = REqual v \<and> written_lit v \<and> cell_holds v (row c)"
    then obtain v where v: "rb = REqual v" "written_lit v" "cell_holds v (row c)" by blast
    show False
    proof (cases "plain_lit v")
      case True
      then obtain x where "val_dl v = Some x" by (cases v) auto
      with True v have "\<forall>l\<in>range_lits rb. plain_lit l" "range_sem val_dl (val_lt coll) rb (row c)"
        by (simp_all add: cell_holds_def)
      with sound a(2) show False by blast
    next
      case False
      with v(2) have "literal_value_is_incomparable v" by (simp add: written_lit_def)
      from disjoint_incomparable [OF this ab(3) [unfolded v(1)]] a(2) show False by simp
    qed
  next
    assume "range_sem val_dl (val_lt coll) rb (row c) \<and> (\<forall>l\<in>range_lits rb. plain_lit l)"
    with sound a(2) show False by blast
  qed
qed

subsection \<open>The check of an aggregate\<close>

lemma intersect_check_Inr:
  "intersect_check applies disjoint mark st = Inr k \<Longrightarrow> (applies \<longrightarrow> disjoint) \<and> (\<exists>k0. st = Inr k0)"
  by (auto simp: intersect_check_def split: sum.splits if_splits)

lemma intersect_checks_Inr:
  assumes "fold (\<lambda>x. intersect_check True (D x) mark) xs st = Inr k"
  shows "(\<forall>x\<in>set xs. D x) \<and> (\<exists>k0. st = Inr k0)"
  using assms
proof (induction xs arbitrary: st)
  case (Cons x xs)
  let ?st = "intersect_check True (D x) mark st"
  from Cons.prems have "fold (\<lambda>x. intersect_check True (D x) mark) xs ?st = Inr k" by simp
  from Cons.IH [OF this] obtain k1 where k1: "\<forall>x\<in>set xs. D x" "?st = Inr k1" by blast
  from intersect_check_Inr [OF k1(2)] k1(1) show ?case by simp
qed simp

lemma aggregate_not_intersecting:
  assumes "aggregate_intersects agg read_ranges kinds = (False, kinds')"
  shows "\<not> tg_opaque agg"
    and "\<And>ia. tg_inserts agg = Some ia \<Longrightarrow> ranges_test read_ranges (ia_disjoint ia)"
    and "tg_merged_deletes agg \<noteq> [] \<Longrightarrow>
           ranges_test read_ranges (merged_tuples_disjoint (tg_merged_deletes agg))"
    and "\<And>d. d \<in> set (tg_deletes agg) \<Longrightarrow>
           ranges_test read_ranges (\<lambda>rs. column_ranges_disjoint rs d)"
    and "tg_merged_updates agg \<noteq> [] \<Longrightarrow>
           ranges_test read_ranges (merged_updates_disjoint (tg_merged_updates agg))"
    and "\<And>u. u \<in> set (tg_updates agg) \<Longrightarrow>
           ranges_test read_ranges (\<lambda>rs. column_ranges_disjoint rs (up_where_ranges u) \<and>
             column_ranges_disjoint rs (up_image_ranges u))"
proof -
  let ?m = "\<lambda>k. k\<lparr>dk_delete := True\<rparr>" and ?u = "\<lambda>k. k\<lparr>dk_update := True\<rparr>"
  define s1 where "s1 = (case tg_inserts agg of
      None \<Rightarrow> Inr kinds
    | Some inserts \<Rightarrow> intersect_check True (ranges_test read_ranges (ia_disjoint inserts))
        (\<lambda>k. k\<lparr>dk_insert := True\<rparr>) (Inr kinds))"
  define s2 where "s2 = intersect_check (tg_merged_deletes agg \<noteq> [])
      (ranges_test read_ranges (merged_tuples_disjoint (tg_merged_deletes agg))) ?m s1"
  define s3 where "s3 = fold (\<lambda>delete. intersect_check True
      (ranges_test read_ranges (\<lambda>rs. column_ranges_disjoint rs delete)) ?m) (tg_deletes agg) s2"
  define s4 where "s4 = intersect_check (tg_merged_updates agg \<noteq> [])
      (ranges_test read_ranges (merged_updates_disjoint (tg_merged_updates agg))) ?u s3"
  define s5 where "s5 = fold (\<lambda>update. intersect_check True
      (ranges_test read_ranges (\<lambda>rs. column_ranges_disjoint rs (up_where_ranges update) \<and>
         column_ranges_disjoint rs (up_image_ranges update))) ?u) (tg_updates agg) s4"
  have "aggregate_intersects agg read_ranges kinds =
      (if tg_opaque agg then (True, kinds) else case s5 of Inl k \<Rightarrow> (True, k) | Inr k \<Rightarrow> (False, k))"
    unfolding aggregate_intersects_def Let_def s5_def s4_def s3_def s2_def s1_def ..
  with assms obtain k where opaque: "\<not> tg_opaque agg" and s5: "s5 = Inr k"
    by (auto split: if_splits sum.splits)
  from intersect_checks_Inr [OF s5 [unfolded s5_def]] obtain k4 where s4: "s4 = Inr k4"
    and u: "\<forall>u\<in>set (tg_updates agg). ranges_test read_ranges
      (\<lambda>rs. column_ranges_disjoint rs (up_where_ranges u) \<and> column_ranges_disjoint rs (up_image_ranges u))"
    by blast
  from intersect_check_Inr [OF s4 [unfolded s4_def]] obtain k3 where s3: "s3 = Inr k3"
    and mu: "tg_merged_updates agg \<noteq> [] \<longrightarrow>
      ranges_test read_ranges (merged_updates_disjoint (tg_merged_updates agg))" by blast
  from intersect_checks_Inr [OF s3 [unfolded s3_def]] obtain k2 where s2: "s2 = Inr k2"
    and d: "\<forall>d\<in>set (tg_deletes agg). ranges_test read_ranges (\<lambda>rs. column_ranges_disjoint rs d)" by blast
  from intersect_check_Inr [OF s2 [unfolded s2_def]] obtain k1 where s1: "s1 = Inr k1"
    and md: "tg_merged_deletes agg \<noteq> [] \<longrightarrow>
      ranges_test read_ranges (merged_tuples_disjoint (tg_merged_deletes agg))" by blast
  show "\<not> tg_opaque agg" by (rule opaque)
  show "ranges_test read_ranges (ia_disjoint ia)" if "tg_inserts agg = Some ia" for ia
    using intersect_check_Inr [of True "ranges_test read_ranges (ia_disjoint ia)"] s1 that
    by (auto simp: s1_def)
  show "ranges_test read_ranges (merged_tuples_disjoint (tg_merged_deletes agg))"
    if "tg_merged_deletes agg \<noteq> []" using md that by blast
  show "ranges_test read_ranges (\<lambda>rs. column_ranges_disjoint rs d)" if "d \<in> set (tg_deletes agg)" for d
    using d that by blast
  show "ranges_test read_ranges (merged_updates_disjoint (tg_merged_updates agg))"
    if "tg_merged_updates agg \<noteq> []" using mu that by blast
  show "ranges_test read_ranges (\<lambda>rs. column_ranges_disjoint rs (up_where_ranges u) \<and>
      column_ranges_disjoint rs (up_image_ranges u))" if "u \<in> set (tg_updates agg)" for u
    using u that by blast
qed


subsection \<open>Rows and predicates an aggregate accounts for\<close>

text \<open>Every known cell of a stored row is a cell of the statement's row, under the same column.\<close>

definition row_known :: "string list \<Rightarrow> insert_row \<Rightarrow> string list \<Rightarrow> insert_row \<Rightarrow> bool" where
  "row_known columns cells stmt_columns stmt_cells \<longleftrightarrow>
     (\<forall>p v. list_get cells p = Some (Some v) \<longrightarrow>
        (\<exists>c i. list_get columns p = Some c \<and> list_get stmt_columns i = Some c \<and>
               list_get stmt_cells i = Some (Some v)))"

definition rows_known :: "insert_aggregate \<Rightarrow> string list \<Rightarrow> insert_row list \<Rightarrow> bool" where
  "rows_known ia stmt_columns stmt_rows \<longleftrightarrow>
     (\<forall>stmt_cells\<in>set stmt_rows. \<exists>cells\<in>set (ia_rows ia).
        row_known (ia_columns ia) cells stmt_columns stmt_cells)"

definition has_tuple :: "('k \<times> 'v list) list \<Rightarrow> 'k \<Rightarrow> 'v \<Rightarrow> bool" where
  "has_tuple m k t \<longleftrightarrow> (\<exists>ts. map_of m k = Some ts \<and> t \<in> set ts)"

fun agg_covers :: "table_aggregate \<Rightarrow> write_class \<Rightarrow> bool" where
  "agg_covers agg (WcInsertRows s) \<longleftrightarrow>
     tg_opaque agg \<or> (\<exists>ia. tg_inserts agg = Some ia \<and> rows_known ia (ins_columns s) (ins_rows s))"
| "agg_covers agg (WcDeleteRows s) \<longleftrightarrow>
     tg_opaque agg \<or>
     (case equality_tuple_build (del_comparisons s) of
        Some (columns, tuple) \<Rightarrow> has_tuple (tg_merged_deletes agg) columns tuple
      | None \<Rightarrow> column_ranges_from_comparisons (del_comparisons s) \<in> set (tg_deletes agg))"
| "agg_covers agg (WcUpdateRows s) \<longleftrightarrow>
     tg_opaque agg \<or>
     (case update_tuple_build s of
        Some (shape, tuple) \<Rightarrow> has_tuple (tg_merged_updates agg) shape tuple
      | None \<Rightarrow> update_predicate_build s \<in> set (tg_updates agg))"
| "agg_covers agg _ \<longleftrightarrow> tg_opaque agg"

lemma insert_holds_known:
  assumes known: "row_known columns cells stmt_columns stmt_cells"
    and holds: "insert_holds stmt_columns stmt_cells row"
  shows "insert_holds columns cells row"
  unfolding insert_holds_def
proof (intro allI impI)
  fix p c v
  assume c: "list_get columns p = Some c" and v: "list_get cells p = Some (Some v)"
  from known v c obtain i where "list_get stmt_columns i = Some c" "list_get stmt_cells i = Some (Some v)"
    unfolding row_known_def by force
  with holds show "cell_holds v (row c)" unfolding insert_holds_def by blast
qed

lemma row_known_member:
  assumes known: "row_known columns cells stmt_columns stmt_cells" and v: "Some v \<in> set cells"
  shows "Some v \<in> set stmt_cells"
proof -
  from v obtain p where "list_get cells p = Some (Some v)"
    by (auto simp: in_set_conv_nth list_get_Some_iff)
  with known obtain i where "list_get stmt_cells i = Some (Some v)" unfolding row_known_def by blast
  then show ?thesis by (rule list_get_member)
qed

lemma row_known_trans:
  "row_known cs2 r2 cs1 r1 \<Longrightarrow> row_known cs1 r1 cs0 r0 \<Longrightarrow> row_known cs2 r2 cs0 r0"
  unfolding row_known_def by (metis option.inject)

lemma list_get_append_left: "list_get xs i = Some x \<Longrightarrow> list_get (xs @ ys) i = Some x"
  by (auto simp: list_get_Some_iff nth_append)

lemma row_known_widen: "row_known cs r cs0 r0 \<Longrightarrow> row_known (cs @ ext) r cs0 r0"
  unfolding row_known_def by (meson list_get_append_left)

text \<open>The central step: no row of a read that passes the check is affected by a covered write.\<close>

lemma aggregate_check_sound:
  assumes ctx: "collation coll" "ranges_plain rs" "ranges_sem coll rs row"
    and pass: "aggregate_intersects agg (Some rs) kinds = (False, kinds')"
    and covers: "agg_covers agg w" and ok: "write_ok kind w"
  shows "\<not> write_affects coll w row"
proof -
  note checks = aggregate_not_intersecting [OF pass, unfolded ranges_test_def, simplified]
  show ?thesis
  proof (cases w)
    case (WcInsertRows s)
    with covers checks(1) obtain ia where ia: "tg_inserts agg = Some ia"
        and known: "rows_known ia (ins_columns s) (ins_rows s)" by auto
    from checks(2) [OF ia] have disj: "ia_disjoint ia rs" .
    show ?thesis
    proof
      assume "write_affects coll w row"
      with WcInsertRows known obtain stmt_cells cells where c: "stmt_cells \<in> set (ins_rows s)"
          "insert_holds (ins_columns s) stmt_cells row" "cells \<in> set (ia_rows ia)"
          "row_known (ia_columns ia) cells (ins_columns s) stmt_cells"
        by (auto simp: rows_known_def)
      have "\<forall>v. Some v \<in> set cells \<longrightarrow> written_lit v"
        using ok WcInsertRows c(1) row_known_member [OF c(4)] by auto
      from ia_disjoint_sound [OF ctx disj c(3) this] insert_holds_known [OF c(4,2)] show False by blast
    qed
  next
    case (WcDeleteRows s)
    show ?thesis
    proof (cases "equality_tuple_build (del_comparisons s)")
      case None
      with covers checks(1) WcDeleteRows
      have "column_ranges_from_comparisons (del_comparisons s) \<in> set (tg_deletes agg)" by simp
      from where_ranges_sound [OF ctx _ checks(4) [OF this]] ok WcDeleteRows show ?thesis by auto
    next
      case (Some ct)
      then obtain columns tuple where b: "equality_tuple_build (del_comparisons s) = Some (columns, tuple)"
        by (cases ct) auto
      with covers checks(1) WcDeleteRows obtain ts where
          ts: "map_of (tg_merged_deletes agg) columns = Some ts" "tuple \<in> set ts"
        by (auto simp: has_tuple_def)
      then have "tg_merged_deletes agg \<noteq> []" by auto
      from merged_tuples_disjoint_sound [OF ctx _ b checks(3) [OF this] ts] ok WcDeleteRows
      show ?thesis by auto
    qed
  next
    case (WcUpdateRows s)
    show ?thesis
    proof (cases "update_tuple_build s")
      case None
      with covers checks(1) WcUpdateRows have "update_predicate_build s \<in> set (tg_updates agg)" by simp
      note d = checks(6) [OF this]
      from d have w: "column_ranges_disjoint rs
          (column_ranges_from_comparisons (upd_where_comparisons s))"
        by (simp add: update_predicate_build_def Let_def)
      from where_ranges_sound [OF ctx _ w] image_ranges_sound [OF ctx _ conjunct2 [OF d]] ok WcUpdateRows
      show ?thesis by auto
    next
      case (Some st)
      then obtain shape tuple where b: "update_tuple_build s = Some (shape, tuple)" by (cases st) auto
      with covers checks(1) WcUpdateRows obtain ts where
          ts: "map_of (tg_merged_updates agg) shape = Some ts" "tuple \<in> set ts"
        by (auto simp: has_tuple_def)
      then have "tg_merged_updates agg \<noteq> []" by auto
      from merged_updates_disjoint_sound [OF ctx _ b checks(5) [OF this] ts] ok WcUpdateRows
      show ?thesis by auto
    qed
  qed (use covers checks(1) in auto)
qed

text \<open>A read without derived ranges never passes an aggregate that covers an effective write.\<close>

lemma aggregate_check_no_ranges:
  assumes pass: "aggregate_intersects agg None kinds = (False, kinds')" and covers: "agg_covers agg w"
  shows False
proof -
  note checks = aggregate_not_intersecting [OF pass, unfolded ranges_test_def, simplified]
  have "tg_merged_deletes agg = []" "tg_merged_updates agg = []" "tg_deletes agg = []" "tg_updates agg = []"
    using checks(3-6) by (cases "tg_deletes agg"; cases "tg_updates agg"; force)+
  with covers checks(1,2) show False
    by (cases w) (auto simp: has_tuple_def split: option.splits prod.splits)
qed


subsection \<open>Folding and merging keep what is accounted for\<close>

lemma list_position_Some: "list_position x xs = Some p \<Longrightarrow> p < length xs \<and> xs ! p = x"
  by (induction xs arbitrary: p) (auto split: if_splits)

lemma list_position_None: "list_position x xs = None \<longleftrightarrow> x \<notin> set xs"
  by (induction xs) auto

lemma column_positions_resolve_spec:
  assumes "column_positions_resolve cs columns = (ps, columns')"
  shows "\<exists>ext. columns' = columns @ ext \<and>
           length ext \<le> length (filter (\<lambda>c. c \<notin> set columns) cs) \<and> length ps = length cs \<and>
           (\<forall>i<length cs. ps ! i < length columns' \<and> columns' ! (ps ! i) = cs ! i)"
  using assms
proof (induction cs columns arbitrary: ps columns' rule: column_positions_resolve.induct)
  case (2 c cs columns)
  obtain p columns1 where p1: "(case list_position c columns of
      Some p \<Rightarrow> (p, columns) | None \<Rightarrow> (length columns, columns @ [c])) = (p, columns1)" by (cases "(case list_position c columns of
      Some p \<Rightarrow> (p, columns) | None \<Rightarrow> (length columns, columns @ [c]))")
  obtain ps2 where r: "column_positions_resolve cs columns1 = (ps2, columns')" "ps = p # ps2"
    using "2.prems" p1 by (auto split: prod.splits)
  have ext1: "\<exists>e1. columns1 = columns @ e1 \<and> length e1 = (if c \<in> set columns then 0 else 1)"
    using p1 by (auto split: option.splits simp: list_position_None dest!: list_position_Some)
  have at: "p < length columns1 \<and> columns1 ! p = c"
    using p1 by (auto split: option.splits dest: list_position_Some)
  from "2.IH" [OF _ _ r(1)] p1 obtain e2 where e2: "columns' = columns1 @ e2"
      "length e2 \<le> length (filter (\<lambda>c. c \<notin> set columns1) cs)" "length ps2 = length cs"
      "\<forall>i<length cs. ps2 ! i < length columns' \<and> columns' ! (ps2 ! i) = cs ! i"
    by (metis prod.sel)
  from ext1 obtain e1 where e1: "columns1 = columns @ e1"
      "length e1 = (if c \<in> set columns then 0 else 1)" by blast
  have "length (filter (\<lambda>c. c \<notin> set columns1) cs) \<le> length (filter (\<lambda>c. c \<notin> set columns) cs)"
    unfolding e1(1) by (induction cs) auto
  with e1(2) e2(2) have "length (e1 @ e2) \<le> length (filter (\<lambda>c. c \<notin> set columns) (c # cs))"
    by (simp split: if_splits)
  moreover have "(p # ps2) ! i < length columns' \<and> columns' ! ((p # ps2) ! i) = (c # cs) ! i"
    if "i < length (c # cs)" for i
    using that at e2 by (cases i) (auto simp: nth_append)
  ultimately show ?case
    using e1 e2(1,3) r(2) by (intro exI [of _ "e1 @ e2"]) simp
qed simp

lemma row_scatter_known:
  assumes "list_get (row_scatter width positions vals) p = Some (Some v)"
  shows "\<exists>i. list_get positions i = Some p \<and> list_get vals i = Some (Some v)"
proof -
  have "list_get (fold (\<lambda>(v, position) cells. cells[position := v]) prs cells) p = Some (Some v) \<Longrightarrow>
      list_get cells p = Some (Some v) \<or> (Some v, p) \<in> set prs" for prs cells
  proof (induction prs arbitrary: cells)
    case (Cons a prs)
    obtain w q where a: "a = (w, q)" by (cases a)
    from Cons.prems have "list_get (fold (\<lambda>(v, position) cells. cells[position := v]) prs (cells[q := w])) p
        = Some (Some v)" by (simp add: a)
    from Cons.IH [OF this] show ?case
      by (cases "p = q") (auto simp: a list_get_Some_iff)
  qed simp
  from this [OF assms [unfolded row_scatter_def]] have "(Some v, p) \<in> set (zip vals positions)"
    by (auto simp: list_get_Some_iff)
  then show ?thesis by (auto simp: in_set_zip list_get_Some_iff)
qed

lemma fold_row_push:
  "fold (row_push positions) rows ia =
     ia\<lparr>ia_rows := ia_rows ia @ map (row_scatter (length (ia_columns ia)) positions) rows\<rparr>"
  by (induction rows arbitrary: ia) (simp_all add: row_push_def)

lemma rows_fold_sel:
  obtains ext positions where
    "ia_columns (rows_fold columns rows ia) = ia_columns ia @ ext"
    "length ext \<le> length (filter (\<lambda>c. c \<notin> set (ia_columns ia)) columns)"
    "ia_rows (rows_fold columns rows ia) =
       ia_rows ia @ map (row_scatter (length (ia_columns ia @ ext)) positions) rows"
    "length positions = length columns"
    "\<And>i. i < length columns \<Longrightarrow> positions ! i < length (ia_columns ia @ ext) \<and>
       (ia_columns ia @ ext) ! (positions ! i) = columns ! i"
proof -
  obtain positions columns' where
    r: "column_positions_resolve columns (ia_columns ia) = (positions, columns')" by fastforce
  from column_positions_resolve_spec [OF r] obtain ext where ext: "columns' = ia_columns ia @ ext"
      "length ext \<le> length (filter (\<lambda>c. c \<notin> set (ia_columns ia)) columns)"
      "length positions = length columns"
      "\<forall>i<length columns. positions ! i < length columns' \<and> columns' ! (positions ! i) = columns ! i"
    by blast
  show ?thesis
    by (rule that [of ext positions]) (use r ext in \<open>auto simp: rows_fold_def fold_row_push\<close>)
qed

lemma rows_fold_known:
  "rows_known ia cs rows \<Longrightarrow> rows_known (rows_fold columns new ia) cs rows"
  "rows_known (rows_fold columns new ia) columns new"
proof -
  obtain ext positions where f: "ia_columns (rows_fold columns new ia) = ia_columns ia @ ext"
      "ia_rows (rows_fold columns new ia) =
         ia_rows ia @ map (row_scatter (length (ia_columns ia @ ext)) positions) new"
      "length positions = length columns"
      "\<And>i. i < length columns \<Longrightarrow> positions ! i < length (ia_columns ia @ ext) \<and>
         (ia_columns ia @ ext) ! (positions ! i) = columns ! i"
    by (rule rows_fold_sel [of columns new ia]) blast
  show "rows_known ia cs rows \<Longrightarrow> rows_known (rows_fold columns new ia) cs rows"
    unfolding rows_known_def f(1,2) by (fastforce intro: row_known_widen)
  have "row_known (ia_columns ia @ ext) (row_scatter (length (ia_columns ia @ ext)) positions cells)
      columns cells" for cells
    unfolding row_known_def
  proof (intro allI impI)
    fix p v
    assume "list_get (row_scatter (length (ia_columns ia @ ext)) positions cells) p = Some (Some v)"
    from row_scatter_known [OF this] obtain i where
        i: "list_get positions i = Some p" "list_get cells i = Some (Some v)" by blast
    with f(3) have "i < length columns" "positions ! i = p" by (auto simp: list_get_Some_iff)
    with f(4) [of i] i(2) show "\<exists>c i. list_get (ia_columns ia @ ext) p = Some c \<and>
        list_get columns i = Some c \<and> list_get cells i = Some (Some v)"
      by (intro exI [of _ "columns ! i"] exI [of _ i]) (simp add: list_get_Some_iff)
  qed
  then show "rows_known (rows_fold columns new ia) columns new"
    unfolding rows_known_def f(1,2) by fastforce
qed

lemma rows_known_trans:
  assumes "rows_known ia (ia_columns other) (ia_rows other)" "rows_known other cs rows"
  shows "rows_known ia cs rows"
  using assms unfolding rows_known_def by (meson row_known_trans)

lemma ia_fold_known:
  assumes "ia_fold stmt ia = Some ia'"
  shows "rows_known ia cs rows \<Longrightarrow> rows_known ia' cs rows"
    and "rows_known ia' (ins_columns stmt) (ins_rows stmt)"
  using assms rows_fold_known by (auto simp: ia_fold_def split: if_splits)

lemma ia_merge_known:
  assumes "ia_merge other ia = Some ia'"
  shows "rows_known ia cs rows \<Longrightarrow> rows_known ia' cs rows"
    and "rows_known other cs rows \<Longrightarrow> rows_known ia' cs rows"
proof -
  consider "ia_rows ia = []" "ia' = other" | "ia' = rows_fold (ia_columns other) (ia_rows other) ia"
    using assms by (auto simp: ia_merge_def split: if_splits)
  note cases = this
  show "rows_known ia' cs rows" if "rows_known ia cs rows"
  proof (rule cases)
    assume "ia_rows ia = []"
    with that show ?thesis by (auto simp: rows_known_def)
  qed (use that rows_fold_known(1) in blast)
  show "rows_known ia' cs rows" if "rows_known other cs rows"
    by (rule cases) (use that rows_fold_known(2) rows_known_trans in blast)+
qed


lemma has_tuple_push:
  "has_tuple (entry_push k t m) k t"
  "has_tuple m k' t' \<Longrightarrow> has_tuple (entry_push k t m) k' t'"
  by (auto simp: has_tuple_def split: option.splits)

lemma has_tuple_extend:
  shows "has_tuple m k t \<Longrightarrow> has_tuple (extend_all_entries other m) k t"
    and "has_tuple other k t \<Longrightarrow> has_tuple (extend_all_entries other m) k t"
proof -
  have keep: "has_tuple m k t \<Longrightarrow> has_tuple (fold (\<lambda>(k, vs). entry_update [] (\<lambda>ws. ws @ vs) k) other m) k t"
    for other m
    by (induction other arbitrary: m) (auto simp: has_tuple_def split: option.splits)
  then show "has_tuple m k t \<Longrightarrow> has_tuple (extend_all_entries other m) k t"
    by (simp add: extend_all_entries_def)
  have "(k, ts) \<in> set other \<Longrightarrow> t \<in> set ts \<Longrightarrow>
      has_tuple (fold (\<lambda>(k, vs). entry_update [] (\<lambda>ws. ws @ vs) k) other m) k t" for ts
  proof (induction other arbitrary: m)
    case (Cons e other)
    show ?case
    proof (cases "e = (k, ts)")
      case True
      have "has_tuple (entry_update [] (\<lambda>ws. ws @ ts) k m) k t"
        using Cons.prems(2) by (auto simp: has_tuple_def split: option.splits)
      from keep [OF this] show ?thesis by (simp add: True)
    next
      case False
      with Cons show ?thesis by (cases e) auto
    qed
  qed simp
  then show "has_tuple other k t \<Longrightarrow> has_tuple (extend_all_entries other m) k t"
    by (auto simp: has_tuple_def [of other] extend_all_entries_def dest: map_of_SomeD)
qed

text \<open>The order in which an aggregate only gains information.\<close>

definition agg_le :: "table_aggregate \<Rightarrow> table_aggregate \<Rightarrow> bool" where
  "agg_le a b \<longleftrightarrow> tg_opaque b \<or>
     (\<not> tg_opaque a \<and>
      (\<forall>ia. tg_inserts a = Some ia \<longrightarrow>
         (\<exists>ib. tg_inserts b = Some ib \<and> (\<forall>cs rows. rows_known ia cs rows \<longrightarrow> rows_known ib cs rows))) \<and>
      (\<forall>k t. has_tuple (tg_merged_deletes a) k t \<longrightarrow> has_tuple (tg_merged_deletes b) k t) \<and>
      set (tg_deletes a) \<subseteq> set (tg_deletes b) \<and>
      (\<forall>k t. has_tuple (tg_merged_updates a) k t \<longrightarrow> has_tuple (tg_merged_updates b) k t) \<and>
      set (tg_updates a) \<subseteq> set (tg_updates b))"

lemma agg_le_covers: "agg_le a b \<Longrightarrow> agg_covers a w \<Longrightarrow> agg_covers b w"
  by (cases w) (auto simp: agg_le_def split: option.splits)

lemma opaque_degrade [simp]: "tg_opaque (degrade_opaque agg)"
  by (simp add: degrade_opaque_def)

lemma agg_le_degrade [simp]: "agg_le a (degrade_opaque b)"
  by (simp add: agg_le_def)

lemma opaque_covers: "tg_opaque agg \<Longrightarrow> agg_covers agg w"
  by (cases w) auto

lemma record_insert_covers:
  "agg_le agg (record_insert stmt agg)"
  "agg_covers (record_insert stmt agg) (WcInsertRows stmt)"
proof -
  let ?ia = "case tg_inserts agg of None \<Rightarrow> ia_default | Some ia \<Rightarrow> ia"
  note known = ia_fold_known [of stmt ?ia]
  consider "tg_opaque agg" "record_insert stmt agg = agg"
    | "tg_opaque (record_insert stmt agg)"
    | ia' where "\<not> tg_opaque agg" "ia_fold stmt ?ia = Some ia'"
        "record_insert stmt agg = agg\<lparr>tg_inserts := Some ia'\<rparr>"
    by (cases "tg_opaque agg"; cases "ia_fold stmt ?ia") (simp_all add: record_insert_def)
  note cases = this
  show "agg_le agg (record_insert stmt agg)"
    by (rule cases) (auto simp: agg_le_def dest: known(1))
  show "agg_covers (record_insert stmt agg) (WcInsertRows stmt)"
    by (rule cases) (auto dest: known(2))
qed

lemma record_delete_covers:
  "agg_le agg (record_delete stmt agg)"
  "agg_covers (record_delete stmt agg) (WcDeleteRows stmt)"
  by (auto simp: record_delete_def Let_def agg_le_def has_tuple_push split: option.splits)

lemma record_update_covers:
  "agg_le agg (record_update stmt agg)"
  "agg_covers (record_update stmt agg) (WcUpdateRows stmt)"
  by (auto simp: record_update_def Let_def agg_le_def has_tuple_push split: option.splits)

lemma tg_merge_le: "agg_le agg (tg_merge other agg)" "agg_le other (tg_merge other agg)"
proof -
  let ?ia = "case tg_inserts agg of None \<Rightarrow> ia_default | Some ia \<Rightarrow> ia"
  let ?ins = "case tg_inserts other of
      None \<Rightarrow> Some (tg_inserts agg)
    | Some other_inserts \<Rightarrow> map_option Some (ia_merge other_inserts ?ia)"
  have ins: "(\<forall>ia. tg_inserts agg = Some ia \<longrightarrow> (\<exists>ib. inserts = Some ib \<and>
        (\<forall>cs rows. rows_known ia cs rows \<longrightarrow> rows_known ib cs rows))) \<and>
      (\<forall>ia. tg_inserts other = Some ia \<longrightarrow> (\<exists>ib. inserts = Some ib \<and>
        (\<forall>cs rows. rows_known ia cs rows \<longrightarrow> rows_known ib cs rows)))"
    if "?ins = Some inserts" for inserts
  proof (cases "tg_inserts other")
    case None
    with that show ?thesis by auto
  next
    case (Some oi)
    with that obtain ia' where m: "ia_merge oi ?ia = Some ia'" "inserts = Some ia'" by auto
    from ia_merge_known [OF m(1)] m(2) Some show ?thesis by auto
  qed
  let ?m = "\<lambda>inserts. agg\<lparr>tg_inserts := inserts,
      tg_merged_deletes := extend_all_entries (tg_merged_deletes other) (tg_merged_deletes agg),
      tg_merged_updates := extend_all_entries (tg_merged_updates other) (tg_merged_updates agg),
      tg_merged_predicates := tg_merged_predicates agg + tg_merged_predicates other,
      tg_deletes := tg_deletes agg @ tg_deletes other,
      tg_updates := tg_updates agg @ tg_updates other\<rparr>"
  have "tg_opaque (tg_merge other agg) \<or> (\<exists>inserts. \<not> tg_opaque agg \<and> \<not> tg_opaque other \<and>
      ?ins = Some inserts \<and> tg_merge other agg = ?m inserts)"
  proof (cases "tg_opaque agg \<or> tg_opaque other \<or> ?ins = None")
    case True
    then show ?thesis by (auto simp: tg_merge_def)
  next
    case False
    then obtain inserts where i: "?ins = Some inserts" by blast
    with False have "tg_merge other agg = ?m inserts \<or> tg_merge other agg = degrade_opaque (?m inserts)"
      unfolding tg_merge_def Let_def by simp
    with False i show ?thesis by (auto simp del: not_None_eq)
  qed
  then consider "tg_opaque (tg_merge other agg)"
    | inserts where "\<not> tg_opaque agg" "\<not> tg_opaque other" "?ins = Some inserts"
        "tg_merge other agg = ?m inserts"
    by blast
  note cases = this
  show "agg_le agg (tg_merge other agg)"
    by (rule cases) (use ins in \<open>auto simp: agg_le_def has_tuple_extend\<close>)
  show "agg_le other (tg_merge other agg)"
    by (rule cases) (use ins in \<open>auto simp: agg_le_def has_tuple_extend\<close>)
qed


subsection \<open>The caps bound what an aggregate stores\<close>

definition merged_total :: "('k \<times> 'v list) list \<Rightarrow> nat" where
  "merged_total m = sum_list (map (\<lambda>(_, ts). length ts) m)"

definition ia_bounded :: "insert_aggregate \<Rightarrow> bool" where
  "ia_bounded ia \<longleftrightarrow>
     length (ia_rows ia) \<le> insert_merged_rows_cap \<and>
     length (ia_rows ia) * length (ia_columns ia) \<le> insert_merged_cells_cap \<and>
     (\<forall>cells\<in>set (ia_rows ia). length cells \<le> length (ia_columns ia))"

definition agg_bounded :: "table_aggregate \<Rightarrow> bool" where
  "agg_bounded agg \<longleftrightarrow>
     (\<forall>ia. tg_inserts agg = Some ia \<longrightarrow> ia_bounded ia) \<and>
     tg_merged_predicates agg =
       merged_total (tg_merged_deletes agg) + merged_total (tg_merged_updates agg) \<and>
     tg_merged_predicates agg \<le> merged_predicate_cap \<and>
     length (tg_deletes agg) + length (tg_updates agg) \<le> update_delete_predicate_cap \<and>
     (tg_opaque agg \<longrightarrow> \<not> tg_has_row_predicates agg)"

lemma ia_bounded_cells:
  assumes "ia_bounded ia"
  shows "sum_list (map length (ia_rows ia)) \<le> insert_merged_cells_cap"
proof -
  have "sum_list (map length rows) \<le> length rows * n" if "\<forall>r\<in>set rows. length r \<le> n"
    for rows :: "insert_row list" and n
    using that by (induction rows) auto
  from this [of "ia_rows ia" "length (ia_columns ia)"] assms show ?thesis
    by (auto simp: ia_bounded_def)
qed

lemma length_row_scatter: "length (row_scatter width positions vals) = width"
proof -
  have "length (fold (\<lambda>(v, position) cells. cells[position := v]) prs cells) = length cells"
    for prs and cells :: insert_row
    by (induction prs arbitrary: cells) auto
  then show ?thesis by (simp add: row_scatter_def)
qed

lemma rows_fold_bounded:
  assumes "\<forall>cells\<in>set (ia_rows ia). length cells \<le> length (ia_columns ia)"
    and "\<not> caps_exceeded ia columns (length rows)"
  shows "ia_bounded (rows_fold columns rows ia)"
proof -
  obtain ext positions where f: "ia_columns (rows_fold columns rows ia) = ia_columns ia @ ext"
      "length ext \<le> length (filter (\<lambda>c. c \<notin> set (ia_columns ia)) columns)"
      "ia_rows (rows_fold columns rows ia) =
         ia_rows ia @ map (row_scatter (length (ia_columns ia @ ext)) positions) rows"
    by (rule rows_fold_sel [of columns rows ia]) blast
  let ?n = "length (ia_rows ia) + length rows"
  from assms(2) have c: "?n \<le> insert_merged_rows_cap"
      "?n * (length (ia_columns ia) + length (filter (\<lambda>c. c \<notin> set (ia_columns ia)) columns))
         \<le> insert_merged_cells_cap"
    by (auto simp: caps_exceeded_def Let_def not_less)
  have "?n * (length (ia_columns ia) + length ext) \<le> insert_merged_cells_cap"
    by (rule le_trans [OF mult_le_mono2 c(2)]) (use f(2) in simp)
  with c(1) f assms(1) show ?thesis by (auto simp: ia_bounded_def length_row_scatter)
qed

lemma ia_default_bounded [simp]: "ia_bounded ia_default"
  by (simp add: ia_bounded_def ia_default_def)

lemma ia_fold_bounded: "ia_bounded ia \<Longrightarrow> ia_fold stmt ia = Some ia' \<Longrightarrow> ia_bounded ia'"
  using rows_fold_bounded [of ia "ins_columns stmt" "ins_rows stmt"]
  by (auto simp: ia_fold_def ia_bounded_def [of ia] split: if_splits)

lemma ia_merge_bounded:
  "ia_bounded ia \<Longrightarrow> ia_bounded other \<Longrightarrow> ia_merge other ia = Some ia' \<Longrightarrow> ia_bounded ia'"
  using rows_fold_bounded [of ia "ia_columns other" "ia_rows other"]
  by (auto simp: ia_merge_def ia_bounded_def [of ia] split: if_splits)

lemma merged_total_Nil [simp]: "merged_total [] = 0"
  by (simp add: merged_total_def)

lemma merged_total_update:
  "merged_total (AList.update k (ws @ vs) m) = merged_total m + length vs"
  if "ws = (case map_of m k of None \<Rightarrow> [] | Some ws \<Rightarrow> ws)"
  using that by (induction m) (auto simp: merged_total_def split: if_splits)

lemma merged_total_push [simp]: "merged_total (entry_push k t m) = merged_total m + 1"
  using merged_total_update [OF refl, where k = k and vs = "[t]" and m = m] by (simp add: entry_push_def entry_update_def)

lemma merged_total_extend [simp]:
  "merged_total (extend_all_entries other m) = merged_total m + merged_total other"
proof -
  have step: "merged_total (entry_update [] (\<lambda>ws. ws @ vs) k m) = merged_total m + length vs" for k vs m
    using merged_total_update [OF refl, where k = k and vs = vs and m = m] by (simp add: entry_update_def)
  have "merged_total (fold (\<lambda>(k, vs). entry_update [] (\<lambda>ws. ws @ vs) k) other m) =
      merged_total m + merged_total other"
    by (induction other arbitrary: m) (auto simp: step merged_total_def [of "_ # _"] simp flip: merged_total_def)
  then show ?thesis by (simp add: extend_all_entries_def)
qed

lemma degrade_opaque_bounded [simp]: "agg_bounded (degrade_opaque agg)"
  by (simp add: agg_bounded_def degrade_opaque_def tg_has_row_predicates_def)

lemma tg_default_bounded [simp]: "agg_bounded tg_default"
  by (simp add: agg_bounded_def tg_default_def)

lemma record_insert_bounded: "agg_bounded agg \<Longrightarrow> agg_bounded (record_insert stmt agg)"
  using ia_fold_bounded [of "case tg_inserts agg of None \<Rightarrow> ia_default | Some ia \<Rightarrow> ia" stmt]
  by (auto simp: record_insert_def agg_bounded_def [of agg] agg_bounded_def [of "_\<lparr>tg_inserts := _\<rparr>"]
      split: option.splits)

lemma record_delete_bounded: "agg_bounded agg \<Longrightarrow> agg_bounded (record_delete stmt agg)"
  by (auto simp: record_delete_def Let_def split: option.splits) (auto simp: agg_bounded_def)

lemma record_update_bounded: "agg_bounded agg \<Longrightarrow> agg_bounded (record_update stmt agg)"
  by (auto simp: record_update_def Let_def split: option.splits) (auto simp: agg_bounded_def)

lemma tg_merge_bounded:
  assumes "agg_bounded agg" "agg_bounded other"
  shows "agg_bounded (tg_merge other agg)"
proof -
  let ?ia = "case tg_inserts agg of None \<Rightarrow> ia_default | Some ia \<Rightarrow> ia"
  have ia: "ia_bounded ?ia" using assms(1) by (auto simp: agg_bounded_def split: option.splits)
  have "ia_bounded ia'" if "tg_inserts other = Some oi" "ia_merge oi ?ia = Some ia'" for oi ia'
    using ia_merge_bounded [OF ia _ that(2)] that(1) assms(2) by (auto simp: agg_bounded_def)
  with assms show ?thesis
    by (auto simp: tg_merge_def Let_def split: option.splits) (auto simp: agg_bounded_def)
qed

end
