(* ===== verification/Write_Tuples.thy ===== *)
theory Write_Tuples
  imports Write_Aggregate
begin

text \<open>
  The shape-grouped tuple stores of \<^verbatim>\<open>src/proxy/connection/write_log/aggregate.rs\<close> against the
  range maps they replace: a tuple is a per-column equality map stored flat.
\<close>

lemma sorted_no_adjacent_distinct: "sorted xs \<Longrightarrow> \<not> adjacent_equal xs \<Longrightarrow> distinct xs"
  by (induction xs rule: adjacent_equal.induct) (auto simp: order_le_less)

lemma distinct_same_set: "distinct ys \<Longrightarrow> set ys = set xs \<Longrightarrow> length ys = length xs \<Longrightarrow> distinct xs"
  by (metis card_distinct distinct_card)

lemma equality_tuple_build_iff:
  assumes "equality_tuple_build comparisons = Some (columns, tuple)"
  shows "distinct (map fst comparisons)"
    and "(c, op, v) \<in> set comparisons \<longleftrightarrow>
           op = Equal \<and> (\<exists>p. list_get columns p = Some c \<and> list_get tuple p = Some v)"
proof -
  define ps where "ps = map (\<lambda>(column, _ :: binary_op, v). (column, v)) comparisons"
  from assms have eq: "columns = map fst (sort_key fst ps)" "tuple = map snd (sort_key fst ps)"
      and ops: "\<forall>(c, op, v)\<in>set comparisons. op = Equal"
      and adj: "\<not> adjacent_equal (map fst (sort_key fst ps))"
    by (auto simp: equality_tuple_build_def Let_def list_ex_iff ps_def split: if_splits)
  have sorted: "distinct (map fst (sort_key fst ps))"
    by (rule sorted_no_adjacent_distinct [OF _ adj]) simp
  have "map fst ps = map fst comparisons" by (simp add: ps_def comp_def case_prod_unfold)
  then have fsts: "set (map fst (sort_key fst ps)) = set (map fst comparisons)"
      "length (map fst (sort_key fst ps)) = length (map fst comparisons)"
    by (metis set_map set_sort, metis length_map length_sort)
  show "distinct (map fst comparisons)" by (rule distinct_same_set [OF sorted fsts])
  show "(c, op, v) \<in> set comparisons \<longleftrightarrow>
      op = Equal \<and> (\<exists>p. list_get columns p = Some c \<and> list_get tuple p = Some v)"
  proof
    assume m: "(c, op, v) \<in> set comparisons"
    then have "(c, v) \<in> set (sort_key fst ps)" by (force simp: ps_def)
    then obtain p where p: "p < length (sort_key fst ps)" "sort_key fst ps ! p = (c, v)"
      unfolding in_set_conv_nth by blast
    then have "list_get columns p = Some c" "list_get tuple p = Some v"
      by (simp_all add: eq list_get_Some_iff)
    with m ops show "op = Equal \<and> (\<exists>p. list_get columns p = Some c \<and> list_get tuple p = Some v)" by auto
  qed (use equality_tuple_build_member [OF assms] in blast)
qed

lemma update_fresh_key: "k \<notin> fst ` set m \<Longrightarrow> AList.update k v m = m @ [(k, v)]"
  by (induction m) auto

lemma comparison_groups_distinct:
  assumes "distinct (map fst m @ map fst comparisons)"
  shows "fold (\<lambda>(column, op, v) by_column. entry_push column (Comparison column op v) by_column)
           comparisons m = m @ map (\<lambda>(c, op, v). (c, [Comparison c op v])) comparisons"
  using assms
proof (induction comparisons arbitrary: m)
  case (Cons x comparisons)
  obtain c op v where x: "x = (c, op, v)" by (cases x)
  with Cons.prems have "c \<notin> fst ` set m" by auto
  then have "entry_push c (Comparison c op v) m = m @ [(c, [Comparison c op v])]"
    by (simp add: entry_push_def entry_update_def update_fresh_key map_of_eq_None_iff [THEN iffD2])
  with Cons.IH [of "m @ [(c, [Comparison c op v])]"] Cons.prems show ?case by (simp add: x)
qed simp

definition equal_range :: "literal_value \<Rightarrow> column_range" where
  "equal_range v = (if literal_value_is_incomparable v then RUnknown else REqual v)"

lemma column_range_build_single: "column_range_build [Comparison c Equal v] = equal_range v"
  by (simp add: column_range_build_def comparison_range_build_def comparison_step_def cmp_state_new_def
      comparison_finish_def equal_range_def)

lemma literal_value_eq_sym: "literal_value_eq a b = literal_value_eq b a"
  by (cases a; cases b) auto

lemma incomparable_eq:
  "literal_value_is_incomparable a \<Longrightarrow> literal_value_eq b a = None"
  "literal_value_is_incomparable a \<Longrightarrow> literal_value_eq a b = None"
  by (cases a; cases b; auto)+

lemma disjoint_equal:
  "r \<noteq> REmpty \<Longrightarrow> column_range_disjoint r (REqual v) \<longleftrightarrow> column_range_contains r v = Some False"
  by (cases r) (auto simp: column_range_contains_def literal_value_eq_sym incomparable_eq)

lemma disjoint_equal_range:
  assumes "r \<noteq> REmpty"
  shows "column_range_disjoint r (equal_range v) \<longleftrightarrow> column_range_contains r v = Some False"
proof (cases "literal_value_is_incomparable v")
  case True
  then have "column_range_contains r v = None" by (simp add: column_range_contains_def)
  with True assms show ?thesis by (cases r) (auto simp: equal_range_def)
qed (use disjoint_equal [OF assms] in \<open>simp add: equal_range_def\<close>)

lemma equality_ranges:
  assumes "equality_tuple_build comparisons = Some (columns, tuple)"
  shows "column_ranges_from_comparisons comparisons =
           map (\<lambda>(c, op, v). (c, equal_range v)) comparisons"
proof -
  from equality_tuple_build_iff(2) [OF assms] have "\<forall>(c, op, v)\<in>set comparisons. op = Equal" by auto
  with comparison_groups_distinct [of "[]" comparisons] equality_tuple_build_iff(1) [OF assms]
  show ?thesis by (auto simp: column_ranges_from_comparisons_def column_range_build_single)
qed

lemma equality_ranges_lookup:
  assumes "equality_tuple_build comparisons = Some (columns, tuple)"
  shows "map_of (column_ranges_from_comparisons comparisons) c = Some r \<longleftrightarrow>
           (\<exists>v. (c, Equal, v) \<in> set comparisons \<and> r = equal_range v)"
    and "\<not> has_empty (column_ranges_from_comparisons comparisons)"
proof -
  have "distinct (map fst (map (\<lambda>(c, op, v). (c, equal_range v)) comparisons))"
    using equality_tuple_build_iff(1) [OF assms] by (simp add: comp_def case_prod_unfold)
  note lookup = map_of_Some_iff [OF this, of c r]
  have ops: "op = Equal" if "(c, op, v) \<in> set comparisons" for c op v
    using equality_tuple_build_iff(2) [OF assms] that by blast
  have mem: "map_of (map (\<lambda>(c, op, v). (c, equal_range v)) comparisons) c = Some r \<longleftrightarrow>
      (\<exists>op v. (c, op, v) \<in> set comparisons \<and> r = equal_range v)"
    unfolding lookup by force
  show "map_of (column_ranges_from_comparisons comparisons) c = Some r \<longleftrightarrow>
      (\<exists>v. (c, Equal, v) \<in> set comparisons \<and> r = equal_range v)"
    unfolding equality_ranges [OF assms] mem using ops by blast
  show "\<not> has_empty (column_ranges_from_comparisons comparisons)"
    unfolding equality_ranges [OF assms] by (auto simp: has_empty_def list_ex_iff equal_range_def split: if_splits)
qed

lemma column_ranges_disjoint_iff:
  assumes "distinct (map fst a)" "\<not> has_empty a" "\<not> has_empty b"
  shows "column_ranges_disjoint a b \<longleftrightarrow>
           (\<exists>c ra rb. map_of a c = Some ra \<and> map_of b c = Some rb \<and> column_range_disjoint ra rb)"
proof -
  have "column_ranges_disjoint a b \<longleftrightarrow>
      (\<exists>(c, ra)\<in>set a. case map_of b c of None \<Rightarrow> False | Some rb \<Rightarrow> column_range_disjoint ra rb)"
    using assms(2,3) by (simp add: column_ranges_disjoint_def has_empty_def list_ex_iff)
  also have "\<dots> \<longleftrightarrow> (\<exists>c ra rb. (c, ra) \<in> set a \<and> map_of b c = Some rb \<and> column_range_disjoint ra rb)"
    by (force split: option.splits)
  finally show ?thesis unfolding map_of_Some_iff [OF assms(1)] .
qed

lemma not_has_empty_lookup: "\<not> has_empty rs \<Longrightarrow> map_of rs c = Some r \<Longrightarrow> r \<noteq> REmpty"
  by (auto simp: has_empty_def list_ex_iff dest: map_of_SomeD)

lemma tuple_excluded_iff:
  assumes build: "equality_tuple_build comparisons = Some (columns, tuple)"
  shows "list_ex (value_excluded tuple) (filter (\<lambda>(p, _). Q p) (constrained_positions columns rs)) \<longleftrightarrow>
           (\<exists>p c r v. Q p \<and> list_get columns p = Some c \<and> (c, Equal, v) \<in> set comparisons \<and>
              list_get tuple p = Some v \<and> map_of rs c = Some r \<and> column_range_contains r v = Some False)"
proof -
  have ve: "value_excluded tuple (p, r) \<longleftrightarrow>
      (\<exists>v. list_get tuple p = Some v \<and> column_range_contains r v = Some False)" for p r
    by (auto simp: value_excluded_def split: option.splits)
  show ?thesis
    unfolding list_ex_iff using equality_tuple_build_member [OF build]
    by (auto simp: in_constrained_positions ve)
qed

lemma merged_delete_equivalent:
  assumes build: "equality_tuple_build comparisons = Some (columns, tuple)"
    and rs: "distinct (map fst read_ranges)" "\<not> has_empty read_ranges"
  shows "list_ex (value_excluded tuple) (constrained_positions columns read_ranges) \<longleftrightarrow>
           column_ranges_disjoint read_ranges (column_ranges_from_comparisons comparisons)"
proof -
  have "list_ex (value_excluded tuple) (constrained_positions columns read_ranges) \<longleftrightarrow>
      list_ex (value_excluded tuple) (filter (\<lambda>(p, _). True) (constrained_positions columns read_ranges))"
    by simp
  also have "\<dots> \<longleftrightarrow> (\<exists>c r v. (c, Equal, v) \<in> set comparisons \<and> map_of read_ranges c = Some r \<and>
      column_range_contains r v = Some False)"
    unfolding tuple_excluded_iff [OF build] using equality_tuple_build_iff(2) [OF build] by blast
  also have "\<dots> \<longleftrightarrow> (\<exists>c ra rb. map_of read_ranges c = Some ra \<and>
      map_of (column_ranges_from_comparisons comparisons) c = Some rb \<and> column_range_disjoint ra rb)"
    unfolding equality_ranges_lookup(1) [OF build]
    using disjoint_equal_range not_has_empty_lookup [OF rs(2)] by blast
  also have "\<dots> \<longleftrightarrow> column_ranges_disjoint read_ranges (column_ranges_from_comparisons comparisons)"
    by (rule column_ranges_disjoint_iff [OF rs equality_ranges_lookup(2) [OF build], symmetric])
  finally show ?thesis .
qed

lemma image_lookup:
  assumes build: "update_tuple_build update = Some ((where_columns, set_columns), (where_values, set_values))"
  shows "map_of (up_image_ranges (update_predicate_build update)) c = Some r \<longleftrightarrow>
           (\<exists>v. (c, Equal, v) \<in> set (upd_where_comparisons update) \<and> c \<notin> set set_columns \<and> r = equal_range v) \<or>
           (\<exists>v. (c, Some v) \<in> set (upd_set update) \<and> r = REqual v)"
    and "\<not> has_empty (up_image_ranges (update_predicate_build update))"
proof -
  note parts = update_tuple_build_parts [OF build]
  let ?where = "column_ranges_from_comparisons (upd_where_comparisons update)"
  have rev: "map_of (rev (upd_set update)) c = Some w \<longleftrightarrow> (c, w) \<in> set (upd_set update)" for c w
    using map_of_Some_iff [of "rev (upd_set update)" c w] parts(2) by (simp add: rev_map [symmetric])
  have none: "map_of (rev (upd_set update)) c = None \<longleftrightarrow> c \<notin> set set_columns" for c
    by (simp add: map_of_eq_None_iff parts(3))
  show lookup: "map_of (up_image_ranges (update_predicate_build update)) c = Some r \<longleftrightarrow>
      (\<exists>v. (c, Equal, v) \<in> set (upd_where_comparisons update) \<and> c \<notin> set set_columns \<and> r = equal_range v) \<or>
      (\<exists>v. (c, Some v) \<in> set (upd_set update) \<and> r = REqual v)" for c r
  proof (cases "map_of (rev (upd_set update)) c")
    case None
    then have "(c, Some v) \<notin> set (upd_set update)" for v using rev [of c "Some v"] by simp
    with None none [of c] show ?thesis
      by (simp add: image_ranges_eq map_of_image_steps equality_ranges_lookup(1) [OF parts(1)])
  next
    case (Some w)
    then have "c \<in> set set_columns" using none [of c] by auto
    moreover have "(c, Some v) \<in> set (upd_set update) \<longleftrightarrow> w = Some v" for v
      using rev [of c "Some v"] Some by auto
    ultimately show ?thesis using Some by (cases w) (auto simp: image_ranges_eq map_of_image_steps)
  qed
  have "distinct (map fst (up_image_ranges (update_predicate_build update)))"
    unfolding image_ranges_eq by (rule distinct_image_steps [OF distinct_comparison_ranges])
  note mem = map_of_Some_iff [OF this, symmetric]
  have "equal_range v \<noteq> REmpty" for v by (simp add: equal_range_def)
  then have "(c, REmpty) \<notin> set (up_image_ranges (update_predicate_build update))" for c
    unfolding mem lookup by (metis column_range.distinct)
  then show "\<not> has_empty (up_image_ranges (update_predicate_build update))"
    by (auto simp: has_empty_def list_ex_iff)
qed

lemma merged_update_equivalent:
  assumes build: "update_tuple_build update = Some ((where_columns, set_columns), (where_values, set_values))"
    and rs: "distinct (map fst read_ranges)" "\<not> has_empty read_ranges"
  shows "list_ex (value_excluded where_values)
           (filter (\<lambda>(p, _). case list_get where_columns p of Some c \<Rightarrow> c \<notin> set set_columns | None \<Rightarrow> False)
             (constrained_positions where_columns read_ranges)) \<or>
         list_ex (cell_excluded set_values) (constrained_positions set_columns read_ranges) \<longleftrightarrow>
           column_ranges_disjoint read_ranges (up_image_ranges (update_predicate_build update))"
proof -
  note parts = update_tuple_build_parts [OF build]
  have Q: "(case list_get where_columns p of Some c \<Rightarrow> c \<notin> set set_columns | None \<Rightarrow> False) \<longleftrightarrow>
      (\<exists>c. list_get where_columns p = Some c \<and> c \<notin> set set_columns)" for p
    by (simp split: option.split)
  have entry: "\<exists>p. list_get where_columns p = Some c \<and> list_get where_values p = Some v"
    if "(c, Equal, v) \<in> set (upd_where_comparisons update)" for c v
    using equality_tuple_build_iff(2) [OF parts(1)] that by blast
  have "list_ex (value_excluded where_values)
           (filter (\<lambda>(p, _). case list_get where_columns p of Some c \<Rightarrow> c \<notin> set set_columns | None \<Rightarrow> False)
             (constrained_positions where_columns read_ranges)) \<longleftrightarrow>
      (\<exists>c r v. (c, Equal, v) \<in> set (upd_where_comparisons update) \<and> c \<notin> set set_columns \<and>
         map_of read_ranges c = Some r \<and> column_range_contains r v = Some False)"
    unfolding tuple_excluded_iff [OF parts(1)] Q using entry by (metis option.inject)
  moreover have "list_ex (cell_excluded set_values) (constrained_positions set_columns read_ranges) \<longleftrightarrow>
      (\<exists>c r v. (c, Some v) \<in> set (upd_set update) \<and> map_of read_ranges c = Some r \<and>
         column_range_contains r v = Some False)"
  proof -
    have "(c, w) \<in> set (upd_set update) \<longleftrightarrow>
        (\<exists>p. list_get set_columns p = Some c \<and> list_get set_values p = Some w)" for c w
    proof
      assume "(c, w) \<in> set (upd_set update)"
      then have "(c, w) \<in> set (sort_key fst (upd_set update))" by simp
      then show "\<exists>p. list_get set_columns p = Some c \<and> list_get set_values p = Some w"
        unfolding parts(3,4) in_set_conv_nth by (auto simp: list_get_Some_iff)
    qed (use list_get_pair [of "sort_key fst (upd_set update)"] parts(3,4) in auto)
    then show ?thesis
      unfolding list_ex_iff Bex_def split_paired_Ex in_constrained_positions cell_excluded_iff by blast
  qed
  moreover have "column_ranges_disjoint read_ranges (up_image_ranges (update_predicate_build update)) \<longleftrightarrow>
      (\<exists>c r v. (c, Equal, v) \<in> set (upd_where_comparisons update) \<and> c \<notin> set set_columns \<and>
         map_of read_ranges c = Some r \<and> column_range_contains r v = Some False) \<or>
      (\<exists>c r v. (c, Some v) \<in> set (upd_set update) \<and> map_of read_ranges c = Some r \<and>
         column_range_contains r v = Some False)" (is "_ \<longleftrightarrow> ?rhs")
  proof -
    have e: "column_range_disjoint r (equal_range v) \<longleftrightarrow> column_range_contains r v = Some False"
        "column_range_disjoint r (REqual v) \<longleftrightarrow> column_range_contains r v = Some False"
      if "map_of read_ranges c = Some r" for c r v
      using disjoint_equal_range disjoint_equal not_has_empty_lookup [OF rs(2) that] by auto
    have "column_ranges_disjoint read_ranges (up_image_ranges (update_predicate_build update)) \<longleftrightarrow>
        (\<exists>c ra rb. map_of read_ranges c = Some ra \<and>
          map_of (up_image_ranges (update_predicate_build update)) c = Some rb \<and> column_range_disjoint ra rb)"
      by (rule column_ranges_disjoint_iff [OF rs image_lookup(2) [OF build]])
    also have "\<dots> \<longleftrightarrow>
        (\<exists>c ra v. map_of read_ranges c = Some ra \<and>
          (c, Equal, v) \<in> set (upd_where_comparisons update) \<and> c \<notin> set set_columns \<and>
          column_range_disjoint ra (equal_range v)) \<or>
        (\<exists>c ra v. map_of read_ranges c = Some ra \<and> (c, Some v) \<in> set (upd_set update) \<and>
          column_range_disjoint ra (REqual v))"
      unfolding image_lookup(1) [OF build] by blast
    also have "\<dots> \<longleftrightarrow> ?rhs" using e by (simp cong: conj_cong) blast
    finally show ?thesis .
  qed
  ultimately show ?thesis by simp
qed

text \<open>
  C32. The tuple stores are an optimisation of the per-statement range maps. For a DELETE whose
  predicate merges, a read is disjoint from its tuple exactly if it is disjoint from the range
  map of the predicate. For an UPDATE that merges, a read is disjoint from its tuples exactly if
  it is disjoint from the range map of the WHERE clause and from that of the post-update image.
\<close>

theorem merged_store_equivalent:
  assumes rs: "distinct (map fst read_ranges)"
  shows "(equality_tuple_build (del_comparisons delete) = Some (columns, tuple) \<longrightarrow>
            merged_tuples_disjoint [(columns, [tuple])] read_ranges =
            column_ranges_disjoint read_ranges (column_ranges_from_comparisons (del_comparisons delete))) \<and>
         (update_tuple_build update = Some (shape, upd_tuple) \<longrightarrow>
            merged_updates_disjoint [(shape, [upd_tuple])] read_ranges =
            (column_ranges_disjoint read_ranges (up_where_ranges (update_predicate_build update)) \<and>
             column_ranges_disjoint read_ranges (up_image_ranges (update_predicate_build update))))"
proof (cases "has_empty read_ranges")
  case True
  then show ?thesis
    by (simp add: merged_tuples_disjoint_def merged_updates_disjoint_def column_ranges_disjoint_def
        has_empty_def)
next
  case False
  have whr: "up_where_ranges (update_predicate_build update) =
      column_ranges_from_comparisons (upd_where_comparisons update)"
    by (simp add: update_predicate_build_def Let_def)
  obtain wc sc wv sv where st: "shape = (wc, sc)" "upd_tuple = (wv, sv)" by (cases shape; cases upd_tuple)
  show ?thesis
  proof (intro conjI impI)
    assume b: "equality_tuple_build (del_comparisons delete) = Some (columns, tuple)"
    from merged_delete_equivalent [OF b rs False] False
    show "merged_tuples_disjoint [(columns, [tuple])] read_ranges =
        column_ranges_disjoint read_ranges (column_ranges_from_comparisons (del_comparisons delete))"
      by (cases "constrained_positions columns read_ranges")
        (simp_all add: merged_tuples_disjoint_def Let_def)
  next
    assume "update_tuple_build update = Some (shape, upd_tuple)"
    then have b: "update_tuple_build update = Some ((wc, sc), (wv, sv))" by (simp add: st)
    from merged_update_equivalent [OF b rs False]
      merged_delete_equivalent [OF update_tuple_build_parts(1) [OF b] rs False] False
    show "merged_updates_disjoint [(shape, [upd_tuple])] read_ranges =
        (column_ranges_disjoint read_ranges (up_where_ranges (update_predicate_build update)) \<and>
         column_ranges_disjoint read_ranges (up_image_ranges (update_predicate_build update)))"
      by (simp add: merged_updates_disjoint_def Let_def st whr)
  qed
qed

theorem merged_store_equivalent_witness:
  "merged_tuples_disjoint [([''a'', ''b''], [[LInteger 1, LInteger 2]])] [(''b'', REqual (LInteger 3))] =
     column_ranges_disjoint [(''b'', REqual (LInteger 3))]
       (column_ranges_from_comparisons [(''b'', Equal, LInteger 2), (''a'', Equal, LInteger 1)])"
  using merged_store_equivalent
    [of "[(''b'', REqual (LInteger 3))]"
        "\<lparr>del_relation = \<lparr>rr_schema = None, rr_name = ''t''\<rparr>,
          del_comparisons = [(''b'', Equal, LInteger 2), (''a'', Equal, LInteger 1)]\<rparr>"
        "[''a'', ''b'']" "[LInteger 1, LInteger 2]"]
  by (simp add: equality_tuple_build_def)

end
