(* ===== verification/Write_Log.thy ===== *)
theory Write_Log
  imports Write_Aggregate
begin

text \<open>
  The per-connection write log: tier queues per table
  (\<^verbatim>\<open>src/proxy/connection/write_log/tiers.rs\<close>), recording, stamping, purging and the verdict for a
  read (\<^verbatim>\<open>src/proxy/connection/write_log/log.rs\<close>, \<^verbatim>\<open>mod.rs\<close>).

  Hash maps are association lists, LSNs and sequence numbers are natural numbers, and the tables of
  a read are the list of its table nodes in traversal order. The time a tier was stamped only feeds
  a metric and is left out.
\<close>

subsection \<open>Verdicts\<close>

type_synonym lsn = nat

datatype raw_blocker = Unstamped | Stamped lsn

fun raw_blocker_merge :: "raw_blocker \<Rightarrow> raw_blocker \<Rightarrow> raw_blocker" where
  "raw_blocker_merge (Stamped a) (Stamped b) = Stamped (max a b)"
| "raw_blocker_merge _ _ = Unstamped"

datatype raw_forward_reason = RfrTable | RfrConnection

datatype raw_decision =
    RdServe
  | RdServeDisjoint disjoint_kinds
  | RdForward raw_forward_reason raw_blocker

datatype raw_forward_cause = RfcUnstamped | RfcDeliveryLag | RfcApplyLag

fun forward_cause :: "raw_blocker \<Rightarrow> lsn option \<Rightarrow> raw_forward_cause" where
  "forward_cause Unstamped _ = RfcUnstamped"
| "forward_cause (Stamped bound) (Some received) =
     (if bound \<le> received then RfcApplyLag else RfcDeliveryLag)"
| "forward_cause (Stamped bound) None = RfcDeliveryLag"

subsection \<open>Tiers\<close>

definition waiting_tiers_max :: nat where "waiting_tiers_max = 8"

record waiting_tier =
  wt_bound :: lsn
  wt_aggregate :: table_aggregate

record table_tiers =
  tt_waiting :: "waiting_tier list"
  tt_active :: "(nat \<times> table_aggregate) option"

definition tt_default :: table_tiers where
  "tt_default = \<lparr>tt_waiting = [], tt_active = None\<rparr>"

definition tt_is_empty :: "table_tiers \<Rightarrow> bool" where
  "tt_is_empty t \<longleftrightarrow> tt_waiting t = [] \<and> tt_active t = None"

text \<open>\<open>active_mut\<close> with the update its caller applies to the aggregate it returns.\<close>

definition active_mut :: "nat \<Rightarrow> (table_aggregate \<Rightarrow> table_aggregate) \<Rightarrow> table_tiers \<Rightarrow> table_tiers" where
  "active_mut seq f t =
     t\<lparr>tt_active := Some (seq, f (case tt_active t of None \<Rightarrow> tg_default | Some (_, agg) \<Rightarrow> agg))\<rparr>"

definition tt_stamp :: "nat \<Rightarrow> lsn \<Rightarrow> table_tiers \<Rightarrow> table_tiers" where
  "tt_stamp stamp_seq lsn t =
     (case tt_active t of
        None \<Rightarrow> t
      | Some (latest_seq, agg) \<Rightarrow>
          if \<not> latest_seq \<le> stamp_seq then t
          else if waiting_tiers_max \<le> length (tt_waiting t) \<and> tt_waiting t \<noteq> [] then
            (let newest = last (tt_waiting t) in
             t\<lparr>tt_active := None,
               tt_waiting := butlast (tt_waiting t) @
                 [\<lparr>wt_bound = max (wt_bound newest) lsn,
                   wt_aggregate = tg_merge agg (wt_aggregate newest)\<rparr>]\<rparr>)
          else t\<lparr>tt_active := None,
                 tt_waiting := tt_waiting t @ [\<lparr>wt_bound = lsn, wt_aggregate = agg\<rparr>]\<rparr>)"

definition aggregates_bounded :: "table_tiers \<Rightarrow> (lsn option \<times> table_aggregate) list" where
  "aggregates_bounded t =
     map (\<lambda>tier. (Some (wt_bound tier), wt_aggregate tier)) (tt_waiting t) @
     (case tt_active t of None \<Rightarrow> [] | Some (_, agg) \<Rightarrow> [(None, agg)])"

definition aggregates :: "table_tiers \<Rightarrow> table_aggregate list" where
  "aggregates t = map snd (aggregates_bounded t)"

record connection_tiers =
  ct_waiting :: "lsn option"
  ct_active :: "nat option"
  ct_unstampable :: bool

definition ct_default :: connection_tiers where
  "ct_default = \<lparr>ct_waiting = None, ct_active = None, ct_unstampable = False\<rparr>"

definition ct_is_empty :: "connection_tiers \<Rightarrow> bool" where
  "ct_is_empty c \<longleftrightarrow> ct_waiting c = None \<and> ct_active c = None \<and> \<not> ct_unstampable c"

definition ct_blocker :: "connection_tiers \<Rightarrow> raw_blocker" where
  "ct_blocker c =
     (if ct_active c \<noteq> None \<or> ct_unstampable c then Unstamped
      else (case ct_waiting c of None \<Rightarrow> Unstamped | Some lsn \<Rightarrow> Stamped lsn))"

definition ct_stamp :: "nat \<Rightarrow> lsn \<Rightarrow> connection_tiers \<Rightarrow> connection_tiers" where
  "ct_stamp stamp_seq lsn c =
     (if ct_unstampable c then c
      else (case ct_active c of
              None \<Rightarrow> c
            | Some latest_seq \<Rightarrow>
                if \<not> latest_seq \<le> stamp_seq then c
                else c\<lparr>ct_active := None,
                       ct_waiting := Some (case ct_waiting c of None \<Rightarrow> lsn | Some prior \<Rightarrow> max lsn prior)\<rparr>))"

subsection \<open>The log\<close>

type_synonym schema_bucket = "(string option \<times> table_tiers) list"

record write_log =
  wl_tables :: "(string \<times> schema_bucket) list"
  wl_connection :: connection_tiers
  wl_next_seq :: nat
  wl_enabled :: bool

definition with_enabled :: "bool \<Rightarrow> write_log" where
  "with_enabled enabled =
     \<lparr>wl_tables = [], wl_connection = ct_default, wl_next_seq = 0, wl_enabled = enabled\<rparr>"

definition wl_disable :: "write_log \<Rightarrow> write_log" where
  "wl_disable wl = wl\<lparr>wl_enabled := False, wl_tables := [], wl_connection := ct_default\<rparr>"

definition wl_is_empty :: "write_log \<Rightarrow> bool" where
  "wl_is_empty wl \<longleftrightarrow> wl_tables wl = [] \<and> ct_is_empty (wl_connection wl)"

definition wl_tiers :: "write_log \<Rightarrow> table_tiers list" where
  "wl_tiers wl = concat (map (\<lambda>(_, bucket). map snd bucket) (wl_tables wl))"

definition wl_has_row_predicates :: "write_log \<Rightarrow> bool" where
  "wl_has_row_predicates wl =
     list_ex (\<lambda>tiers. list_ex tg_has_row_predicates (aggregates tiers)) (wl_tiers wl)"

definition table_active ::
  "relation_ref \<Rightarrow> nat \<Rightarrow> (table_aggregate \<Rightarrow> table_aggregate) \<Rightarrow> write_log \<Rightarrow> write_log" where
  "table_active relation seq f wl =
     wl\<lparr>wl_tables :=
           entry_update [] (entry_update tt_default (active_mut seq f) (rr_schema relation))
             (rr_name relation) (wl_tables wl)\<rparr>"

fun record_class :: "nat \<Rightarrow> write_class \<Rightarrow> write_log \<Rightarrow> write_log" where
  "record_class seq (WcInsertRows s) wl = table_active (ins_relation s) seq (record_insert s) wl"
| "record_class seq (WcDeleteRows s) wl = table_active (del_relation s) seq (record_delete s) wl"
| "record_class seq (WcUpdateRows s) wl = table_active (upd_relation s) seq (record_update s) wl"
| "record_class seq (WcTable relation) wl = table_active relation seq degrade_opaque wl"
| "record_class seq WcConnection wl =
     wl\<lparr>wl_connection := (wl_connection wl)\<lparr>ct_active := Some seq\<rparr>\<rparr>"
| "record_class seq WcConnectionUnstampable wl =
     wl\<lparr>wl_connection := \<lparr>ct_waiting = None, ct_active = None, ct_unstampable = True\<rparr>, wl_tables := []\<rparr>"

definition wl_record :: "write_class \<Rightarrow> write_log \<Rightarrow> write_log" where
  "wl_record class wl =
     (if \<not> wl_enabled wl then wl
      else (let seq = wl_next_seq wl; wl' = wl\<lparr>wl_next_seq := wl_next_seq wl + 1\<rparr>
            in if ct_unstampable (wl_connection wl') then wl' else record_class seq class wl'))"

definition wl_stamp_seq :: "write_log \<Rightarrow> nat option" where
  "wl_stamp_seq wl =
     (case List.map_filter (\<lambda>tiers. map_option fst (tt_active tiers)) (wl_tiers wl) @
           (case ct_active (wl_connection wl) of None \<Rightarrow> [] | Some seq \<Rightarrow> [seq]) of
        [] \<Rightarrow> None
      | seqs \<Rightarrow> Some (Max (set seqs)))"

definition wl_stamp :: "nat \<Rightarrow> lsn \<Rightarrow> write_log \<Rightarrow> write_log" where
  "wl_stamp stamp_seq lsn wl =
     wl\<lparr>wl_tables :=
           map (\<lambda>(name, bucket). (name, map (\<lambda>(schema, tiers). (schema, tt_stamp stamp_seq lsn tiers)) bucket))
             (wl_tables wl),
         wl_connection := ct_stamp stamp_seq lsn (wl_connection wl)\<rparr>"

definition tt_purge :: "lsn \<Rightarrow> table_tiers \<Rightarrow> table_tiers" where
  "tt_purge watermark t = t\<lparr>tt_waiting := filter (\<lambda>tier. wt_bound tier > watermark) (tt_waiting t)\<rparr>"

definition bucket_purge :: "lsn \<Rightarrow> schema_bucket \<Rightarrow> schema_bucket" where
  "bucket_purge watermark bucket =
     filter (\<lambda>(_, tiers). \<not> tt_is_empty tiers)
       (map (\<lambda>(schema, tiers). (schema, tt_purge watermark tiers)) bucket)"

definition wl_purge :: "lsn \<Rightarrow> write_log \<Rightarrow> write_log" where
  "wl_purge watermark wl =
     wl\<lparr>wl_tables :=
           filter (\<lambda>(_, bucket). bucket \<noteq> [])
             (map (\<lambda>(name, bucket). (name, bucket_purge watermark bucket)) (wl_tables wl)),
         wl_connection :=
           (case ct_waiting (wl_connection wl) of
              Some lsn \<Rightarrow> if lsn \<le> watermark then (wl_connection wl)\<lparr>ct_waiting := None\<rparr> else wl_connection wl
            | None \<Rightarrow> wl_connection wl)\<rparr>"

subsection \<open>The verdict for a read\<close>

record table_node =
  tn_schema :: "string option"
  tn_name :: string
  tn_alias :: "table_alias option"

fun schema_matches :: "string option \<Rightarrow> string option \<Rightarrow> bool" where
  "schema_matches (Some a) (Some b) = (a = b)"
| "schema_matches _ _ = True"

definition tier_check ::
  "range_map option \<Rightarrow> lsn option \<times> table_aggregate \<Rightarrow> raw_blocker option \<times> disjoint_kinds
   \<Rightarrow> raw_blocker option \<times> disjoint_kinds" where
  "tier_check read_ranges ba st =
     (let (bound, agg) = ba; (blocker, kinds) = st; (hit, kinds') = aggregate_intersects agg read_ranges kinds
      in if hit then
           (let tier = (case bound of None \<Rightarrow> Unstamped | Some lsn \<Rightarrow> Stamped lsn)
            in (Some (case blocker of None \<Rightarrow> tier | Some prior \<Rightarrow> raw_blocker_merge prior tier), kinds'))
         else (blocker, kinds'))"

definition table_intersects ::
  "write_log \<Rightarrow> table_node \<Rightarrow> range_map option \<Rightarrow> disjoint_kinds \<Rightarrow> raw_blocker option \<times> disjoint_kinds" where
  "table_intersects wl table read_ranges kinds =
     (case map_of (wl_tables wl) (tn_name table) of
        None \<Rightarrow> (None, kinds)
      | Some bucket \<Rightarrow>
          fold (\<lambda>(schema, tiers) st.
                  if \<not> schema_matches schema (tn_schema table) then st
                  else fold (tier_check read_ranges) (aggregates_bounded tiers) st)
            bucket (None, kinds))"

fun tables_walk ::
  "write_log \<Rightarrow> range_map option \<Rightarrow> table_node list \<Rightarrow> disjoint_kinds \<Rightarrow> raw_blocker + disjoint_kinds" where
  "tables_walk wl read_ranges [] kinds = Inr kinds"
| "tables_walk wl read_ranges (table # tables) kinds =
     (case table_intersects wl table read_ranges kinds of
        (Some blocker, _) \<Rightarrow> Inl blocker
      | (None, kinds') \<Rightarrow> tables_walk wl read_ranges tables kinds')"

definition dk_default :: disjoint_kinds where
  "dk_default = \<lparr>dk_insert = False, dk_delete = False, dk_update = False\<rparr>"

definition wl_decide :: "write_log \<Rightarrow> table_node list \<Rightarrow> range_map option \<Rightarrow> raw_decision" where
  "wl_decide wl tables read_ranges =
     (if \<not> ct_is_empty (wl_connection wl) then RdForward RfrConnection (ct_blocker (wl_connection wl))
      else (case tables_walk wl read_ranges tables dk_default of
              Inl blocker \<Rightarrow> RdForward RfrTable blocker
            | Inr kinds \<Rightarrow> if dk_any kinds then RdServeDisjoint kinds else RdServe))"

definition table_has_row_predicate :: "write_log \<Rightarrow> table_node \<Rightarrow> bool" where
  "table_has_row_predicate wl table =
     (case map_of (wl_tables wl) (tn_name table) of
        None \<Rightarrow> False
      | Some bucket \<Rightarrow>
          list_ex (\<lambda>(schema, tiers). schema_matches schema (tn_schema table) \<and>
                     list_ex tg_has_row_predicates (aggregates tiers)) bucket)"


subsection \<open>Runs of the log with the writes still pending\<close>

text \<open>
  A ghost list holds the writes recorded so far that replication has not applied yet. The commit
  position of the write with sequence number \<open>seq\<close> is \<open>commit seq\<close>, which the proxy does not
  know. A purge at a watermark at or past that position retires the write; a two-phase prepare is
  never retired.
\<close>

datatype log_op = OpRecord write_class | OpStamp nat lsn | OpPurge lsn | OpDisable

fun log_step :: "log_op \<Rightarrow> write_log \<Rightarrow> write_log" where
  "log_step (OpRecord w) wl = wl_record w wl"
| "log_step (OpStamp stamp_seq lsn) wl = wl_stamp stamp_seq lsn wl"
| "log_step (OpPurge watermark) wl = wl_purge watermark wl"
| "log_step OpDisable wl = wl_disable wl"

type_synonym pending = "(nat \<times> write_class) list"

fun pending_step :: "(nat \<Rightarrow> lsn) \<Rightarrow> log_op \<Rightarrow> write_log \<Rightarrow> pending \<Rightarrow> pending" where
  "pending_step commit (OpRecord w) wl ps = (if wl_enabled wl then (wl_next_seq wl, w) # ps else ps)"
| "pending_step commit (OpStamp _ _) wl ps = ps"
| "pending_step commit (OpPurge watermark) wl ps =
     filter (\<lambda>(seq, w). watermark < commit seq \<or> w = WcConnectionUnstampable) ps"
| "pending_step commit OpDisable wl ps = []"

definition log_run :: "(nat \<Rightarrow> lsn) \<Rightarrow> log_op list \<Rightarrow> write_log \<times> pending" where
  "log_run commit ops =
     fold (\<lambda>op (wl, ps). (log_step op wl, pending_step commit op wl ps)) ops (with_enabled True, [])"

text \<open>A probe samples its position after every write up to its sequence number committed.\<close>

definition stamps_sound :: "(nat \<Rightarrow> lsn) \<Rightarrow> log_op list \<Rightarrow> bool" where
  "stamps_sound commit ops \<longleftrightarrow>
     (\<forall>stamp_seq lsn. OpStamp stamp_seq lsn \<in> set ops \<longrightarrow> (\<forall>seq\<le>stamp_seq. commit seq \<le> lsn))"

fun write_relation :: "write_class \<Rightarrow> relation_ref option" where
  "write_relation (WcInsertRows s) = Some (ins_relation s)"
| "write_relation (WcDeleteRows s) = Some (del_relation s)"
| "write_relation (WcUpdateRows s) = Some (upd_relation s)"
| "write_relation (WcTable relation) = Some relation"
| "write_relation _ = None"

subsection \<open>Every pending write is accounted for\<close>

definition tiers_cover :: "lsn \<Rightarrow> nat \<Rightarrow> write_class \<Rightarrow> table_tiers \<Rightarrow> bool" where
  "tiers_cover commit_lsn seq w tiers \<longleftrightarrow>
     (\<exists>a agg. tt_active tiers = Some (a, agg) \<and> seq \<le> a \<and> agg_covers agg w) \<or>
     (\<exists>tier\<in>set (tt_waiting tiers). commit_lsn \<le> wt_bound tier \<and> agg_covers (wt_aggregate tier) w)"

definition tables_cover ::
  "lsn \<Rightarrow> nat \<Rightarrow> write_class \<Rightarrow> relation_ref \<Rightarrow> (string \<times> schema_bucket) list \<Rightarrow> bool" where
  "tables_cover commit_lsn seq w rel tables \<longleftrightarrow>
     (\<exists>bucket tiers. map_of tables (rr_name rel) = Some bucket \<and> map_of bucket (rr_schema rel) = Some tiers \<and>
        tiers_cover commit_lsn seq w tiers)"

definition connection_covers :: "lsn \<Rightarrow> nat \<Rightarrow> connection_tiers \<Rightarrow> bool" where
  "connection_covers commit_lsn seq c \<longleftrightarrow>
     (\<exists>a. ct_active c = Some a \<and> seq \<le> a) \<or> (\<exists>b. ct_waiting c = Some b \<and> commit_lsn \<le> b)"

definition log_covers :: "lsn \<Rightarrow> nat \<Rightarrow> write_class \<Rightarrow> write_log \<Rightarrow> bool" where
  "log_covers commit_lsn seq w wl \<longleftrightarrow>
     ct_unstampable (wl_connection wl) \<or>
     (case write_relation w of
        Some rel \<Rightarrow> tables_cover commit_lsn seq w rel (wl_tables wl)
      | None \<Rightarrow> w = WcConnection \<and> connection_covers commit_lsn seq (wl_connection wl))"

lemma active_mut_cover:
  assumes "tiers_cover cl seq w tiers" "seq \<le> seq'" "\<And>agg. agg_le agg (f agg)"
  shows "tiers_cover cl seq w (active_mut seq' f tiers)"
  using assms agg_le_covers [OF assms(3)] by (auto simp: tiers_cover_def active_mut_def)

lemma active_mut_new:
  assumes "\<And>agg. agg_covers (f agg) w"
  shows "tiers_cover cl seq w (active_mut seq f tiers)"
  using assms by (auto simp: tiers_cover_def active_mut_def)

lemma tt_stamp_cover:
  assumes cov: "tiers_cover cl seq w tiers" and sound: "seq \<le> stamp_seq \<Longrightarrow> cl \<le> lsn"
  shows "tiers_cover cl seq w (tt_stamp stamp_seq lsn tiers)"
proof (cases "tt_active tiers")
  case None
  with cov show ?thesis by (simp add: tt_stamp_def)
next
  case (Some sa)
  obtain latest agg where act: "tt_active tiers = Some (latest, agg)" using Some by (cases sa) auto
  show ?thesis
  proof (cases "latest \<le> stamp_seq")
    case False
    with act cov show ?thesis by (simp add: tt_stamp_def)
  next
    case True
    have bound: "cl \<le> lsn" if "seq \<le> latest" using sound that True by simp
    show ?thesis
    proof (cases "waiting_tiers_max \<le> length (tt_waiting tiers) \<and> tt_waiting tiers \<noteq> []")
      case False
      then have st: "tt_stamp stamp_seq lsn tiers = tiers\<lparr>tt_active := None,
          tt_waiting := tt_waiting tiers @ [\<lparr>wt_bound = lsn, wt_aggregate = agg\<rparr>]\<rparr>"
        using act True by (auto simp: tt_stamp_def)
      show ?thesis using cov act bound by (auto simp: tiers_cover_def st)
    next
      case full: True
      let ?new = "last (tt_waiting tiers)"
      let ?m = "\<lparr>wt_bound = max (wt_bound ?new) lsn, wt_aggregate = tg_merge agg (wt_aggregate ?new)\<rparr>"
      have st: "tt_stamp stamp_seq lsn tiers =
          tiers\<lparr>tt_active := None, tt_waiting := butlast (tt_waiting tiers) @ [?m]\<rparr>"
        using act True full by (simp add: tt_stamp_def Let_def)
      have parts: "tier \<in> set (butlast (tt_waiting tiers)) \<or> tier = ?new" if "tier \<in> set (tt_waiting tiers)" for tier
        using that full append_butlast_last_id [of "tt_waiting tiers"] by (metis Un_iff empty_iff insert_iff list.set set_append)
      from cov consider "seq \<le> latest" "agg_covers agg w"
        | tier where "tier \<in> set (tt_waiting tiers)" "cl \<le> wt_bound tier" "agg_covers (wt_aggregate tier) w"
        using act by (auto simp: tiers_cover_def)
      then show ?thesis
      proof cases
        case 1
        then have "cl \<le> wt_bound ?m \<and> agg_covers (wt_aggregate ?m) w"
          using bound agg_le_covers [OF tg_merge_le(2)] by auto
        then show ?thesis by (auto simp: tiers_cover_def st)
      next
        case 2
        from parts [OF 2(1)] show ?thesis
        proof
          assume "tier = ?new"
          then have "cl \<le> wt_bound ?m \<and> agg_covers (wt_aggregate ?m) w"
            using 2 agg_le_covers [OF tg_merge_le(1)] by auto
          then show ?thesis by (auto simp: tiers_cover_def st)
        qed (use 2 in \<open>auto simp: tiers_cover_def st\<close>)
      qed
    qed
  qed
qed

lemma tt_purge_cover:
  assumes "tiers_cover cl seq w tiers" "watermark < cl"
  shows "tiers_cover cl seq w (tt_purge watermark tiers)" "\<not> tt_is_empty (tt_purge watermark tiers)"
  using assms by (force simp: tiers_cover_def tt_purge_def tt_is_empty_def filter_empty_conv)+

lemma map_of_map_snd: "map_of (map (\<lambda>(k, v). (k, f v)) m) k = map_option f (map_of m k)"
  by (induction m) auto

lemma map_of_filter_kept:
  "map_of m k = Some v \<Longrightarrow> P (k, v) \<Longrightarrow> map_of (filter P m) k = Some v"
  by (induction m) (auto split: if_splits)

lemma tables_cover_stamp:
  assumes "tables_cover cl seq w rel tables" "seq \<le> stamp_seq \<Longrightarrow> cl \<le> lsn"
  shows "tables_cover cl seq w rel
           (map (\<lambda>(name, bucket). (name, map (\<lambda>(schema, tiers). (schema, tt_stamp stamp_seq lsn tiers)) bucket)) tables)"
  using assms(1) tt_stamp_cover [OF _ assms(2)] by (fastforce simp: tables_cover_def map_of_map_snd)

lemma tables_cover_purge:
  assumes "tables_cover cl seq w rel tables" "watermark < cl"
  shows "tables_cover cl seq w rel (filter (\<lambda>(_, bucket). bucket \<noteq> [])
           (map (\<lambda>(name, bucket). (name, bucket_purge watermark bucket)) tables))"
proof -
  from assms(1) obtain bucket tiers where b: "map_of tables (rr_name rel) = Some bucket"
      "map_of bucket (rr_schema rel) = Some tiers" "tiers_cover cl seq w tiers"
    by (auto simp: tables_cover_def)
  from tt_purge_cover [OF b(3) assms(2)] b(2) have
      t: "map_of (bucket_purge watermark bucket) (rr_schema rel) = Some (tt_purge watermark tiers)"
    unfolding bucket_purge_def by (intro map_of_filter_kept) (simp_all add: map_of_map_snd)
  then have "bucket_purge watermark bucket \<noteq> []" by auto
  then have "map_of (filter (\<lambda>(_, bucket). bucket \<noteq> [])
      (map (\<lambda>(name, bucket). (name, bucket_purge watermark bucket)) tables)) (rr_name rel) =
        Some (bucket_purge watermark bucket)"
    using b(1) by (intro map_of_filter_kept) (simp_all add: map_of_map_snd)
  with t tt_purge_cover(1) [OF b(3) assms(2)] show ?thesis by (auto simp: tables_cover_def)
qed


lemma tables_cover_active:
  assumes "tables_cover cl seq w rel (wl_tables wl)" "seq \<le> seq'" "\<And>agg. agg_le agg (f agg)"
  shows "tables_cover cl seq w rel (wl_tables (table_active rel' seq' f wl))"
  using assms(1) active_mut_cover [OF _ assms(2,3)]
  by (auto simp: tables_cover_def table_active_def split: option.splits)

lemma tables_cover_new:
  assumes "\<And>agg. agg_covers (f agg) w"
  shows "tables_cover cl seq w rel (wl_tables (table_active rel seq f wl))"
  using active_mut_new [OF assms] by (auto simp: tables_cover_def table_active_def split: option.splits)

lemma connection_table_active [simp]: "wl_connection (table_active rel seq f wl) = wl_connection wl"
  by (simp add: table_active_def)

lemma log_covers_table_active:
  assumes "log_covers cl seq w wl" "seq \<le> seq'" "\<And>agg. agg_le agg (f agg)"
  shows "log_covers cl seq w (table_active rel' seq' f wl)"
  using assms(1) tables_cover_active [OF _ assms(2,3)] by (auto simp: log_covers_def split: option.splits)

lemma record_class_covers:
  assumes "log_covers cl seq w wl" "seq \<le> seq'"
  shows "log_covers cl seq w (record_class seq' w' wl)"
proof (cases w')
  case WcConnection
  with assms show ?thesis by (auto simp: log_covers_def connection_covers_def split: option.splits)
next
  case WcConnectionUnstampable
  then show ?thesis by (simp add: log_covers_def)
qed (use log_covers_table_active [OF assms] record_insert_covers(1) record_delete_covers(1)
      record_update_covers(1) in auto)

lemma record_class_new: "log_covers cl seq w (record_class seq w wl)"
  by (cases w)
    (auto simp: log_covers_def connection_covers_def
      intro!: tables_cover_new record_insert_covers(2) record_delete_covers(2) record_update_covers(2))

lemma wl_record_covers:
  assumes "log_covers cl seq w wl" "seq < wl_next_seq wl"
  shows "log_covers cl seq w (wl_record w' wl)"
proof -
  have "log_covers cl seq w (wl\<lparr>wl_next_seq := wl_next_seq wl + 1\<rparr>)"
    using assms(1) by (simp add: log_covers_def split: option.splits)
  from record_class_covers [OF this, of "wl_next_seq wl" w'] assms this show ?thesis
    by (auto simp: wl_record_def Let_def)
qed

lemma wl_record_new: "wl_enabled wl \<Longrightarrow> log_covers cl (wl_next_seq wl) w (wl_record w wl)"
  using record_class_new by (auto simp: wl_record_def Let_def log_covers_def)

lemma wl_stamp_covers:
  assumes "log_covers cl seq w wl" "seq \<le> stamp_seq \<Longrightarrow> cl \<le> lsn"
  shows "log_covers cl seq w (wl_stamp stamp_seq lsn wl)"
proof -
  have "connection_covers cl seq c \<Longrightarrow> connection_covers cl seq (ct_stamp stamp_seq lsn c)" for c
    using assms(2) by (auto simp: connection_covers_def ct_stamp_def split: option.splits)
  moreover have "ct_unstampable (ct_stamp stamp_seq lsn c) = ct_unstampable c" for c
    by (simp add: ct_stamp_def split: option.split)
  ultimately show ?thesis
    using assms(1) tables_cover_stamp [OF _ assms(2)]
    by (auto simp: log_covers_def wl_stamp_def split: option.splits)
qed

lemma wl_purge_covers:
  assumes "log_covers cl seq w wl" "watermark < cl \<or> w = WcConnectionUnstampable"
  shows "log_covers cl seq w (wl_purge watermark wl)"
  using assms tables_cover_purge [of cl seq w _ "wl_tables wl" watermark]
  by (auto simp: log_covers_def wl_purge_def connection_covers_def split: option.splits)

lemma next_seq_table_active [simp]: "wl_next_seq (table_active rel seq f wl) = wl_next_seq wl"
  by (simp add: table_active_def)

lemma next_seq_record: "wl_enabled wl \<Longrightarrow> wl_next_seq (wl_record w wl) = wl_next_seq wl + 1"
  by (cases w) (simp_all add: wl_record_def Let_def)

definition pending_inv :: "(nat \<Rightarrow> lsn) \<Rightarrow> write_log \<times> pending \<Rightarrow> bool" where
  "pending_inv commit st \<longleftrightarrow>
     (\<forall>(seq, w)\<in>set (snd st). seq < wl_next_seq (fst st) \<and> log_covers (commit seq) seq w (fst st))"

lemma pending_inv_step:
  assumes inv: "pending_inv commit (wl, ps)"
    and sound: "\<And>stamp_seq lsn seq. op = OpStamp stamp_seq lsn \<Longrightarrow> seq \<le> stamp_seq \<Longrightarrow> commit seq \<le> lsn"
  shows "pending_inv commit (log_step op wl, pending_step commit op wl ps)"
proof (cases op)
  case (OpRecord w)
  show ?thesis
  proof (cases "wl_enabled wl")
    case True
    with inv OpRecord show ?thesis
      by (auto simp: pending_inv_def next_seq_record wl_record_new intro: wl_record_covers less_SucI)
  next
    case False
    with inv OpRecord show ?thesis by (simp add: wl_record_def)
  qed
next
  case (OpStamp stamp_seq lsn)
  with inv sound [OF OpStamp] show ?thesis
    by (auto simp: pending_inv_def intro: wl_stamp_covers) (auto simp: wl_stamp_def)
next
  case (OpPurge watermark)
  with inv show ?thesis
    by (auto simp: pending_inv_def intro: wl_purge_covers) (auto simp: wl_purge_def)
next
  case OpDisable
  then show ?thesis by (simp add: pending_inv_def)
qed

lemma log_run_snoc:
  "log_run commit (ops @ [op]) =
     (case log_run commit ops of (wl, ps) \<Rightarrow> (log_step op wl, pending_step commit op wl ps))"
  by (simp add: log_run_def)

lemma log_run_inv: "stamps_sound commit ops \<Longrightarrow> pending_inv commit (log_run commit ops)"
proof (induction ops rule: rev_induct)
  case Nil
  then show ?case by (simp add: log_run_def pending_inv_def)
next
  case (snoc op ops)
  then have "pending_inv commit (log_run commit ops)" by (simp add: stamps_sound_def)
  moreover obtain wl ps where "log_run commit ops = (wl, ps)" by fastforce
  ultimately show ?case
    using snoc.prems pending_inv_step [of commit wl ps op] by (simp add: log_run_snoc stamps_sound_def)
qed

subsection \<open>A served read is unaffected\<close>

lemma tier_check_clear:
  assumes "tier_check read_ranges (bound, agg) st = (None, kinds')"
  shows "fst st = None" "aggregate_intersects agg read_ranges (snd st) = (False, kinds')"
  using assms by (auto simp: tier_check_def Let_def split: prod.splits if_splits)

lemma tier_checks_clear:
  assumes "fst (fold (tier_check read_ranges) bas st) = None"
  shows "fst st = None"
    and "(bound, agg) \<in> set bas \<Longrightarrow> \<exists>k k'. aggregate_intersects agg read_ranges k = (False, k')"
proof -
  have "fst st = None \<and> (\<forall>(bound, agg)\<in>set bas. \<exists>k k'. aggregate_intersects agg read_ranges k = (False, k'))"
    using assms
  proof (induction bas arbitrary: st)
    case (Cons ba bas)
    obtain bound agg where ba: "ba = (bound, agg)" by (cases ba)
    from Cons.IH [of "tier_check read_ranges ba st"] Cons.prems have
        none: "fst (tier_check read_ranges (bound, agg) st) = None"
        and rest: "\<forall>(bound, agg)\<in>set bas. \<exists>k k'. aggregate_intersects agg read_ranges k = (False, k')"
      by (auto simp: ba)
    from none obtain k' where "tier_check read_ranges (bound, agg) st = (None, k')"
      by (cases "tier_check read_ranges (bound, agg) st") auto
    from tier_check_clear [OF this] rest show ?case by (auto simp: ba)
  qed simp
  then show "fst st = None"
    "(bound, agg) \<in> set bas \<Longrightarrow> \<exists>k k'. aggregate_intersects agg read_ranges k = (False, k')" by auto
qed

lemma bucket_checks_clear:
  assumes "fst (fold (\<lambda>(schema, tiers) st. if \<not> schema_matches schema sch then st
             else fold (tier_check read_ranges) (aggregates_bounded tiers) st) bucket st) = None"
    and "(schema, tiers) \<in> set bucket" "schema_matches schema sch" "agg \<in> set (aggregates tiers)"
  shows "\<exists>k k'. aggregate_intersects agg read_ranges k = (False, k')"
proof -
  have "fst st = None \<and> (\<forall>(schema, tiers)\<in>set bucket. schema_matches schema sch \<longrightarrow>
      (\<forall>agg\<in>set (aggregates tiers). \<exists>k k'. aggregate_intersects agg read_ranges k = (False, k')))"
    using assms(1)
  proof (induction bucket arbitrary: st)
    case (Cons e bucket)
    obtain schema tiers where e: "e = (schema, tiers)" by (cases e)
    show ?case
    proof (cases "schema_matches schema sch")
      case False
      with Cons.IH [of st] Cons.prems show ?thesis by (simp add: e)
    next
      case True
      let ?st = "fold (tier_check read_ranges) (aggregates_bounded tiers) st"
      from Cons.prems True have "fst (fold (\<lambda>(schema, tiers) st. if \<not> schema_matches schema sch then st
          else fold (tier_check read_ranges) (aggregates_bounded tiers) st) bucket ?st) = None"
        by (simp add: e)
      from Cons.IH [OF this] have ih: "fst ?st = None" "\<forall>(schema, tiers)\<in>set bucket.
          schema_matches schema sch \<longrightarrow> (\<forall>agg\<in>set (aggregates tiers).
            \<exists>k k'. aggregate_intersects agg read_ranges k = (False, k'))" by blast+
      from tier_checks_clear [OF ih(1)] ih(2) show ?thesis by (auto simp: e aggregates_def)
    qed
  qed simp
  with assms(2-4) show ?thesis by blast
qed

lemma table_check_clear:
  assumes "fst (table_intersects wl table read_ranges kinds) = None"
    and "map_of (wl_tables wl) (tn_name table) = Some bucket" "map_of bucket schema = Some tiers"
    and "schema_matches schema (tn_schema table)" "agg \<in> set (aggregates tiers)"
  shows "\<exists>k k'. aggregate_intersects agg read_ranges k = (False, k')"
  using bucket_checks_clear [OF _ map_of_SomeD [OF assms(3)] assms(4,5)] assms(1,2)
  by (simp add: table_intersects_def)

lemma tables_walk_clear:
  assumes "tables_walk wl read_ranges tables kinds = Inr kinds'" "table \<in> set tables"
  shows "\<exists>k. fst (table_intersects wl table read_ranges k) = None"
  using assms
proof (induction tables arbitrary: kinds)
  case (Cons t tables)
  from Cons.prems(1) obtain k where k: "table_intersects wl t read_ranges kinds = (None, k)"
      "tables_walk wl read_ranges tables k = Inr kinds'"
    by (auto split: prod.splits option.splits)
  show ?case
  proof (cases "table = t")
    case True
    with k(1) have "fst (table_intersects wl table read_ranges kinds) = None" by simp
    then show ?thesis ..
  next
    case False
    with Cons.prems(2) Cons.IH [OF k(2)] show ?thesis by simp
  qed
qed simp

lemma tiers_cover_aggregate:
  "tiers_cover cl seq w tiers \<Longrightarrow> \<exists>agg\<in>set (aggregates tiers). agg_covers agg w"
  by (force simp: tiers_cover_def aggregates_def aggregates_bounded_def)


fun forwards :: "raw_decision \<Rightarrow> bool" where
  "forwards (RdForward _ _) = True"
| "forwards _ = False"

definition read_unaffected ::
  "(string \<Rightarrow> string \<Rightarrow> bool) \<Rightarrow> range_map option \<Rightarrow> write_class \<Rightarrow> bool" where
  "read_unaffected coll read_ranges w \<longleftrightarrow>
     (\<exists>rs. read_ranges = Some rs \<and> \<not> (\<exists>row. ranges_sem coll rs row \<and> write_affects coll w row))"

definition reads_relation :: "table_node list \<Rightarrow> relation_ref \<Rightarrow> bool" where
  "reads_relation tables rel =
     list_ex (\<lambda>t. tn_name t = rr_name rel \<and> schema_matches (rr_schema rel) (tn_schema t)) tables"

lemma served_connection_empty:
  "\<not> forwards (wl_decide wl tables read_ranges) \<Longrightarrow> ct_is_empty (wl_connection wl)"
  by (auto simp: wl_decide_def split: if_splits)

lemma served_walk:
  "\<not> forwards (wl_decide wl tables read_ranges) \<Longrightarrow>
     \<exists>kinds. tables_walk wl read_ranges tables dk_default = Inr kinds"
  by (auto simp: wl_decide_def split: if_splits sum.splits)

lemma served_unaffected:
  assumes served: "\<not> forwards (wl_decide wl tables read_ranges)" and coll: "collation coll"
    and cov: "log_covers cl seq w wl"
    and plain: "\<forall>rs. read_ranges = Some rs \<longrightarrow> ranges_plain rs" "write_ok kind w"
  shows "\<exists>rel. write_relation w = Some rel \<and>
           (reads_relation tables rel \<longrightarrow> read_unaffected coll read_ranges w)"
proof -
  from served_connection_empty [OF served] cov obtain rel where rel: "write_relation w = Some rel"
      and t: "tables_cover cl seq w rel (wl_tables wl)"
    by (auto simp: log_covers_def connection_covers_def ct_is_empty_def split: option.splits)
  from t obtain bucket tiers where b: "map_of (wl_tables wl) (rr_name rel) = Some bucket"
      "map_of bucket (rr_schema rel) = Some tiers" "tiers_cover cl seq w tiers"
    by (auto simp: tables_cover_def)
  from tiers_cover_aggregate [OF b(3)] obtain agg where agg: "agg \<in> set (aggregates tiers)" "agg_covers agg w"
    by blast
  have "read_unaffected coll read_ranges w" if "reads_relation tables rel"
  proof -
    from that obtain table where table: "table \<in> set tables" "tn_name table = rr_name rel"
        "schema_matches (rr_schema rel) (tn_schema table)"
      by (auto simp: reads_relation_def list_ex_iff)
    from served_walk [OF served] tables_walk_clear [OF _ table(1)] obtain k where
        "fst (table_intersects wl table read_ranges k) = None" by blast
    from table_check_clear [OF this _ b(2) table(3) agg(1)] b(1) table(2) obtain k k' where
        pass: "aggregate_intersects agg read_ranges k = (False, k')" by auto
    show ?thesis
    proof (cases read_ranges)
      case None
      with aggregate_check_no_ranges pass agg(2) show ?thesis by blast
    next
      case (Some rs)
      with aggregate_check_sound [OF coll _ _ pass [unfolded Some] agg(2) plain(2)] plain(1) show ?thesis
        by (auto simp: read_unaffected_def)
    qed
  qed
  with rel show ?thesis by blast
qed


definition sample_delete :: delete_statement where
  "sample_delete =
     \<lparr>del_relation = \<lparr>rr_schema = None, rr_name = ''t''\<rparr>, del_comparisons = [(''id'', Equal, LInteger 1)]\<rparr>"

definition sample_ops :: "log_op list" where
  "sample_ops = [OpRecord (WcDeleteRows sample_delete), OpStamp 0 5, OpPurge 4]"

lemmas log_simps = log_run_def sample_ops_def sample_delete_def with_enabled_def wl_record_def table_active_def
  entry_update_def record_delete_def equality_tuple_build_def tg_default_def entry_push_def tt_default_def
  active_mut_def wl_stamp_def tt_stamp_def waiting_tiers_max_def ct_stamp_def ct_default_def wl_purge_def
  bucket_purge_def tt_purge_def tt_is_empty_def merged_predicate_cap_def

lemmas decide_simps = wl_decide_def ct_is_empty_def table_intersects_def aggregates_bounded_def tier_check_def
  aggregate_intersects_def intersect_check_def ranges_test_def merged_tuples_disjoint_def has_empty_def
  constrained_positions_def map_filter_def value_excluded_def list_get_def column_range_contains_def
  dk_default_def dk_any_def



subsection \<open>The log's memory is bounded per table\<close>

definition tiers_bounded :: "table_tiers \<Rightarrow> bool" where
  "tiers_bounded t \<longleftrightarrow>
     length (tt_waiting t) \<le> waiting_tiers_max \<and> (\<forall>agg\<in>set (aggregates t). agg_bounded agg)"

definition tables_bounded :: "(string \<times> schema_bucket) list \<Rightarrow> bool" where
  "tables_bounded tables \<longleftrightarrow> (\<forall>(_, bucket)\<in>set tables. \<forall>(_, tiers)\<in>set bucket. tiers_bounded tiers)"

lemma aggregates_eq:
  "set (aggregates t) = wt_aggregate ` set (tt_waiting t) \<union> snd ` set_option (tt_active t)"
  by (cases "tt_active t") (auto simp: aggregates_def aggregates_bounded_def image_comp comp_def)

lemma tiers_boundedD:
  assumes "tiers_bounded t"
  shows "tt_active t = Some (seq, agg) \<Longrightarrow> agg_bounded agg"
    and "tier \<in> set (tt_waiting t) \<Longrightarrow> agg_bounded (wt_aggregate tier)"
  using assms by (force simp: tiers_bounded_def aggregates_eq)+

lemma tt_default_bounded: "tiers_bounded tt_default"
  by (simp add: tiers_bounded_def tt_default_def aggregates_def aggregates_bounded_def)

lemma active_mut_bounded:
  assumes "tiers_bounded t" "\<And>agg. agg_bounded agg \<Longrightarrow> agg_bounded (f agg)"
  shows "tiers_bounded (active_mut seq f t)"
  using assms tiers_boundedD [OF assms(1)]
  by (auto simp: tiers_bounded_def aggregates_eq active_mut_def split: option.splits)

lemma tt_stamp_bounded:
  assumes b: "tiers_bounded t"
  shows "tiers_bounded (tt_stamp stamp_seq lsn t)"
proof (cases "tt_active t")
  case None
  with b show ?thesis by (simp add: tt_stamp_def)
next
  case (Some sa)
  obtain latest agg where act: "tt_active t = Some (latest, agg)" using Some by (cases sa) auto
  note agg = tiers_boundedD(1) [OF b act]
  have len: "length (tt_waiting t) \<le> waiting_tiers_max" using b by (simp add: tiers_bounded_def)
  show ?thesis
  proof (cases "waiting_tiers_max \<le> length (tt_waiting t) \<and> tt_waiting t \<noteq> []")
    case True
    then have "agg_bounded (tg_merge agg (wt_aggregate (last (tt_waiting t))))"
      using tiers_boundedD(2) [OF b] agg by (intro tg_merge_bounded) auto
    moreover have "agg_bounded (wt_aggregate tier)" if "tier \<in> set (butlast (tt_waiting t))" for tier
      using tiers_boundedD(2) [OF b in_set_butlastD [OF that]] .
    ultimately show ?thesis
      using act True len b by (auto simp: tt_stamp_def Let_def tiers_bounded_def aggregates_eq waiting_tiers_max_def)
  next
    case False
    then have "length (tt_waiting t) < waiting_tiers_max"
      using len by (cases "tt_waiting t") (auto simp: waiting_tiers_max_def)
    with act False agg b tiers_boundedD(2) [OF b] show ?thesis
      by (auto simp: tt_stamp_def tiers_bounded_def aggregates_eq)
  qed
qed

lemma tt_purge_bounded: "tiers_bounded t \<Longrightarrow> tiers_bounded (tt_purge watermark t)"
  by (auto simp: tiers_bounded_def tt_purge_def aggregates_eq intro: le_trans [OF length_filter_le])

lemma set_entry_update:
  "set (entry_update d f k m) \<subseteq> insert (k, f (case map_of m k of None \<Rightarrow> d | Some v \<Rightarrow> v)) (set m)"
  unfolding entry_update_def by (rule set_alist_update)

lemma table_active_bounded:
  assumes b: "tables_bounded (wl_tables wl)" and f: "\<And>agg. agg_bounded agg \<Longrightarrow> agg_bounded (f agg)"
  shows "tables_bounded (wl_tables (table_active rel seq f wl))"
proof -
  let ?bucket = "case map_of (wl_tables wl) (rr_name rel) of None \<Rightarrow> [] | Some v \<Rightarrow> v"
  let ?tiers = "case map_of ?bucket (rr_schema rel) of None \<Rightarrow> tt_default | Some v \<Rightarrow> v"
  have bucket: "tiers_bounded tiers" if "(schema, tiers) \<in> set ?bucket" for schema tiers
  proof (cases "map_of (wl_tables wl) (rr_name rel)")
    case (Some v)
    with that b map_of_SomeD [OF Some] show ?thesis by (auto simp: tables_bounded_def)
  qed (use that in simp)
  then have "tiers_bounded ?tiers"
    using tt_default_bounded
    by (cases "map_of ?bucket (rr_schema rel)") (simp, metis map_of_SomeD option.simps(5))
  then have "tiers_bounded (active_mut seq f ?tiers)" by (rule active_mut_bounded [OF _ f])
  with bucket have "tiers_bounded tiers"
    if "(schema, tiers) \<in> set (entry_update tt_default (active_mut seq f) (rr_schema rel) ?bucket)" for schema tiers
    using that set_entry_update [of tt_default "active_mut seq f" "rr_schema rel" ?bucket] by blast
  then show ?thesis
    using b set_entry_update [of "[]" "entry_update tt_default (active_mut seq f) (rr_schema rel)"
        "rr_name rel" "wl_tables wl"]
    unfolding tables_bounded_def table_active_def by (auto dest!: subsetD)
qed

lemma wl_record_bounded: "tables_bounded (wl_tables wl) \<Longrightarrow> tables_bounded (wl_tables (wl_record w wl))"
  using table_active_bounded [of "wl\<lparr>wl_next_seq := wl_next_seq wl + 1\<rparr>"]
    record_insert_bounded record_delete_bounded record_update_bounded
  by (cases w) (auto simp: wl_record_def Let_def, simp_all add: tables_bounded_def)

lemma wl_stamp_bounded: "tables_bounded (wl_tables wl) \<Longrightarrow> tables_bounded (wl_tables (wl_stamp s l wl))"
  by (fastforce simp: tables_bounded_def wl_stamp_def intro: tt_stamp_bounded)

lemma wl_purge_bounded: "tables_bounded (wl_tables wl) \<Longrightarrow> tables_bounded (wl_tables (wl_purge wm wl))"
  by (fastforce simp: tables_bounded_def wl_purge_def bucket_purge_def intro: tt_purge_bounded)

lemma log_step_bounded: "tables_bounded (wl_tables wl) \<Longrightarrow> tables_bounded (wl_tables (log_step op wl))"
  by (cases op)
    (simp_all add: wl_record_bounded wl_stamp_bounded wl_purge_bounded, simp add: wl_disable_def tables_bounded_def)

lemma log_run_bounded: "tables_bounded (wl_tables (fst (log_run commit ops)))"
  by (induction ops rule: rev_induct)
    (auto simp: log_run_snoc log_step_bounded split: prod.splits, simp add: log_run_def with_enabled_def tables_bounded_def)

text \<open>
  C31. However many writes a connection forwards, the state the log keeps for one table is
  bounded: at most eight stamped batches, and in each batch at most 1024 inserted rows holding at
  most 8192 cells, 1024 merged predicates and 64 unmerged ones. The counter of merged predicates
  is their exact number, and a batch that degraded to opaque keeps no row data.
\<close>

theorem write_log_bounded:
  assumes "(name, bucket) \<in> set (wl_tables (fst (log_run commit ops)))" "(schema, tiers) \<in> set bucket"
    and "agg \<in> set (aggregates tiers)"
  shows "length (tt_waiting tiers) \<le> 8 \<and>
         (\<forall>ia. tg_inserts agg = Some ia \<longrightarrow>
            length (ia_rows ia) \<le> 1024 \<and> sum_list (map length (ia_rows ia)) \<le> 8192) \<and>
         tg_merged_predicates agg = merged_total (tg_merged_deletes agg) + merged_total (tg_merged_updates agg) \<and>
         tg_merged_predicates agg \<le> 1024 \<and>
         length (tg_deletes agg) + length (tg_updates agg) \<le> 64 \<and>
         (tg_opaque agg \<longrightarrow> \<not> tg_has_row_predicates agg)"
proof -
  from log_run_bounded [of commit ops] assms(1,2) have t: "tiers_bounded tiers"
    by (auto simp: tables_bounded_def)
  with assms(3) have agg: "agg_bounded agg" by (simp add: tiers_bounded_def)
  have "length (ia_rows ia) \<le> 1024 \<and> sum_list (map length (ia_rows ia)) \<le> 8192"
    if "tg_inserts agg = Some ia" for ia
    using agg that ia_bounded_cells [of ia]
    by (simp add: agg_bounded_def ia_bounded_def insert_merged_rows_cap_def insert_merged_cells_cap_def)
  with t agg show ?thesis
    by (simp add: agg_bounded_def tiers_bounded_def waiting_tiers_max_def merged_predicate_cap_def
        update_delete_predicate_cap_def)
qed

theorem write_log_bounded_witness:
  "length (tt_waiting \<lparr>tt_waiting = [\<lparr>wt_bound = 5, wt_aggregate = record_delete sample_delete tg_default\<rparr>],
      tt_active = None\<rparr>) \<le> 8 \<and> tg_merged_predicates (record_delete sample_delete tg_default) \<le> 1024"
  using write_log_bounded
    [of "''t''" "[(None, \<lparr>tt_waiting = [\<lparr>wt_bound = 5, wt_aggregate = record_delete sample_delete tg_default\<rparr>],
           tt_active = None\<rparr>)]" "\<lambda>_. 5" sample_ops None
        "\<lparr>tt_waiting = [\<lparr>wt_bound = 5, wt_aggregate = record_delete sample_delete tg_default\<rparr>],
           tt_active = None\<rparr>" "record_delete sample_delete tg_default"]
  by (simp add: log_simps aggregates_def aggregates_bounded_def Let_def)


subsection \<open>The log drains\<close>

definition log_bounds :: "write_log \<Rightarrow> lsn set" where
  "log_bounds wl =
     (\<Union>(_, bucket)\<in>set (wl_tables wl). \<Union>(_, tiers)\<in>set bucket. wt_bound ` set (tt_waiting tiers)) \<union>
     set_option (ct_waiting (wl_connection wl))"

definition probe :: "lsn \<Rightarrow> write_log \<Rightarrow> write_log" where
  "probe lsn wl = (case wl_stamp_seq wl of None \<Rightarrow> wl | Some stamp_seq \<Rightarrow> wl_stamp stamp_seq lsn wl)"

definition active_seqs :: "write_log \<Rightarrow> nat list" where
  "active_seqs wl =
     List.map_filter (\<lambda>tiers. map_option fst (tt_active tiers)) (wl_tiers wl) @
     (case ct_active (wl_connection wl) of None \<Rightarrow> [] | Some seq \<Rightarrow> [seq])"

lemma wl_stamp_seq_eq:
  "wl_stamp_seq wl = (if active_seqs wl = [] then None else Some (Max (set (active_seqs wl))))"
  by (cases "active_seqs wl") (simp_all add: wl_stamp_seq_def active_seqs_def)

lemma active_seqs_table:
  assumes "(name, bucket) \<in> set (wl_tables wl)" "(schema, tiers) \<in> set bucket" "tt_active tiers = Some (seq, agg)"
  shows "seq \<in> set (active_seqs wl)"
  using assms by (force simp: active_seqs_def wl_tiers_def map_filter_def)

lemma active_seqs_connection: "ct_active (wl_connection wl) = Some seq \<Longrightarrow> seq \<in> set (active_seqs wl)"
  by (simp add: active_seqs_def)

lemma tt_stamp_drains:
  assumes "\<And>seq agg. tt_active tiers = Some (seq, agg) \<Longrightarrow> seq \<le> stamp_seq"
    and "\<forall>tier\<in>set (tt_waiting tiers). wt_bound tier \<le> watermark" "lsn \<le> watermark"
  shows "tt_is_empty (tt_purge watermark (tt_stamp stamp_seq lsn tiers))"
proof (cases "tt_active tiers")
  case None
  with assms(2) show ?thesis by (auto simp: tt_stamp_def tt_purge_def tt_is_empty_def filter_empty_conv not_less)
next
  case (Some sa)
  obtain seq agg where act: "tt_active tiers = Some (seq, agg)" using Some by (cases sa) auto
  have "wt_bound (last (tt_waiting tiers)) \<le> watermark" if "tt_waiting tiers \<noteq> []"
    using assms(2) that by simp
  moreover have "wt_bound tier \<le> watermark" if "tier \<in> set (butlast (tt_waiting tiers))" for tier
    using assms(2) in_set_butlastD [OF that] by blast
  ultimately show ?thesis
    using act assms(1) [OF act] assms(2,3)
    by (auto simp: tt_stamp_def tt_purge_def tt_is_empty_def filter_empty_conv Let_def not_less)
qed

lemma map_snd_id: "(\<And>k v. (k, v) \<in> set m \<Longrightarrow> f v = v) \<Longrightarrow> map (\<lambda>(k, v). (k, f v)) m = m"
  by (induction m) auto

lemma probe_eq:
  "\<exists>stamp_seq. probe lsn wl = wl_stamp stamp_seq lsn wl \<and> (\<forall>seq\<in>set (active_seqs wl). seq \<le> stamp_seq)"
proof (cases "active_seqs wl = []")
  case True
  then have none: "tt_active tiers = None"
    if "(name, bucket) \<in> set (wl_tables wl)" "(schema, tiers) \<in> set bucket" for name bucket schema tiers
    using active_seqs_table [OF that] by (cases "tt_active tiers") auto
  have "map (\<lambda>(name, bucket). (name, map (\<lambda>(schema, tiers). (schema, tt_stamp 0 lsn tiers)) bucket)) (wl_tables wl)
      = wl_tables wl"
    using none by (intro map_snd_id) (auto simp: tt_stamp_def)
  moreover have "ct_stamp 0 lsn (wl_connection wl) = wl_connection wl"
    using True active_seqs_connection [of wl] by (cases "ct_active (wl_connection wl)") (auto simp: ct_stamp_def)
  ultimately have "wl_stamp 0 lsn wl = wl" by (simp add: wl_stamp_def)
  with True show ?thesis by (intro exI [of _ 0]) (simp add: probe_def wl_stamp_seq_eq)
next
  case False
  then show ?thesis by (auto simp: probe_def wl_stamp_seq_eq intro!: exI [of _ "Max (set (active_seqs wl))"])
qed

lemma purge_empty:
  assumes "\<And>name bucket schema tiers. (name, bucket) \<in> set tables \<Longrightarrow> (schema, tiers) \<in> set bucket \<Longrightarrow>
             tt_is_empty (tt_purge watermark tiers)"
  shows "filter (\<lambda>(_, bucket). bucket \<noteq> []) (map (\<lambda>(name, bucket). (name, bucket_purge watermark bucket)) tables) = []"
  using assms by (auto simp: filter_empty_conv bucket_purge_def)

lemma tables_purge:
  "wl_tables (wl_purge watermark wl) = filter (\<lambda>(_, bucket). bucket \<noteq> [])
     (map (\<lambda>(name, bucket). (name, bucket_purge watermark bucket)) (wl_tables wl))"
  by (simp add: wl_purge_def)

lemma tables_stamp:
  "wl_tables (wl_stamp stamp_seq lsn wl) =
     map (\<lambda>(name, bucket). (name, map (\<lambda>(schema, tiers). (schema, tt_stamp stamp_seq lsn tiers)) bucket))
       (wl_tables wl)"
  by (simp add: wl_stamp_def)

lemma probe_then_purge_drains:
  assumes stampable: "\<not> ct_unstampable (wl_connection wl)"
    and bounds: "\<forall>b\<in>log_bounds wl. b \<le> watermark" and lsn: "lsn \<le> watermark"
  shows "wl_is_empty (wl_purge watermark (probe lsn wl))"
proof -
  obtain s where s: "probe lsn wl = wl_stamp s lsn wl" "\<forall>seq\<in>set (active_seqs wl). seq \<le> s"
    using probe_eq by blast
  have tiers: "tt_is_empty (tt_purge watermark (tt_stamp s lsn tiers))"
    if t: "(name, bucket) \<in> set (wl_tables wl)" "(schema, tiers) \<in> set bucket" for name bucket schema tiers
  proof (rule tt_stamp_drains [OF _ _ lsn])
    show "seq \<le> s" if "tt_active tiers = Some (seq, agg)" for seq agg
      using active_seqs_table [OF t that] s(2) by blast
    show "\<forall>tier\<in>set (tt_waiting tiers). wt_bound tier \<le> watermark"
      using bounds t by (fastforce simp: log_bounds_def)
  qed
  have "wl_tables (wl_purge watermark (probe lsn wl)) = []"
    unfolding s(1) tables_purge tables_stamp by (rule purge_empty) (use tiers in force)
  moreover have "ct_is_empty (wl_connection (wl_purge watermark (probe lsn wl)))"
    using stampable lsn s(2) active_seqs_connection [of wl] bounds
    by (cases "ct_active (wl_connection wl)"; cases "ct_waiting (wl_connection wl)")
      (auto simp: s(1) wl_purge_def wl_stamp_def ct_stamp_def ct_is_empty_def log_bounds_def)
  ultimately show ?thesis by (simp add: wl_is_empty_def)
qed

text \<open>
  C30. The gate always reopens. Unless a two-phase prepare is outstanding, one probe (sampling the
  log's own stamp sequence) followed by a watermark at or past the probe's position and the
  bounds already set empties the log, whatever it held, and every read is then served.
\<close>

theorem gate_reopens:
  assumes "\<not> ct_unstampable (wl_connection wl)" "\<forall>b\<in>log_bounds wl. b \<le> watermark" "lsn \<le> watermark"
  shows "wl_is_empty (wl_purge watermark (probe lsn wl)) \<and>
         wl_decide (wl_purge watermark (probe lsn wl)) tables read_ranges = RdServe"
proof -
  note empty = probe_then_purge_drains [OF assms]
  have "tables_walk wl' read_ranges tables kinds = Inr kinds" if "wl_tables wl' = []" for wl' kinds
    using that by (induction tables) (simp_all add: table_intersects_def)
  with empty show ?thesis
    by (simp add: wl_decide_def wl_is_empty_def dk_default_def dk_any_def)
qed

theorem gate_reopens_witness:
  "wl_decide (wl_purge 9 (probe 9 (wl_record (WcDeleteRows sample_delete) (with_enabled True))))
     [\<lparr>tn_schema = None, tn_name = ''t'', tn_alias = None\<rparr>] None = RdServe"
  using gate_reopens [of "wl_record (WcDeleteRows sample_delete) (with_enabled True)" 9 9
      "[\<lparr>tn_schema = None, tn_name = ''t'', tn_alias = None\<rparr>]" None]
  by (simp add: log_simps log_bounds_def Let_def)

end
