(* ===== verification/Wire_Frames.thy ===== *)
theory Wire_Frames
  imports Prelude
begin

text \<open>
  Framing of the wire protocol: big-endian integers, the frontend and backend codecs
  (\<^verbatim>\<open>src/pg/protocol/frontend.rs\<close>, \<^verbatim>\<open>backend.rs\<close>, \<^verbatim>\<open>message.rs\<close>) and the batching of data rows.

  A byte is a \<^typ>\<open>char\<close> and a buffer is a \<^typ>\<open>string\<close>, so that text needs no conversion. The
  16- and 32-bit fields are read as mathematical integers through their two's complement. A
  decoder call returns its outcome, the codec state and the bytes left in the buffer. Every
  operation of the buffer that panics when the buffer is too short has that panic in the model,
  and so has a subtraction that underflows: the outcome of the call is then \<open>DecPanic\<close>.
\<close>

subsection \<open>Big-endian integers\<close>

fun be_encode :: "nat \<Rightarrow> int \<Rightarrow> string" where
  "be_encode 0 i = []"
| "be_encode (Suc n) i = char_of (i div 256 ^ n mod 256) # be_encode n i"

definition be_decode :: "string \<Rightarrow> int" where
  "be_decode bs = foldl (\<lambda>acc b. acc * 256 + of_char b) 0 bs"

definition to_signed :: "nat \<Rightarrow> int \<Rightarrow> int" where
  "to_signed w u = (if u < 2 ^ (w - 1) then u else u - 2 ^ w)"

definition put_i16 :: "int \<Rightarrow> string" where "put_i16 = be_encode 2"
definition put_i32 :: "int \<Rightarrow> string" where "put_i32 = be_encode 4"
definition get_i16 :: "string \<Rightarrow> int" where "get_i16 bs = to_signed 16 (be_decode (take 2 bs))"
definition get_i32 :: "string \<Rightarrow> int" where "get_i32 bs = to_signed 32 (be_decode (take 4 bs))"
definition get_u32 :: "string \<Rightarrow> int" where "get_u32 bs = be_decode (take 4 bs)"

abbreviation i16_ok :: "int \<Rightarrow> bool" where "i16_ok i \<equiv> - (2 ^ 15) \<le> i \<and> i < 2 ^ 15"
abbreviation i32_ok :: "int \<Rightarrow> bool" where "i32_ok i \<equiv> - (2 ^ 31) \<le> i \<and> i < 2 ^ 31"
abbreviation u32_ok :: "int \<Rightarrow> bool" where "u32_ok i \<equiv> 0 \<le> i \<and> i < 2 ^ 32"

definition usize_try_from :: "int \<Rightarrow> nat option" where
  "usize_try_from i = (if i < 0 then None else Some (nat i))"

definition i32_try_from :: "nat \<Rightarrow> int option" where
  "i32_try_from n = (if n < 2 ^ 31 then Some (int n) else None)"

definition i16_try_from :: "nat \<Rightarrow> int option" where
  "i16_try_from n = (if n < 2 ^ 15 then Some (int n) else None)"

lemma length_be_encode [simp]: "length (be_encode n i) = n"
  by (induction n) auto

lemma foldl_be: "foldl (\<lambda>acc b. acc * 256 + of_char b) a ys = a * 256 ^ length ys + be_decode ys" for a :: int
proof (induction ys rule: rev_induct)
  case Nil
  show ?case by (simp add: be_decode_def)
next
  case (snoc y ys)
  have "be_decode (ys @ [y]) = be_decode ys * 256 + of_char y" by (simp add: be_decode_def)
  with snoc show ?case by (simp add: distrib_right mult.assoc mult.commute [of "256 ^ length ys"])
qed

lemma be_decode_append: "be_decode (xs @ ys) = be_decode xs * 256 ^ length ys + be_decode ys"
  using foldl_be [of "be_decode xs" ys] by (simp only: be_decode_def foldl_append)

lemma be_decode_Cons: "be_decode (b # bs) = of_char b * 256 ^ length bs + be_decode bs"
  using be_decode_append [of "[b]" bs] by (simp add: be_decode_def)

lemma of_char_range: "0 \<le> (of_char b :: int) \<and> (of_char b :: int) < 256"
  using nat_of_char_less_256 [of b] of_nat_of_char [of b, where 'a = int] by linarith

lemma be_decode_range: "0 \<le> be_decode bs \<and> be_decode bs < 256 ^ length bs"
proof (induction bs)
  case Nil
  then show ?case by (simp add: be_decode_def)
next
  case (Cons b bs)
  have "of_char b * 256 ^ length bs \<le> (255 :: int) * 256 ^ length bs"
    using of_char_range [of b] by (intro mult_right_mono) auto
  moreover have "0 \<le> of_char b * (256 :: int) ^ length bs" using of_char_range [of b] by simp
  moreover have "(256 :: int) ^ length (b # bs) = 255 * 256 ^ length bs + 256 ^ length bs" by simp
  ultimately show ?case using Cons unfolding be_decode_Cons by linarith
qed

lemma be_decode_encode: "be_decode (be_encode n i) = i mod 256 ^ n"
proof (induction n)
  case 0
  then show ?case by (simp add: be_decode_def)
next
  case (Suc n)
  have "i mod (256 ^ n * 256) = 256 ^ n * (i div 256 ^ n mod 256) + i mod 256 ^ n"
    by (rule zmod_zmult2_eq) simp
  with Suc show ?case by (simp add: be_decode_Cons mult.commute)
qed


lemma be_decode_inj:
  assumes "0 \<le> i" "i < 256 ^ n"
  shows "be_decode (be_encode n i) = i"
  using assms by (simp add: be_decode_encode)

lemma to_signed_mod:
  assumes "0 < w" "- (2 ^ (w - 1)) \<le> i" "i < 2 ^ (w - 1)"
  shows "to_signed w (i mod 2 ^ w) = i"
proof -
  have w: "(2 :: int) ^ w = 2 * 2 ^ (w - 1)" using assms(1) by (cases w) simp_all
  show ?thesis
  proof (cases "0 \<le> i")
    case True
    with assms w have "i mod 2 ^ w = i" by simp
    with assms(3) show ?thesis by (simp add: to_signed_def)
  next
    case False
    have "i mod 2 ^ w = (i + 2 ^ w) mod 2 ^ w" by simp
    also have "\<dots> = i + 2 ^ w" using False assms(2) w by (intro mod_pos_pos_trivial) linarith+
    finally show ?thesis using assms(2) w by (simp add: to_signed_def)
  qed
qed

lemma get_put_i16 [simp]: "i16_ok i \<Longrightarrow> get_i16 (put_i16 i @ rest) = i"
  using to_signed_mod [of 16 i] by (simp add: get_i16_def put_i16_def be_decode_encode)

lemma get_put_i32 [simp]: "i32_ok i \<Longrightarrow> get_i32 (put_i32 i @ rest) = i"
  using to_signed_mod [of 32 i] by (simp add: get_i32_def put_i32_def be_decode_encode)

lemma get_put_u32 [simp]: "u32_ok i \<Longrightarrow> get_u32 (put_i32 i @ rest) = i"
  by (simp add: get_u32_def put_i32_def be_decode_encode)

lemma length_put [simp]: "length (put_i16 i) = 2" "length (put_i32 i) = 4"
  by (simp_all add: put_i16_def put_i32_def)


subsection \<open>Messages and errors\<close>

datatype io_error_kind = IoInvalidData | IoUnexpectedEof

datatype protocol_error =
    InvalidProtocolVersion int int
  | InvalidStartupFrame
  | UnrecognizedMessageType string
  | IoError io_error_kind string
  | MessageTooLarge nat

datatype pg_connection_state = PgStartup | PgAuthentication | PgQuery

datatype 't pg_message = PgMessage (message_type: 't) (message_data: string)

definition message_length :: "nat \<Rightarrow> protocol_error + int" where
  "message_length len = (case i32_try_from len of None \<Rightarrow> Inl (MessageTooLarge len) | Some i \<Rightarrow> Inr i)"

datatype 'm decoded = DecPanic | DecErr protocol_error | DecMore | DecItem 'm

text \<open>\<^verbatim>\<open>u8::escape_ascii\<close>\<close>

definition hex_digit :: "nat \<Rightarrow> char" where
  "hex_digit d = (if d < 10 then char_of (48 + d) else char_of (87 + d))"

definition escape_ascii :: "char \<Rightarrow> string" where
  "escape_ascii b =
     (let n = of_char b :: nat in
      if n = 9 then [CHR 0x5C, CHR ''t'']
      else if n = 13 then [CHR 0x5C, CHR ''r'']
      else if n = 10 then [CHR 0x5C, CHR ''n'']
      else if n \<in> {39, 34, 92} then [CHR 0x5C, b]
      else if 32 \<le> n \<and> n \<le> 126 then [b]
      else [CHR 0x5C, CHR ''x'', hex_digit (n div 16), hex_digit (n mod 16)])"

subsection \<open>The frontend codec\<close>

datatype frontend_type =
    FtStartup | FtCancelRequest | FtSslRequest | FtPasswordMessageFamily | FtQuery | FtFunctionCall
  | FtParse | FtClose | FtBind | FtDescribe | FtExecute | FtFlush | FtSync | FtTerminate
  | FtCopyData | FtCopyFail | FtCopyDone

definition frontend_message_type_map :: "(char \<times> frontend_type) list" where
  "frontend_message_type_map =
     [(CHR ''B'', FtBind), (CHR ''C'', FtClose), (CHR ''d'', FtCopyData), (CHR ''c'', FtCopyDone),
      (CHR ''f'', FtCopyFail), (CHR ''D'', FtDescribe), (CHR ''E'', FtExecute), (CHR ''H'', FtFlush),
      (CHR ''F'', FtFunctionCall), (CHR ''p'', FtPasswordMessageFamily), (CHR ''P'', FtParse),
      (CHR ''Q'', FtQuery), (CHR ''S'', FtSync), (CHR ''X'', FtTerminate)]"

text \<open>
  \<^verbatim>\<open>split_at\<close>, \<^verbatim>\<open>Buf::get_i16\<close>, \<^verbatim>\<open>Buf::get_i32\<close> and \<^verbatim>\<open>BytesMut::split_to\<close> panic on a buffer that is
  too short. The first three are \<open>None\<close> then; \<open>item_split_to\<close>, which hands out the first \<open>n\<close> bytes
  and leaves the rest in the buffer, is \<open>DecPanic\<close>.
\<close>

definition split_at :: "nat \<Rightarrow> string \<Rightarrow> (string \<times> string) option" where
  "split_at n buf = (if n \<le> length buf then Some (take n buf, drop n buf) else None)"

definition buf_get_i16 :: "string \<Rightarrow> int option" where
  "buf_get_i16 buf = (if length buf < 2 then None else Some (get_i16 buf))"

definition buf_get_i32 :: "string \<Rightarrow> int option" where
  "buf_get_i32 buf = (if length buf < 4 then None else Some (get_i32 buf))"

definition slice_i16_at :: "nat \<Rightarrow> string \<Rightarrow> int option" where
  "slice_i16_at n buf = (case split_at n buf of None \<Rightarrow> None | Some (_, slice) \<Rightarrow> buf_get_i16 slice)"

definition slice_i32_at :: "nat \<Rightarrow> string \<Rightarrow> int option" where
  "slice_i32_at n buf = (case split_at n buf of None \<Rightarrow> None | Some (_, slice) \<Rightarrow> buf_get_i32 slice)"

definition item_split_to ::
  "pg_connection_state \<Rightarrow> 't \<Rightarrow> nat \<Rightarrow> string \<Rightarrow> 't pg_message decoded \<times> pg_connection_state \<times> string" where
  "item_split_to st t n buf =
     (case split_at n buf of
        None \<Rightarrow> (DecPanic, st, buf)
      | Some (data, rest) \<Rightarrow> (DecItem (PgMessage t data), st, rest))"

lemma item_split_to_fits: "n \<le> length buf \<Longrightarrow> item_split_to st t n buf = (DecItem (PgMessage t (take n buf)), st, drop n buf)"
  by (simp add: item_split_to_def split_at_def)

lemma item_split_to_panic: "item_split_to st t n buf = (DecPanic, st1, rest) \<longleftrightarrow> length buf < n \<and> st1 = st \<and> rest = buf"
  by (auto simp: item_split_to_def split_at_def)

lemma buf_get_Some [simp]:
  "2 \<le> length buf \<Longrightarrow> buf_get_i16 buf = Some (get_i16 buf)"
  "4 \<le> length buf \<Longrightarrow> buf_get_i32 buf = Some (get_i32 buf)"
  by (simp_all add: buf_get_i16_def buf_get_i32_def)

lemma slice_get_Some [simp]:
  "n + 2 \<le> length buf \<Longrightarrow> slice_i16_at n buf = Some (get_i16 (drop n buf))"
  "n + 4 \<le> length buf \<Longrightarrow> slice_i32_at n buf = Some (get_i32 (drop n buf))"
  by (simp_all add: slice_i16_at_def slice_i32_at_def split_at_def)

definition frontend_startup_decode ::
  "string \<Rightarrow> frontend_type pg_message decoded \<times> pg_connection_state \<times> string" where
  "frontend_startup_decode buf =
     (if length buf < 8 then (DecMore, PgStartup, buf)
      else (case buf_get_i32 buf of
        None \<Rightarrow> (DecPanic, PgStartup, buf)
      | Some word \<Rightarrow>
          (case usize_try_from word of
             None \<Rightarrow> (DecErr InvalidStartupFrame, PgStartup, buf)
           | Some msg_len \<Rightarrow>
               if length buf < msg_len then (DecMore, PgStartup, buf)
               else (case split_at 4 buf of
                 None \<Rightarrow> (DecPanic, PgStartup, buf)
               | Some (_, code_slice) \<Rightarrow>
                   (case (buf_get_i16 code_slice, slice_i16_at 2 code_slice) of
                      (Some major, Some minor) \<Rightarrow>
                        if (major, minor) = (3, 0) then
                          (if msg_len < 2 then (DecPanic, PgStartup, buf)
                           else (case slice_i16_at (msg_len - 2) buf of
                             None \<Rightarrow> (DecPanic, PgStartup, buf)
                           | Some end_word \<Rightarrow>
                               if end_word \<noteq> 0 then (DecErr InvalidStartupFrame, PgStartup, buf)
                               else item_split_to PgQuery FtStartup msg_len buf))
                        else if (major, minor) = (1234, 5678) then
                          item_split_to PgStartup FtCancelRequest msg_len buf
                        else if (major, minor) = (1234, 5679) then
                          item_split_to PgStartup FtSslRequest msg_len buf
                        else (DecErr (InvalidProtocolVersion major minor), PgStartup, buf)
                    | _ \<Rightarrow> (DecPanic, PgStartup, buf))))))"

definition frontend_tagged_decode ::
  "pg_connection_state \<Rightarrow> string \<Rightarrow> frontend_type pg_message decoded \<times> pg_connection_state \<times> string" where
  "frontend_tagged_decode st buf =
     (case buf of
        [] \<Rightarrow> (DecMore, st, buf)
      | first_byte # _ \<Rightarrow>
          (case map_of frontend_message_type_map first_byte of
             None \<Rightarrow> (DecErr (UnrecognizedMessageType (escape_ascii first_byte)), st, buf)
           | Some msg_type \<Rightarrow>
               if length buf < 5 then (DecMore, st, buf)
               else (case slice_i32_at 1 buf of
                 None \<Rightarrow> (DecPanic, st, buf)
               | Some word \<Rightarrow>
                   (case usize_try_from word of
                      None \<Rightarrow> (DecErr (IoError IoInvalidData ''negative frontend message length''), st, buf)
                    | Some n \<Rightarrow>
                        (let msg_len = n + 1 in
                         if length buf < msg_len then (DecMore, st, buf)
                         else item_split_to st msg_type msg_len buf)))))"

fun frontend_decode ::
  "pg_connection_state \<Rightarrow> string \<Rightarrow> frontend_type pg_message decoded \<times> pg_connection_state \<times> string" where
  "frontend_decode st [] = (DecMore, st, [])"
| "frontend_decode PgStartup buf = frontend_startup_decode buf"
| "frontend_decode PgAuthentication buf = frontend_tagged_decode PgAuthentication buf"
| "frontend_decode PgQuery buf = frontend_tagged_decode PgQuery buf"

subsection \<open>Start-up parameters and simple queries\<close>

text \<open>\<open>slice_split\<close> is \<^verbatim>\<open>[u8]::split\<close> at the zero byte: always at least one part.\<close>

fun slice_split :: "string \<Rightarrow> string list" where
  "slice_split [] = [[]]"
| "slice_split (b # bs) =
     (if b = CHR 0x00 then [] # slice_split bs
      else (case slice_split bs of [] \<Rightarrow> [[b]] | p # ps \<Rightarrow> (b # p) # ps))"

definition utf8_cont :: "char \<Rightarrow> bool" where
  "utf8_cont b \<longleftrightarrow> 128 \<le> (of_char b :: nat) \<and> (of_char b :: nat) < 192"

definition utf8_step :: "string \<Rightarrow> string option" where
  "utf8_step bs =
     (case bs of
        [] \<Rightarrow> None
      | b # r \<Rightarrow>
          (let n = of_char b :: nat; m = (case r of c # _ \<Rightarrow> of_char c | [] \<Rightarrow> 0) :: nat in
           if n < 128 then Some r
           else if 194 \<le> n \<and> n \<le> 223 then
             (if 1 \<le> length r \<and> utf8_cont (r ! 0) then Some (drop 1 r) else None)
           else if 224 \<le> n \<and> n \<le> 239 then
             (if 2 \<le> length r \<and> utf8_cont (r ! 0) \<and> utf8_cont (r ! 1) \<and>
                 (n = 224 \<longrightarrow> 160 \<le> m) \<and> (n = 237 \<longrightarrow> m < 160)
              then Some (drop 2 r) else None)
           else if 240 \<le> n \<and> n \<le> 244 then
             (if 3 \<le> length r \<and> utf8_cont (r ! 0) \<and> utf8_cont (r ! 1) \<and> utf8_cont (r ! 2) \<and>
                 (n = 240 \<longrightarrow> 144 \<le> m) \<and> (n = 244 \<longrightarrow> m < 144)
              then Some (drop 3 r) else None)
           else None))"

lemma utf8_step_shorter: "utf8_step bs = Some r \<Longrightarrow> length r < length bs"
  by (auto simp: utf8_step_def Let_def split: list.splits if_splits)

function utf8_valid :: "string \<Rightarrow> bool" where
  "utf8_valid bs =
     (if bs = [] then True
      else (case utf8_step bs of None \<Rightarrow> False | Some r \<Rightarrow> utf8_valid r))"
  by auto

termination
  by (relation "measure length") (auto dest: utf8_step_shorter)

declare utf8_valid.simps [simp del]

definition from_utf8 :: "string \<Rightarrow> string option" where
  "from_utf8 bs = (if utf8_valid bs then Some bs else None)"

fun startup_parameter_loop :: "string list \<Rightarrow> string \<Rightarrow> string option" where
  "startup_parameter_loop (k # v # parts) key =
     (if k = [] then None else if k = key then from_utf8 v else startup_parameter_loop parts key)"
| "startup_parameter_loop _ key = None"

definition startup_message_parameter :: "string \<Rightarrow> string \<Rightarrow> string option" where
  "startup_message_parameter data key =
     (if length data < 8 then None else startup_parameter_loop (slice_split (drop 8 data)) key)"

definition simple_query_message_encode :: "string \<Rightarrow> int \<Rightarrow> string" where
  "simple_query_message_encode query_bytes len = ''Q'' @ put_i32 len @ query_bytes @ [CHR 0x00]"

definition simple_query_message_build :: "string \<Rightarrow> protocol_error + string" where
  "simple_query_message_build query =
     (case message_length (4 + length query + 1) of
        Inl e \<Rightarrow> Inl e
      | Inr len \<Rightarrow> Inr (simple_query_message_encode query len))"


subsection \<open>Probe queries\<close>

record probe_query =
  pq_sql :: string
  pq_message_len :: int

text \<open>The assertion of \<^verbatim>\<open>ProbeQuery::new\<close> is a value here: \<open>None\<close> is the compile-time panic.\<close>

definition probe_max_len :: nat where "probe_max_len = 1024"

definition probe_query_new :: "string \<Rightarrow> probe_query option" where
  "probe_query_new sql =
     (if length sql \<le> probe_max_len
      then Some \<lparr>pq_sql = sql, pq_message_len = int (4 + length sql + 1)\<rparr> else None)"

definition probe_query_message :: "probe_query \<Rightarrow> string" where
  "probe_query_message q = simple_query_message_encode (pq_sql q) (pq_message_len q)"

subsection \<open>The backend codec\<close>

datatype backend_type =
    BtSslRequestResponse | BtAuthentication | BtParameterStatus | BtBackendKeyData
  | BtNegotiateProtocolVersion | BtParseComplete | BtCloseComplete | BtBindComplete | BtPortalSuspended
  | BtCommandComplete | BtEmptyQueryResponse | BtReadyForQuery | BtErrorResponse | BtNoticeResponse
  | BtNotificationResponse | BtFunctionCallResponse | BtParameterDescription | BtRowDescription
  | BtDataRows | BtNoData | BtCopyData | BtCopyDone | BtCopyInResponse | BtCopyOutResponse | BtCopyBothResponse

definition data_row_tag :: char where "data_row_tag = CHR ''D''"
definition command_complete_tag :: char where "command_complete_tag = CHR ''C''"
definition row_description_tag :: char where "row_description_tag = CHR ''T''"

definition backend_message_type_map :: "(char \<times> backend_type) list" where
  "backend_message_type_map =
     [(CHR ''R'', BtAuthentication), (CHR ''K'', BtBackendKeyData), (CHR ''2'', BtBindComplete),
      (CHR ''3'', BtCloseComplete), (CHR ''C'', BtCommandComplete), (CHR ''d'', BtCopyData),
      (CHR ''c'', BtCopyDone), (CHR ''G'', BtCopyInResponse), (CHR ''H'', BtCopyOutResponse),
      (CHR ''W'', BtCopyBothResponse), (CHR ''D'', BtDataRows), (CHR ''I'', BtEmptyQueryResponse),
      (CHR ''E'', BtErrorResponse), (CHR ''V'', BtFunctionCallResponse),
      (CHR ''v'', BtNegotiateProtocolVersion), (CHR ''n'', BtNoData), (CHR ''N'', BtNoticeResponse),
      (CHR ''A'', BtNotificationResponse), (CHR ''t'', BtParameterDescription), (CHR ''S'', BtParameterStatus),
      (CHR ''1'', BtParseComplete), (CHR ''s'', BtPortalSuspended), (CHR ''Z'', BtReadyForQuery),
      (CHR ''T'', BtRowDescription)]"

definition authentication_ok :: int where "authentication_ok = 0"

definition handle_authentication_message ::
  "pg_connection_state \<Rightarrow> string \<Rightarrow> backend_type pg_message decoded \<times> pg_connection_state \<times> string" where
  "handle_authentication_message st buf =
     (if length buf < 9 then (DecMore, st, buf)
      else (case slice_i32_at 1 buf of
        None \<Rightarrow> (DecPanic, st, buf)
      | Some word \<Rightarrow>
          (case usize_try_from word of
             None \<Rightarrow> (DecErr InvalidStartupFrame, st, buf)
           | Some n \<Rightarrow>
               (let msg_len = n + 1 in
                if length buf < msg_len then (DecMore, st, buf)
                else (case slice_i32_at 5 buf of
                  None \<Rightarrow> (DecPanic, st, buf)
                | Some code \<Rightarrow>
                    item_split_to (if code = authentication_ok then PgQuery else PgAuthentication)
                      BtAuthentication msg_len buf)))))"

definition backend_startup_decode ::
  "string \<Rightarrow> backend_type pg_message decoded \<times> pg_connection_state \<times> string" where
  "backend_startup_decode buf =
     (case buf of
        [] \<Rightarrow> (DecMore, PgStartup, buf)
      | first_byte # _ \<Rightarrow>
          if first_byte = CHR ''S'' \<or> first_byte = CHR ''N''
          then item_split_to PgStartup BtSslRequestResponse 1 buf
          else if first_byte = CHR ''R'' then handle_authentication_message PgStartup buf
          else (DecErr InvalidStartupFrame, PgStartup, buf))"

definition frame_len_at :: "string \<Rightarrow> nat \<Rightarrow> nat option" where
  "frame_len_at buf position =
     (if length buf < position + 5 then None
      else map_option (\<lambda>n. n + 1) (usize_try_from (get_i32 (drop (position + 1) buf))))"

definition next_data_row_len :: "string \<Rightarrow> nat \<Rightarrow> nat option" where
  "next_data_row_len buf position =
     (if length buf \<le> position then None
      else if buf ! position \<noteq> data_row_tag then None
      else (case frame_len_at buf position of
              None \<Rightarrow> None
            | Some len \<Rightarrow> if position + len \<le> length buf then Some len else None))"

definition max_batch_size :: nat where "max_batch_size = 64 * 1024"

lemma next_data_row_len_Some:
  assumes "next_data_row_len buf position = Some len"
  shows "0 < len" "position + len \<le> length buf" "position < length buf" "buf ! position = data_row_tag"
    "frame_len_at buf position = Some len"
  using assms by (auto simp: next_data_row_len_def frame_len_at_def split: if_splits option.splits)

function batch_loop :: "string \<Rightarrow> nat \<Rightarrow> nat" where
  "batch_loop buf total_len =
     (case next_data_row_len buf total_len of
        None \<Rightarrow> total_len
      | Some next_len \<Rightarrow>
          if total_len + next_len > max_batch_size then total_len else batch_loop buf (total_len + next_len))"
  by auto

termination
proof (relation "measure (\<lambda>(buf, total_len). length buf - total_len)")
  fix buf total_len next_len
  assume "next_data_row_len buf total_len = Some next_len"
  from next_data_row_len_Some [OF this]
  show "((buf, total_len + next_len), (buf, total_len)) \<in> measure (\<lambda>(buf, total_len). length buf - total_len)" by simp
qed simp

declare batch_loop.simps [simp del]

definition data_rows_batch_len :: "string \<Rightarrow> nat \<Rightarrow> nat" where
  "data_rows_batch_len buf first_len = batch_loop buf first_len"

definition message_decode ::
  "pg_connection_state \<Rightarrow> string \<Rightarrow> backend_type pg_message decoded \<times> pg_connection_state \<times> string" where
  "message_decode st buf =
     (case buf of
        [] \<Rightarrow> (DecMore, st, buf)
      | first_byte # _ \<Rightarrow>
          (case map_of backend_message_type_map first_byte of
             None \<Rightarrow> (DecErr (UnrecognizedMessageType (escape_ascii first_byte)), st, buf)
           | Some msg_type \<Rightarrow>
               if length buf < 5 then (DecMore, st, buf)
               else (case frame_len_at buf 0 of
                       None \<Rightarrow> (DecErr (IoError IoInvalidData ''negative backend message length''), st, buf)
                     | Some msg_len \<Rightarrow>
                         if length buf < msg_len then (DecMore, st, buf)
                         else item_split_to st msg_type
                                (if msg_type = BtDataRows then data_rows_batch_len buf msg_len else msg_len)
                                buf)))"

fun backend_decode ::
  "pg_connection_state \<Rightarrow> string \<Rightarrow> backend_type pg_message decoded \<times> pg_connection_state \<times> string" where
  "backend_decode st [] = (DecMore, st, [])"
| "backend_decode PgStartup buf = backend_startup_decode buf"
| "backend_decode PgAuthentication buf = handle_authentication_message PgAuthentication buf"
| "backend_decode PgQuery buf = message_decode PgQuery buf"

subsection \<open>Contents of backend messages\<close>

datatype transaction_status = TsIdle | TsInTransaction | TsFailed

definition from_ready_for_query :: "string \<Rightarrow> transaction_status" where
  "from_ready_for_query data =
     (if length data \<le> 5 then TsFailed
      else if data ! 5 = CHR ''I'' then TsIdle
      else if data ! 5 = CHR ''T'' then TsInTransaction
      else TsFailed)"

fun ready_for_query_message :: "transaction_status \<Rightarrow> string" where
  "ready_for_query_message TsIdle = [CHR ''Z'', CHR 0x00, CHR 0x00, CHR 0x00, CHR 0x05, CHR ''I'']"
| "ready_for_query_message TsInTransaction = [CHR ''Z'', CHR 0x00, CHR 0x00, CHR 0x00, CHR 0x05, CHR ''T'']"
| "ready_for_query_message TsFailed = [CHR ''Z'', CHR 0x00, CHR 0x00, CHR 0x00, CHR 0x05, CHR ''E'']"

definition parameter_status_parse :: "string \<Rightarrow> (string \<times> string) option" where
  "parameter_status_parse data =
     (if length data < 5 then None
      else (case slice_split (drop 5 data) of
              name # v # _ \<Rightarrow>
                (case from_utf8 name of
                   None \<Rightarrow> None
                 | Some n \<Rightarrow> map_option (\<lambda>w. (n, w)) (from_utf8 v))
            | _ \<Rightarrow> None))"

definition authentication_type :: "string \<Rightarrow> int option" where
  "authentication_type data = (if length data < 9 then None else Some (get_i32 (drop 5 data)))"

definition data_row_first_column :: "string \<Rightarrow> string option" where
  "data_row_first_column data =
     (if length data < 7 then None
      else (let payload = drop 7 data in
            if length payload < 4 then None
            else (let col_len = get_i32 payload in
                  if col_len < 0 then None
                  else if length payload < 4 + nat col_len then None
                  else from_utf8 (take (nat col_len) (drop 4 payload)))))"

function first_columns_loop :: "string \<Rightarrow> nat \<Rightarrow> string list \<Rightarrow> string list" where
  "first_columns_loop data pos out =
     (if length data \<le> pos \<or> data ! pos \<noteq> data_row_tag then out
      else if length data < pos + 5 then out
      else (case usize_try_from (get_i32 (drop (pos + 1) data)) of
              None \<Rightarrow> out
            | Some body_len \<Rightarrow>
                (let msg_end = pos + 1 + body_len in
                 if length data < msg_end then out
                 else first_columns_loop data msg_end
                        (case data_row_first_column (take (msg_end - pos) (drop pos data)) of
                           None \<Rightarrow> out
                         | Some column \<Rightarrow> out @ [column]))))"
  by auto

termination
  by (relation "measure (\<lambda>(data, pos, out). length data - pos)") auto

declare first_columns_loop.simps [simp del]

definition data_rows_first_columns :: "string \<Rightarrow> string list \<Rightarrow> string list" where
  "data_rows_first_columns data out = first_columns_loop data 0 out"

end
