(* ===== verification/Wire_Codec.thy ===== *)
theory Wire_Codec
  imports Wire_Frames
begin

text \<open>
  What the codecs of \<^verbatim>\<open>Wire_Frames\<close> promise to the connection that calls them. The bytes of a
  connection arrive in chunks; \<open>codec_reads\<close> is the sequence of decoder calls made on them: a
  decoder is called again after every message, and waits for a chunk when it asks for more bytes.

  The locale \<open>byte_codec\<close> is the contract both codecs keep: no byte is lost, invented or
  reordered. The locale \<open>prefix_codec\<close> adds that bytes which follow a complete message do not
  change it; it holds of the frontend codec, and gives that the messages do not depend on how the
  stream was cut into chunks. The backend codec batches data rows, so the size of its batches does
  depend on the chunks; the end of the theory says what a batch contains.
\<close>

subsection \<open>Reading a stream\<close>

datatype read_end = EndWait pg_connection_state string | EndErr protocol_error | EndPanic

type_synonym 't decoder = "pg_connection_state \<Rightarrow> string \<Rightarrow> 't pg_message decoded \<times> pg_connection_state \<times> string"

inductive codec_reads ::
  "'t decoder \<Rightarrow> pg_connection_state \<Rightarrow> string \<Rightarrow> string list \<Rightarrow> 't pg_message list \<Rightarrow> read_end \<Rightarrow> bool"
  for decode :: "'t decoder" where
  reads_end: "decode st buf = (DecMore, st1, buf1) \<Longrightarrow> codec_reads decode st buf [] [] (EndWait st1 buf1)"
| reads_chunk: "decode st buf = (DecMore, st1, buf1) \<Longrightarrow> codec_reads decode st1 (buf1 @ c) cs ms e \<Longrightarrow>
    codec_reads decode st buf (c # cs) ms e"
| reads_item: "decode st buf = (DecItem m, st1, buf1) \<Longrightarrow> codec_reads decode st1 buf1 cs ms e \<Longrightarrow>
    codec_reads decode st buf cs (m # ms) e"
| reads_err: "decode st buf = (DecErr x, st1, buf1) \<Longrightarrow> codec_reads decode st buf cs [] (EndErr x)"
| reads_panic: "decode st buf = (DecPanic, st1, buf1) \<Longrightarrow> codec_reads decode st buf cs [] EndPanic"

inductive_cases codec_reads_Nil: "codec_reads decode st buf [] ms e"

locale byte_codec =
  fixes decode :: "'t decoder"
  assumes decode_more: "decode st buf = (DecMore, st1, buf1) \<Longrightarrow> st1 = st \<and> buf1 = buf"
    and decode_item: "decode st buf = (DecItem m, st1, rest) \<Longrightarrow> buf = message_data m @ rest"
begin

lemma reads_bytes:
  "codec_reads decode st buf cs ms e \<Longrightarrow>
     \<exists>unread. buf @ concat cs = concat (map message_data ms) @ unread \<and>
       (\<forall>st1 rest. e = EndWait st1 rest \<longrightarrow> unread = rest)"
proof (induction rule: codec_reads.induct)
  case (reads_end st buf st1 buf1)
  then show ?case by (auto dest: decode_more)
next
  case (reads_chunk st buf st1 buf1 c cs ms e)
  then show ?case by (auto dest!: decode_more)
next
  case (reads_item st buf m st1 buf1 cs ms e)
  then show ?case by (auto dest!: decode_item)
qed auto

lemma reads_deterministic_Nil:
  "codec_reads decode st buf cs ms e \<Longrightarrow> cs = [] \<Longrightarrow> codec_reads decode st buf [] ms1 e1 \<Longrightarrow> ms1 = ms \<and> e1 = e"
proof (induction arbitrary: ms1 rule: codec_reads.induct)
  case (reads_item st buf m st1 buf1 cs ms e)
  from reads_item.prems(2) show ?case
    by (rule codec_reads_Nil) (use reads_item.hyps reads_item.IH [OF reads_item.prems(1)] in auto)
qed (auto elim: codec_reads_Nil)

text \<open>The calls end when every message takes at least one byte, in the states \<open>live\<close> that are reached.\<close>

lemma reads_exists:
  assumes progress: "\<And>st buf m st1 rest. live st \<Longrightarrow> decode st buf = (DecItem m, st1, rest) \<Longrightarrow>
      live st1 \<and> message_data m \<noteq> []"
    and "live st"
  shows "\<exists>ms e. codec_reads decode st buf cs ms e"
  using assms(2)
proof (induction "length buf + length (concat cs) + length cs" arbitrary: st buf cs rule: less_induct)
  case less
  show ?case
  proof (cases "decode st buf")
    case (fields r st1 rest)
    show ?thesis
    proof (cases r)
      case DecMore
      with fields have d: "decode st buf = (DecMore, st1, rest)" by simp
      from decode_more [OF d] have same: "st1 = st" "rest = buf" by auto
      show ?thesis
      proof (cases cs)
        case Nil
        with d show ?thesis by (auto intro: reads_end)
      next
        case (Cons c cs')
        from less.hyps [of "buf @ c" cs' st] less.prems Cons
        obtain ms e where "codec_reads decode st (buf @ c) cs' ms e" by auto
        with d same Cons show ?thesis by (auto intro: reads_chunk)
      qed
    next
      case (DecItem m)
      with fields have d: "decode st buf = (DecItem m, st1, rest)" by simp
      from progress [OF less.prems d] decode_item [OF d] have "live st1" "length rest < length buf" by auto
      with less.hyps [of rest cs st1] obtain ms e where "codec_reads decode st1 rest cs ms e" by auto
      with d show ?thesis by (auto intro: reads_item)
    qed (use fields in \<open>auto intro: codec_reads.intros\<close>)
  qed
qed

end

locale prefix_codec = byte_codec +
  assumes decode_prefix: "decode st buf = (r, st1, rest) \<Longrightarrow> r \<noteq> DecMore \<Longrightarrow>
    decode st (buf @ later) = (r, st1, rest @ later)"
begin

lemma reads_joined: "codec_reads decode st buf cs ms e \<Longrightarrow> codec_reads decode st (buf @ concat cs) [] ms e"
proof (induction rule: codec_reads.induct)
  case (reads_end st buf st1 buf1)
  then show ?case by (auto intro: codec_reads.reads_end)
next
  case (reads_chunk st buf st1 buf1 c cs ms e)
  then show ?case by (auto dest!: decode_more)
next
  case (reads_item st buf m st1 buf1 cs ms e)
  then show ?case by (auto intro: codec_reads.reads_item dest: decode_prefix [where later = "concat cs"])
next
  case (reads_err st buf x st1 buf1 cs)
  then show ?case by (auto intro: codec_reads.reads_err dest: decode_prefix [where later = "concat cs"])
next
  case (reads_panic st buf st1 buf1 cs)
  then show ?case by (auto intro: codec_reads.reads_panic dest: decode_prefix [where later = "concat cs"])
qed

lemma chunks_irrelevant:
  assumes "codec_reads decode st buf cs ms e" "codec_reads decode st buf ds ms1 e1" "concat cs = concat ds"
  shows "ms1 = ms \<and> e1 = e"
  using reads_deterministic_Nil [OF reads_joined [OF assms(1)] refl] reads_joined [OF assms(2)] assms(3) by simp

end

subsection \<open>The frontend codec\<close>

lemma get_append [simp]:
  "4 \<le> length a \<Longrightarrow> get_i32 (a @ b) = get_i32 a"
  "2 \<le> length a \<Longrightarrow> get_i16 (a @ b) = get_i16 a"
  by (simp_all add: get_i32_def get_i16_def)

text \<open>
  The guards keep every split and every read inside the buffer, but for one: with those checks
  resolved, the decoders are the following equations.
\<close>

lemma frontend_startup_decode_eq:
  "frontend_startup_decode buf =
     (if length buf < 8 then (DecMore, PgStartup, buf)
      else (case usize_try_from (get_i32 buf) of
              None \<Rightarrow> (DecErr InvalidStartupFrame, PgStartup, buf)
            | Some msg_len \<Rightarrow>
                if length buf < msg_len then (DecMore, PgStartup, buf)
                else (let major = get_i16 (drop 4 buf); minor = get_i16 (drop 6 buf) in
                      if major = 3 \<and> minor = 0 then
                        (if msg_len < 2 then (DecPanic, PgStartup, buf)
                         else if get_i16 (drop (msg_len - 2) buf) \<noteq> 0
                              then (DecErr InvalidStartupFrame, PgStartup, buf)
                         else (DecItem (PgMessage FtStartup (take msg_len buf)), PgQuery, drop msg_len buf))
                      else if major = 1234 \<and> minor = 5678 then
                        (DecItem (PgMessage FtCancelRequest (take msg_len buf)), PgStartup, drop msg_len buf)
                      else if major = 1234 \<and> minor = 5679 then
                        (DecItem (PgMessage FtSslRequest (take msg_len buf)), PgStartup, drop msg_len buf)
                      else (DecErr (InvalidProtocolVersion major minor), PgStartup, buf))))"
proof (cases "length buf < 8")
  case True
  then show ?thesis by (simp add: frontend_startup_decode_def)
next
  case False
  then have "split_at 4 buf = Some (take 4 buf, drop 4 buf)" by (simp add: split_at_def)
  moreover have "slice_i16_at 2 (drop 4 buf) = Some (get_i16 (drop 6 buf))" using False by simp
  ultimately show ?thesis
    using False unfolding frontend_startup_decode_def
    by (cases "usize_try_from (get_i32 buf)") (auto simp: item_split_to_fits Let_def)
qed

lemma frontend_tagged_decode_eq:
  "frontend_tagged_decode st buf =
     (case buf of
        [] \<Rightarrow> (DecMore, st, buf)
      | first_byte # _ \<Rightarrow>
          (case map_of frontend_message_type_map first_byte of
             None \<Rightarrow> (DecErr (UnrecognizedMessageType (escape_ascii first_byte)), st, buf)
           | Some msg_type \<Rightarrow>
               if length buf < 5 then (DecMore, st, buf)
               else (case usize_try_from (get_i32 (drop 1 buf)) of
                       None \<Rightarrow> (DecErr (IoError IoInvalidData ''negative frontend message length''), st, buf)
                     | Some n \<Rightarrow>
                         if length buf < n + 1 then (DecMore, st, buf)
                         else (DecItem (PgMessage msg_type (take (n + 1) buf)), st, drop (n + 1) buf))))"
proof (cases "length buf < 5")
  case True
  then show ?thesis by (auto simp: frontend_tagged_decode_def split: list.splits option.splits)
next
  case False
  then have "slice_i32_at 1 buf = Some (get_i32 (drop 1 buf))" by simp
  with False show ?thesis
    unfolding frontend_tagged_decode_def Let_def
    by (auto simp: item_split_to_fits split: list.splits option.splits)
qed

lemmas codec_defs = frontend_startup_decode_eq frontend_tagged_decode_eq Let_def

lemma usize_try_from_Some: "usize_try_from i = Some n \<longleftrightarrow> 0 \<le> i \<and> n = nat i"
  by (auto simp: usize_try_from_def)

lemma frontend_startup_prefix:
  assumes "frontend_startup_decode buf = (r, st1, rest)" "r \<noteq> DecMore"
  shows "frontend_startup_decode (buf @ later) = (r, st1, rest @ later)"
  using assms unfolding codec_defs by (auto split: if_splits option.splits)

lemma frontend_tagged_prefix:
  assumes "frontend_tagged_decode st buf = (r, st1, rest)" "r \<noteq> DecMore"
  shows "frontend_tagged_decode st (buf @ later) = (r, st1, rest @ later)"
  using assms unfolding codec_defs by (auto split: if_splits option.splits list.splits)

lemma frontend_decode_eq:
  "frontend_decode st buf =
     (if buf = [] then (DecMore, st, buf)
      else if st = PgStartup then frontend_startup_decode buf else frontend_tagged_decode st buf)"
  by (cases st; cases buf) auto

interpretation fc: prefix_codec frontend_decode
proof unfold_locales
  fix st buf st1 buf1
  assume "frontend_decode st buf = (DecMore, st1, buf1)"
  then show "st1 = st \<and> buf1 = buf"
    unfolding frontend_decode_eq codec_defs by (auto split: if_splits option.splits list.splits)
next
  fix st buf m st1 rest
  assume "frontend_decode st buf = (DecItem m, st1, rest)"
  then show "buf = message_data m @ rest"
    unfolding frontend_decode_eq codec_defs by (auto split: if_splits option.splits list.splits)
next
  fix st buf r st1 rest later
  assume d: "frontend_decode st buf = (r, st1, rest)" "r \<noteq> DecMore"
  then show "frontend_decode st (buf @ later) = (r, st1, rest @ later)"
    using frontend_startup_prefix [of buf r st1 rest later] frontend_tagged_prefix [of st buf r st1 rest later]
    unfolding frontend_decode_eq by (auto split: if_splits)
qed

lemma frontend_progress:
  assumes "st \<noteq> PgStartup" "frontend_decode st buf = (DecItem m, st1, rest)"
  shows "st1 \<noteq> PgStartup \<and> message_data m \<noteq> []"
  using assms unfolding frontend_decode_eq codec_defs by (auto split: if_splits option.splits list.splits)

text \<open>
  C34. However the bytes of a client are cut into chunks, the frontend codec decodes the same
  messages and ends in the same way, be it waiting, with an error or with a panic; and the
  messages together with the bytes it still holds are exactly the bytes that arrived.
\<close>

theorem frontend_chunks_irrelevant:
  assumes "codec_reads frontend_decode st [] cs ms e" "codec_reads frontend_decode st [] ds ms1 e1"
    and "concat cs = concat ds"
  shows "ms1 = ms \<and> e1 = e \<and> (\<forall>st1 rest. e = EndWait st1 rest \<longrightarrow> concat cs = concat (map message_data ms) @ rest)"
  using fc.chunks_irrelevant [OF assms] fc.reads_bytes [OF assms(1)] by auto

subsection \<open>The backend codec\<close>

lemma backend_decode_eq:
  "backend_decode st buf =
     (if buf = [] then (DecMore, st, buf)
      else if st = PgStartup then backend_startup_decode buf
      else if st = PgAuthentication then handle_authentication_message st buf else message_decode st buf)"
  by (cases st; cases buf) auto

lemma handle_authentication_message_eq:
  "handle_authentication_message st buf =
     (if length buf < 9 then (DecMore, st, buf)
      else (case usize_try_from (get_i32 (drop 1 buf)) of
              None \<Rightarrow> (DecErr InvalidStartupFrame, st, buf)
            | Some n \<Rightarrow>
                if length buf < n + 1 then (DecMore, st, buf)
                else (DecItem (PgMessage BtAuthentication (take (n + 1) buf)),
                      if get_i32 (drop 5 buf) = authentication_ok then PgQuery else PgAuthentication,
                      drop (n + 1) buf)))"
  unfolding handle_authentication_message_def Let_def
  by (auto simp: item_split_to_fits split: option.splits)

lemma batch_loop_bounds:
  "total_len \<le> length buf \<Longrightarrow> total_len \<le> batch_loop buf total_len \<and> batch_loop buf total_len \<le> length buf"
proof (induction buf total_len rule: batch_loop.induct)
  case (1 buf total_len)
  show ?case
  proof (cases "next_data_row_len buf total_len")
    case None
    with 1 show ?thesis by (simp add: batch_loop.simps [of buf total_len])
  next
    case (Some next_len)
    with 1 next_data_row_len_Some [OF Some] show ?thesis
      by (auto simp: batch_loop.simps [of buf total_len])
  qed
qed

text \<open>The length the backend decoder splits off: never more than the buffer holds.\<close>

definition backend_item_len :: "backend_type \<Rightarrow> nat \<Rightarrow> string \<Rightarrow> nat" where
  "backend_item_len t msg_len buf = (if t = BtDataRows then data_rows_batch_len buf msg_len else msg_len)"

lemma backend_item_len_bounds:
  "msg_len \<le> length buf \<Longrightarrow> msg_len \<le> backend_item_len t msg_len buf \<and> backend_item_len t msg_len buf \<le> length buf"
  using batch_loop_bounds [of msg_len buf] by (simp add: backend_item_len_def data_rows_batch_len_def)

lemma message_decode_eq:
  "message_decode st buf =
     (case buf of
        [] \<Rightarrow> (DecMore, st, buf)
      | first_byte # _ \<Rightarrow>
          (case map_of backend_message_type_map first_byte of
             None \<Rightarrow> (DecErr (UnrecognizedMessageType (escape_ascii first_byte)), st, buf)
           | Some msg_type \<Rightarrow>
               if length buf < 5 then (DecMore, st, buf)
               else (case frame_len_at buf 0 of
                       None \<Rightarrow> (DecErr (IoError IoInvalidData ''negative backend message length''), st, buf)
                     | Some msg_len \<Rightarrow>
                         if length buf < msg_len then (DecMore, st, buf)
                         else (DecItem (PgMessage msg_type (take (backend_item_len msg_type msg_len buf) buf)), st,
                               drop (backend_item_len msg_type msg_len buf) buf))))"
proof -
  have fits: "item_split_to st t (if t = BtDataRows then data_rows_batch_len buf n else n) buf =
      (DecItem (PgMessage t (take (backend_item_len t n buf) buf)), st, drop (backend_item_len t n buf) buf)"
    if "\<not> length buf < n" for t n
    using item_split_to_fits [of "backend_item_len t n buf" buf st t] backend_item_len_bounds [of n buf t] that
    by (simp add: backend_item_len_def)
  show ?thesis unfolding message_decode_def by (simp add: fits split: list.splits option.splits)
qed

lemma backend_startup_decode_eq:
  "backend_startup_decode buf =
     (case buf of
        [] \<Rightarrow> (DecMore, PgStartup, buf)
      | first_byte # rest \<Rightarrow>
          if first_byte = CHR ''S'' \<or> first_byte = CHR ''N''
          then (DecItem (PgMessage BtSslRequestResponse [first_byte]), PgStartup, rest)
          else if first_byte = CHR ''R'' then handle_authentication_message PgStartup buf
          else (DecErr InvalidStartupFrame, PgStartup, buf))"
  by (auto simp: backend_startup_decode_def item_split_to_fits split: list.splits)

lemmas backend_codec_defs = backend_startup_decode_eq handle_authentication_message_eq message_decode_eq Let_def

interpretation bc: byte_codec backend_decode
proof unfold_locales
  fix st buf st1 buf1
  assume "backend_decode st buf = (DecMore, st1, buf1)"
  then show "st1 = st \<and> buf1 = buf"
    unfolding backend_decode_eq backend_codec_defs by (auto split: if_splits option.splits list.splits)
next
  fix st buf m st1 rest
  assume "backend_decode st buf = (DecItem m, st1, rest)"
  then show "buf = message_data m @ rest"
    unfolding backend_decode_eq backend_codec_defs by (auto split: if_splits option.splits list.splits)
qed

lemma message_decode_item:
  assumes "message_decode st buf = (DecItem m, st1, rest)"
  obtains len where "frame_len_at buf 0 = Some len" "len \<le> length buf" "5 \<le> length buf"
    "map_of backend_message_type_map (hd buf) = Some (message_type m)" "st1 = st"
    "message_data m = take (if message_type m = BtDataRows then data_rows_batch_len buf len else len) buf"
    "rest = drop (if message_type m = BtDataRows then data_rows_batch_len buf len else len) buf"
  using assms unfolding message_decode_eq backend_item_len_def
  by (auto split: if_splits option.splits list.splits)

lemma frame_len_at_pos: "frame_len_at buf position = Some len \<Longrightarrow> 0 < len"
  by (auto simp: frame_len_at_def split: if_splits)

lemma message_decode_progress:
  assumes "message_decode st buf = (DecItem m, st1, rest)"
  shows "message_data m \<noteq> []"
  using assms
proof (rule message_decode_item)
  fix len
  assume len: "frame_len_at buf 0 = Some len" "len \<le> length buf" "5 \<le> length buf"
    and data: "message_data m = take (if message_type m = BtDataRows then data_rows_batch_len buf len else len) buf"
  from batch_loop_bounds [OF len(2)] frame_len_at_pos [OF len(1)]
  have "0 < (if message_type m = BtDataRows then data_rows_batch_len buf len else len)"
    by (simp add: data_rows_batch_len_def)
  with len(3) show "message_data m \<noteq> []" unfolding data by (auto simp: take_eq_Nil)
qed

lemma backend_progress:
  assumes "backend_decode st buf = (DecItem m, st1, rest)"
  shows "message_data m \<noteq> []"
proof (cases "st = PgQuery")
  case True
  with assms have "message_decode st buf = (DecItem m, st1, rest)"
    by (simp add: backend_decode_eq split: if_splits)
  then show ?thesis by (rule message_decode_progress)
next
  case False
  with assms show ?thesis
    unfolding backend_decode_eq backend_startup_decode_eq handle_authentication_message_eq
    by (cases st) (auto split: if_splits option.splits list.splits)
qed

lemma backend_no_panic: "backend_decode st buf \<noteq> (DecPanic, st1, rest)"
proof
  assume "backend_decode st buf = (DecPanic, st1, rest)"
  then show False
    unfolding backend_decode_eq backend_codec_defs by (auto split: if_splits option.splits list.splits)
qed

lemma frontend_no_panic: "st \<noteq> PgStartup \<Longrightarrow> frontend_decode st buf \<noteq> (DecPanic, st1, rest)"
proof
  assume "st \<noteq> PgStartup" "frontend_decode st buf = (DecPanic, st1, rest)"
  then show False
    unfolding frontend_decode_eq codec_defs by (auto split: if_splits option.splits list.splits)
qed

lemma backend_reads_no_panic: "codec_reads backend_decode st buf cs ms e \<Longrightarrow> e \<noteq> EndPanic"
  by (induction rule: codec_reads.induct) (simp_all add: backend_no_panic)

lemma frontend_reads_no_panic:
  "codec_reads frontend_decode st buf cs ms e \<Longrightarrow> st \<noteq> PgStartup \<Longrightarrow> e \<noteq> EndPanic"
proof (induction rule: codec_reads.induct)
  case (reads_chunk st buf st1 buf1 c cs ms e)
  with fc.decode_more [OF reads_chunk.hyps(1)] show ?case by simp
next
  case (reads_item st buf m st1 buf1 cs ms e)
  from frontend_progress [OF reads_item.prems reads_item.hyps(1)] reads_item.IH show ?case by simp
next
  case (reads_panic st buf st1 buf1 cs)
  with frontend_no_panic show ?case by simp
qed simp_all

text \<open>
  C35. Decoding always comes to an end: whatever bytes the server sends, in whatever chunks, the
  backend codec reads them up to a wait or an error in finitely many calls and never panics, that
  is, never splits off or reads more bytes than the buffer holds; so does the frontend codec once
  the start-up message has been read.
\<close>

theorem codecs_read_to_the_end:
  "(\<exists>ms e. codec_reads backend_decode st [] cs ms e \<and> e \<noteq> EndPanic) \<and>
   (st \<noteq> PgStartup \<longrightarrow> (\<exists>ms e. codec_reads frontend_decode st [] cs ms e \<and> e \<noteq> EndPanic))"
proof (intro conjI impI)
  have "\<exists>ms e. codec_reads backend_decode st [] cs ms e"
    by (rule bc.reads_exists [where live = "\<lambda>_. True"]) (simp_all add: backend_progress)
  then obtain ms e where "codec_reads backend_decode st [] cs ms e" by (elim exE)
  with backend_reads_no_panic [OF this]
  show "\<exists>ms e. codec_reads backend_decode st [] cs ms e \<and> e \<noteq> EndPanic" by (intro exI conjI)
next
  assume st: "st \<noteq> PgStartup"
  have "\<exists>ms e. codec_reads frontend_decode st [] cs ms e"
    by (rule fc.reads_exists [where live = "\<lambda>st. st \<noteq> PgStartup"]) (erule frontend_progress, assumption, rule st)
  then obtain ms e where "codec_reads frontend_decode st [] cs ms e" by (elim exE)
  with frontend_reads_no_panic [OF this st]
  show "\<exists>ms e. codec_reads frontend_decode st [] cs ms e \<and> e \<noteq> EndPanic" by (intro exI conjI)
qed

theorem codecs_read_to_the_end_witness:
  "\<exists>ms e. codec_reads frontend_decode PgQuery [] [''Q'', put_i32 5, [CHR 0x00]] ms e \<and> e \<noteq> EndPanic"
  using codecs_read_to_the_end [of PgQuery "[''Q'', put_i32 5, [CHR 0x00]]"] by simp


definition sync_frame :: string where
  "sync_frame = [CHR ''S'', CHR 0x00, CHR 0x00, CHR 0x00, CHR 0x04]"

lemma sync_decode:
  "frontend_decode PgQuery sync_frame = (DecItem (PgMessage FtSync sync_frame), PgQuery, [])"
  "frontend_decode PgQuery (take 2 sync_frame) = (DecMore, PgQuery, take 2 sync_frame)"
  "frontend_decode PgQuery [] = (DecMore, PgQuery, [])"
  by (simp_all add: sync_frame_def frontend_decode_eq codec_defs frontend_message_type_map_def get_i32_def
      be_decode_def to_signed_def usize_try_from_def)

lemma sync_reads:
  "codec_reads frontend_decode PgQuery [] [sync_frame] [PgMessage FtSync sync_frame] (EndWait PgQuery [])"
  "codec_reads frontend_decode PgQuery [] [take 2 sync_frame, drop 2 sync_frame] [PgMessage FtSync sync_frame] (EndWait PgQuery [])"
proof -
  have whole: "codec_reads frontend_decode PgQuery sync_frame [] [PgMessage FtSync sync_frame] (EndWait PgQuery [])"
    by (rule reads_item, rule sync_decode(1), rule reads_end, rule sync_decode(3))
  show "codec_reads frontend_decode PgQuery [] [sync_frame] [PgMessage FtSync sync_frame] (EndWait PgQuery [])"
    by (rule reads_chunk, rule sync_decode(3)) (simp add: whole)
  have part: "codec_reads frontend_decode PgQuery (take 2 sync_frame) [drop 2 sync_frame] [PgMessage FtSync sync_frame] (EndWait PgQuery [])"
    by (rule reads_chunk, rule sync_decode(2)) (simp add: whole)
  show "codec_reads frontend_decode PgQuery [] [take 2 sync_frame, drop 2 sync_frame] [PgMessage FtSync sync_frame] (EndWait PgQuery [])"
    by (rule reads_chunk, rule sync_decode(3)) (simp add: part)
qed

theorem frontend_chunks_irrelevant_witness:
  "codec_reads frontend_decode PgQuery [] [sync_frame] [PgMessage FtSync sync_frame] (EndWait PgQuery []) \<and>
   concat [sync_frame] = concat (map message_data [PgMessage FtSync sync_frame]) @ []"
  using frontend_chunks_irrelevant [OF sync_reads(2) sync_reads(1)] sync_reads(1) by simp

subsection \<open>The start-up frame\<close>

lemma frontend_panics_iff:
  "(\<exists>st1 rest. frontend_decode st buf = (DecPanic, st1, rest)) \<longleftrightarrow>
     st = PgStartup \<and> 8 \<le> length buf \<and> get_i32 buf \<in> {0, 1} \<and> get_i16 (drop 4 buf) = 3 \<and> get_i16 (drop 6 buf) = 0"
  (is "?panic \<longleftrightarrow> ?frame")
proof
  assume ?panic
  then obtain st1 rest where d: "frontend_decode st buf = (DecPanic, st1, rest)" by (elim exE)
  with frontend_no_panic have st: "st = PgStartup" by blast
  with d show ?frame
    unfolding frontend_decode_eq codec_defs by (auto simp: usize_try_from_Some split: if_splits option.splits)
next
  assume frame: ?frame
  then have "buf \<noteq> []" "frontend_startup_decode buf = (DecPanic, PgStartup, buf)"
    unfolding codec_defs by (auto simp: usize_try_from_def)
  with frame show ?panic by (simp add: frontend_decode_eq)
qed

lemma stuck_never_ends:
  "codec_reads decode st b cs ms e \<Longrightarrow> decode st0 buf = (DecItem m, st0, buf) \<Longrightarrow> \<not> (st = st0 \<and> b = buf)"
  by (induction rule: codec_reads.induct) auto

lemma zero_length_request:
  assumes "8 \<le> length buf" "get_i32 buf = 0" "get_i16 (drop 4 buf) = 1234" "get_i16 (drop 6 buf) \<in> {5678, 5679}"
  shows "\<exists>t. frontend_decode PgStartup buf = (DecItem (PgMessage t []), PgStartup, buf)"
proof -
  have "buf \<noteq> []" using assms(1) by auto
  with assms show ?thesis by (auto simp: frontend_decode_eq codec_defs usize_try_from_def)
qed

text \<open>
  C39. The one way a frontend decoder call can panic is a start-up message whose length word is 0
  or 1: the start of its final two bytes is computed by subtracting 2 from it. Every other split
  and every read of an integer is guarded: none of them reaches past the end of the buffer. A cancel or SSL
  request whose length word is 0 is handed out without a byte being taken from the buffer, so the
  decoder hands it out again and again: no sequence of calls on that buffer ends.
\<close>

theorem startup_length_word:
  "((\<exists>st1 rest. frontend_decode st buf = (DecPanic, st1, rest)) \<longleftrightarrow>
      st = PgStartup \<and> 8 \<le> length buf \<and> get_i32 buf \<in> {0, 1} \<and>
      get_i16 (drop 4 buf) = 3 \<and> get_i16 (drop 6 buf) = 0) \<and>
   (8 \<le> length buf \<and> get_i32 buf = 0 \<and> get_i16 (drop 4 buf) = 1234 \<and> get_i16 (drop 6 buf) \<in> {5678, 5679} \<longrightarrow>
      \<not> (\<exists>ms e. codec_reads frontend_decode PgStartup buf cs ms e))"
proof (intro conjI impI)
  assume "8 \<le> length buf \<and> get_i32 buf = 0 \<and> get_i16 (drop 4 buf) = 1234 \<and> get_i16 (drop 6 buf) \<in> {5678, 5679}"
  with zero_length_request [of buf]
  obtain t where "frontend_decode PgStartup buf = (DecItem (PgMessage t []), PgStartup, buf)" by blast
  then show "\<not> (\<exists>ms e. codec_reads frontend_decode PgStartup buf cs ms e)"
    using stuck_never_ends [of frontend_decode PgStartup buf cs _ _ PgStartup buf] by blast
qed (rule frontend_panics_iff)

theorem startup_length_word_witness:
  "\<not> (\<exists>ms e. codec_reads frontend_decode PgStartup (put_i32 0 @ put_i16 1234 @ put_i16 5679) [] ms e)"
  using startup_length_word [of PgStartup "put_i32 0 @ put_i16 1234 @ put_i16 5679" "[]"]
    get_put_i32 [of 0 "put_i16 1234 @ put_i16 5679"] get_put_i16 [of 1234 "put_i16 5679"] get_put_i16 [of 5679 "[]"]
  by simp

subsection \<open>Batches of data rows\<close>

text \<open>
  A whole data row of \<open>n\<close> bytes at the start of \<open>bytes\<close>, by the protocol's own description: the tag
  byte \<open>D\<close> and a length word that counts itself and the row's columns but not the tag, and the
  buffer holds all of them. \<open>row_frames rows rest\<close>: each of \<open>rows\<close> is one whole data row of the
  bytes \<open>concat rows @ rest\<close>.
\<close>

definition whole_row :: "string \<Rightarrow> nat \<Rightarrow> bool" where
  "whole_row bytes n \<longleftrightarrow>
     5 \<le> length bytes \<and> bytes ! 0 = CHR ''D'' \<and> get_i32 (drop 1 bytes) = int n - 1 \<and> 1 \<le> n \<and> n \<le> length bytes"

fun row_frames :: "string list \<Rightarrow> string \<Rightarrow> bool" where
  "row_frames [] rest \<longleftrightarrow> True"
| "row_frames (r # rs) rest \<longleftrightarrow> whole_row (r @ concat rs @ rest) (length r) \<and> row_frames rs rest"

lemma next_data_row_len_iff:
  assumes "position \<le> length buf"
  shows "next_data_row_len buf position = Some n \<longleftrightarrow> whole_row (drop position buf) n"
  using assms
  by (auto simp: next_data_row_len_def frame_len_at_def whole_row_def data_row_tag_def usize_try_from_def
      not_le not_less add.commute split: if_splits)

lemma batch_loop_rows:
  assumes "total_len \<le> length buf"
  shows "\<exists>rows. take (batch_loop buf total_len - total_len) (drop total_len buf) = concat rows \<and>
    row_frames rows (drop (batch_loop buf total_len) buf) \<and>
    (rows \<noteq> [] \<longrightarrow> batch_loop buf total_len \<le> max_batch_size) \<and>
    (\<forall>len. whole_row (drop (batch_loop buf total_len) buf) len \<longrightarrow>
       max_batch_size < batch_loop buf total_len + len)"
  using assms
proof (induction buf total_len rule: batch_loop.induct)
  case (1 buf total_len)
  show ?case
  proof (cases "\<exists>len. next_data_row_len buf total_len = Some len \<and> total_len + len \<le> max_batch_size")
    case False
    then have stop: "batch_loop buf total_len = total_len"
      by (subst batch_loop.simps) (auto split: option.splits)
    with False show ?thesis
      using next_data_row_len_iff [OF "1.prems"] by (intro exI [of _ "[]"]) (auto simp: not_le)
  next
    case True
    then obtain len where len: "next_data_row_len buf total_len = Some len" "total_len + len \<le> max_batch_size" by blast
    define n where "n = batch_loop buf (total_len + len)"
    have n: "batch_loop buf total_len = n" using len by (simp add: n_def batch_loop.simps [of buf total_len])
    note row = next_data_row_len_Some [OF len(1)]
    have fits: "\<not> max_batch_size < total_len + len" using len(2) by simp
    from 1(1) [OF len(1) fits row(2)] obtain rows where rows:
      "take (n - (total_len + len)) (drop (total_len + len) buf) = concat rows"
      "row_frames rows (drop n buf)" "rows \<noteq> [] \<longrightarrow> n \<le> max_batch_size"
      "\<forall>len. whole_row (drop n buf) len \<longrightarrow> max_batch_size < n + len"
      unfolding n_def by blast
    have bounds: "total_len + len \<le> n" "n \<le> length buf" using batch_loop_bounds [OF row(2)] by (auto simp: n_def)
    define r where "r = take len (drop total_len buf)"
    have "n - total_len = len + (n - (total_len + len))" using bounds by simp
    then have data: "take (n - total_len) (drop total_len buf) = r @ concat rows"
      by (simp only: take_add r_def drop_drop rows(1) [symmetric] add.commute)
    have whole: "r @ concat rows @ drop n buf = drop total_len buf"
      using append_take_drop_id [of "n - total_len" "drop total_len buf"] data bounds by simp
    have first: "whole_row (r @ concat rows @ drop n buf) (length r)"
      unfolding whole using len(1) next_data_row_len_iff [OF "1.prems"] row(2) by (simp add: r_def)
    have nle: "n \<le> max_batch_size"
    proof (cases "rows = []")
      case True
      with rows(1) bounds have "n = total_len + len" by auto
      with len(2) show ?thesis by simp
    next
      case False
      with rows(3) show ?thesis by simp
    qed
    show ?thesis unfolding n using data first rows nle by (intro exI [of _ "r # rows"]) simp
  qed
qed

lemma data_rows_tag: "map_of backend_message_type_map b = Some BtDataRows \<Longrightarrow> b = data_row_tag"
  by (simp add: backend_message_type_map_def data_row_tag_def split: if_splits)

text \<open>
  C36. A data-row message of the backend codec is a batch of whole rows: it has at least one row,
  each is exactly one frame of the stream, with the tag byte D and a length word that counts all
  its bytes but the tag, a batch of two or more rows is at most 64 KiB long, and the batch is as
  long as it can be: the next complete data row in the buffer, if there is one, would take it past
  64 KiB.
\<close>

theorem data_rows_batch:
  assumes "backend_decode PgQuery buf = (DecItem m, st1, rest)" "message_type m = BtDataRows"
  shows "\<exists>rows. rows \<noteq> [] \<and> message_data m = concat rows \<and> buf = concat rows @ rest \<and> row_frames rows rest \<and>
    (length rows = 1 \<or> length (message_data m) \<le> 65536) \<and>
    (\<forall>n. whole_row rest n \<longrightarrow> 65536 < length (message_data m) + n)"
proof -
  from assms(1) have "message_decode PgQuery buf = (DecItem m, st1, rest)"
    by (simp add: backend_decode_eq split: if_splits)
  then obtain len where len: "frame_len_at buf 0 = Some len" "len \<le> length buf" "5 \<le> length buf"
    "map_of backend_message_type_map (hd buf) = Some BtDataRows"
    "message_data m = take (batch_loop buf len) buf" "rest = drop (batch_loop buf len) buf"
    by (rule message_decode_item) (simp add: assms(2) data_rows_batch_len_def)
  define n where "n = batch_loop buf len"
  from batch_loop_rows [OF len(2)] obtain rows where rows:
    "take (n - len) (drop len buf) = concat rows" "row_frames rows rest" "rows \<noteq> [] \<longrightarrow> n \<le> max_batch_size"
    "\<forall>k. whole_row rest k \<longrightarrow> max_batch_size < n + k"
    unfolding len(6) n_def by blast
  have bounds: "len \<le> n" "n \<le> length buf" using batch_loop_bounds [OF len(2)] by (auto simp: n_def)
  have "hd buf = data_row_tag" using data_rows_tag [OF len(4)] .
  then have first: "next_data_row_len buf 0 = Some len"
    using len(1-3) by (cases buf) (auto simp: next_data_row_len_def)
  have "take n buf = take len buf @ take (n - len) (drop len buf)"
    using bounds take_add [of len "n - len" buf] by simp
  then have data: "message_data m = concat (take len buf # rows)" using len(5) rows(1) by (simp add: n_def)
  have whole: "buf = concat (take len buf # rows) @ rest"
    unfolding data [symmetric] len(5,6) by simp
  have fst_row: "whole_row (take len buf @ concat rows @ rest) (length (take len buf))"
    using whole first len(2) next_data_row_len_iff [of 0 buf len] by simp
  have size: "length (message_data m) = n" using len(5) bounds by (simp add: n_def)
  show ?thesis
    using data whole fst_row rows(2,3,4) size
    by (intro exI [of _ "take len buf # rows"]) (auto simp: max_batch_size_def)
qed

theorem data_rows_batch_witness:
  "\<exists>rows. rows \<noteq> [] \<and> [CHR ''D'', CHR 0x00, CHR 0x00, CHR 0x00, CHR 0x04] = concat rows \<and>
     row_frames rows [CHR ''D'']"
proof -
  let ?row = "[CHR ''D'', CHR 0x00, CHR 0x00, CHR 0x00, CHR 0x04]"
  have stop: "next_data_row_len (?row @ [CHR ''D'']) 5 = None"
    by (simp add: next_data_row_len_def frame_len_at_def)
  have "backend_decode PgQuery (?row @ [CHR ''D'']) = (DecItem (PgMessage BtDataRows ?row), PgQuery, [CHR ''D''])"
    using stop by (simp add: message_decode_eq backend_item_len_def backend_message_type_map_def frame_len_at_def
        data_rows_batch_len_def batch_loop.simps get_i32_def be_decode_def to_signed_def usize_try_from_def)
  from data_rows_batch [OF this] show ?thesis by auto
qed

end
