(* ===== verification/Wire_Messages.thy ===== *)
theory Wire_Messages
  imports Wire_Codec Row_Values
begin

text \<open>
  The messages inside the frames: the parsers of the extended query protocol
  (\<^verbatim>\<open>src/pg/protocol/extended.rs\<close>), the requests the proxy itself sends to a server
  (\<^verbatim>\<open>frontend_encode.rs\<close>), the responses it builds for a client (\<^verbatim>\<open>encode.rs\<close>) and the
  result formats of \<^verbatim>\<open>session.rs\<close>.

  A function that reads from a cursor takes the bytes and returns its value with the bytes left; a
  function that writes to a buffer takes the buffer and returns it extended, with the result. The
  printing of an \<^verbatim>\<open>f64\<close> is the standard library's shortest round-trip form; it is the argument
  \<open>fmt_f64\<close>. The theorems: what the proxy sends is decoded and parsed back to what was sent, for
  prepared statements and their parameters, for the start-up message and for the rows of a
  text result.
\<close>

subsection \<open>Reading from a cursor\<close>

type_synonym 'a reader = "string \<Rightarrow> protocol_error + 'a \<times> string"

definition reader_return :: "'a \<Rightarrow> 'a reader" where
  "reader_return a buf = Inr (a, buf)"

definition reader_bind :: "'a reader \<Rightarrow> ('a \<Rightarrow> 'b reader) \<Rightarrow> 'b reader" where
  "reader_bind r f buf = (case r buf of Inl e \<Rightarrow> Inl e | Inr (a, rest) \<Rightarrow> f a rest)"

text \<open>A loop that pushes the result of \<open>r\<close> onto a vector \<open>n\<close> times.\<close>

fun read_times :: "nat \<Rightarrow> 'a reader \<Rightarrow> 'a list reader" where
  "read_times 0 r = reader_return []"
| "read_times (Suc n) r = reader_bind r (\<lambda>a. reader_bind (read_times n r) (\<lambda>as. reader_return (a # as)))"

definition count_to_usize :: "int \<Rightarrow> string \<Rightarrow> protocol_error + nat" where
  "count_to_usize v what =
     (case usize_try_from v of
        None \<Rightarrow> Inl (IoError IoInvalidData (''invalid '' @ what @ '': '' @ int_text v))
      | Some n \<Rightarrow> Inr n)"

definition read_count :: "int reader \<Rightarrow> string \<Rightarrow> nat reader" where
  "read_count r what = reader_bind r (\<lambda>v buf. case count_to_usize v what of Inl e \<Rightarrow> Inl e | Inr n \<Rightarrow> Inr (n, buf))"

definition truncated :: "string \<Rightarrow> protocol_error" where
  "truncated what = IoError IoUnexpectedEof what"

definition message_body :: "string \<Rightarrow> string \<Rightarrow> protocol_error + string" where
  "message_body data too_short = (if length data < 5 then Inl (truncated too_short) else Inr (drop 5 data))"

definition read_u8 :: "string \<Rightarrow> char reader" where
  "read_u8 missing buf = (case buf of [] \<Rightarrow> Inl (truncated missing) | b # rest \<Rightarrow> Inr (b, rest))"

definition read_i16 :: "string \<Rightarrow> int reader" where
  "read_i16 missing buf = (if length buf < 2 then Inl (truncated missing) else Inr (get_i16 buf, drop 2 buf))"

definition read_i32 :: "string \<Rightarrow> int reader" where
  "read_i32 missing buf = (if length buf < 4 then Inl (truncated missing) else Inr (get_i32 buf, drop 4 buf))"

definition read_u32 :: "string \<Rightarrow> int reader" where
  "read_u32 missing buf = (if length buf < 4 then Inl (truncated missing) else Inr (get_u32 buf, drop 4 buf))"

definition read_cstring :: "string reader" where
  "read_cstring buf =
     (if CHR 0x00 \<notin> set buf then Inl (truncated ''missing null terminator'')
      else (let bytes = takeWhile (\<lambda>b. b \<noteq> CHR 0x00) buf; rest = dropWhile (\<lambda>b. b \<noteq> CHR 0x00) buf in
            case from_utf8 bytes of
              None \<Rightarrow> Inl (IoError IoInvalidData ''invalid UTF-8 in string'')
            | Some s \<Rightarrow> Inr (s, drop 1 rest)))"

definition type_oids_read :: "string \<Rightarrow> string \<Rightarrow> string \<Rightarrow> int list reader" where
  "type_oids_read count_missing count_what oid_missing =
     reader_bind (read_count (read_i16 count_missing) count_what) (\<lambda>count. read_times count (read_u32 oid_missing))"

text \<open>The value of a reader that is run on a whole message body; what is left of it is dropped.\<close>

definition reader_run :: "'a reader \<Rightarrow> string \<Rightarrow> string \<Rightarrow> protocol_error + 'a" where
  "reader_run r data too_short =
     (case message_body data too_short of
        Inl e \<Rightarrow> Inl e
      | Inr buf \<Rightarrow> (case r buf of Inl e \<Rightarrow> Inl e | Inr (a, _) \<Rightarrow> Inr a))"

subsection \<open>Parsed messages\<close>

datatype result_formats = RfImplicit | RfUniform int | RfPerColumn "int list"

definition is_binary :: "result_formats \<Rightarrow> bool" where
  "is_binary f = (case f of RfUniform code \<Rightarrow> code \<noteq> 0 | _ \<Rightarrow> False)"

record parsed_parse_message =
  pp_statement_name :: string
  pp_sql :: string
  pp_parameter_oids :: "int list"

record parsed_bind_message =
  pb_portal_name :: string
  pb_statement_name :: string
  pb_parameter_formats :: "int list"
  pb_parameter_values :: "string option list"
  pb_result_formats :: result_formats

record parsed_execute_message =
  pe_portal_name :: string
  pe_max_rows :: int

record parsed_describe_message =
  pd_describe_type :: char
  pd_name :: string

record parsed_close_message =
  pc_close_type :: char
  pc_name :: string

record parsed_parameter_description =
  ppd_parameter_oids :: "int list"

definition parse_parse_message :: "string \<Rightarrow> protocol_error + parsed_parse_message" where
  "parse_parse_message data =
     reader_run
       (reader_bind read_cstring (\<lambda>statement_name.
        reader_bind read_cstring (\<lambda>sql_str buf.
          case from_utf8 sql_str of
            None \<Rightarrow> Inl (IoError IoInvalidData ''invalid UTF-8 in SQL'')
          | Some sql \<Rightarrow>
              reader_bind
                (type_oids_read ''missing parameter count'' ''Parse parameter count'' ''missing parameter OID'')
                (\<lambda>parameter_oids. reader_return
                   \<lparr>pp_statement_name = statement_name, pp_sql = sql, pp_parameter_oids = parameter_oids\<rparr>) buf)))
       data ''Parse message too short''"

definition parameter_formats_read :: "int list reader" where
  "parameter_formats_read =
     reader_bind (read_count (read_i16 ''missing format code count'') ''Bind format code count'')
       (\<lambda>count. read_times count (read_i16 ''missing format code''))"

definition parameter_value_read :: "string option reader" where
  "parameter_value_read =
     reader_bind (read_i32 ''missing parameter length'') (\<lambda>param_len buf.
       if param_len = -1 then Inr (None, buf)
       else (case count_to_usize param_len ''Bind parameter length'' of
               Inl e \<Rightarrow> Inl e
             | Inr n \<Rightarrow>
                 if length buf < n then Inl (truncated ''parameter value truncated'')
                 else Inr (Some (take n buf), drop n buf)))"

definition parameter_values_read :: "string option list reader" where
  "parameter_values_read =
     reader_bind (read_count (read_i16 ''missing parameter value count'') ''Bind parameter value count'')
       (\<lambda>count. read_times count parameter_value_read)"

fun result_format_push :: "result_formats \<Rightarrow> nat \<Rightarrow> int \<Rightarrow> result_formats" where
  "result_format_push RfImplicit index code = RfUniform code"
| "result_format_push (RfUniform first) index code =
     (if first = code then RfUniform first else RfPerColumn (replicate index first @ [code]))"
| "result_format_push (RfPerColumn codes) index code = RfPerColumn (codes @ [code])"

fun result_formats_loop :: "nat \<Rightarrow> nat \<Rightarrow> result_formats \<Rightarrow> result_formats reader" where
  "result_formats_loop 0 index result_formats = reader_return result_formats"
| "result_formats_loop (Suc n) index result_formats =
     reader_bind (read_i16 ''missing result format code'')
       (\<lambda>code. result_formats_loop n (index + 1) (result_format_push result_formats index code))"

definition result_formats_read :: "result_formats reader" where
  "result_formats_read =
     reader_bind (read_count (read_i16 ''missing result format code count'') ''Bind result format count'')
       (\<lambda>count. result_formats_loop count 0 RfImplicit)"

definition parse_bind_message :: "string \<Rightarrow> protocol_error + parsed_bind_message" where
  "parse_bind_message data =
     reader_run
       (reader_bind read_cstring (\<lambda>portal_name.
        reader_bind read_cstring (\<lambda>statement_name.
        reader_bind parameter_formats_read (\<lambda>parameter_formats.
        reader_bind parameter_values_read (\<lambda>parameter_values.
        reader_bind result_formats_read (\<lambda>result_formats.
          reader_return \<lparr>pb_portal_name = portal_name, pb_statement_name = statement_name,
            pb_parameter_formats = parameter_formats, pb_parameter_values = parameter_values,
            pb_result_formats = result_formats\<rparr>))))))
       data ''Bind message too short''"

definition parse_execute_message :: "string \<Rightarrow> protocol_error + parsed_execute_message" where
  "parse_execute_message data =
     reader_run
       (reader_bind read_cstring (\<lambda>portal_name.
        reader_bind (read_i32 ''missing max_rows'') (\<lambda>max_rows.
          reader_return \<lparr>pe_portal_name = portal_name, pe_max_rows = max_rows\<rparr>)))
       data ''Execute message too short''"

definition target_message_parse :: "string \<Rightarrow> string \<Rightarrow> protocol_error + char \<times> string" where
  "target_message_parse data too_short =
     reader_run
       (reader_bind (read_u8 too_short) (\<lambda>target.
        reader_bind read_cstring (\<lambda>name. reader_return (target, name))))
       data too_short"

definition parse_describe_message :: "string \<Rightarrow> protocol_error + parsed_describe_message" where
  "parse_describe_message data =
     (case target_message_parse data ''Describe message too short'' of
        Inl e \<Rightarrow> Inl e
      | Inr (describe_type, name) \<Rightarrow> Inr \<lparr>pd_describe_type = describe_type, pd_name = name\<rparr>)"

definition parse_close_message :: "string \<Rightarrow> protocol_error + parsed_close_message" where
  "parse_close_message data =
     (case target_message_parse data ''Close message too short'' of
        Inl e \<Rightarrow> Inl e
      | Inr (close_type, name) \<Rightarrow> Inr \<lparr>pc_close_type = close_type, pc_name = name\<rparr>)"

definition parse_parameter_description :: "string \<Rightarrow> protocol_error + parsed_parameter_description" where
  "parse_parameter_description data =
     reader_run
       (reader_bind
          (type_oids_read ''ParameterDescription message too short'' ''ParameterDescription parameter count''
             ''missing parameter OID in ParameterDescription'')
          (\<lambda>parameter_oids. reader_return \<lparr>ppd_parameter_oids = parameter_oids\<rparr>))
       data ''ParameterDescription message too short''"

subsection \<open>Writing to a buffer\<close>

type_synonym 'e writer = "string \<Rightarrow> string \<times> ('e + unit)"

definition put_bytes :: "string \<Rightarrow> 'e writer" where
  "put_bytes s buf = (buf @ s, Inr ())"

definition writer_fail :: "'e \<Rightarrow> 'e writer" where
  "writer_fail e buf = (buf, Inl e)"

definition writer_then :: "'e writer \<Rightarrow> 'e writer \<Rightarrow> 'e writer" where
  "writer_then w w2 buf = (case w buf of (b, Inl e) \<Rightarrow> (b, Inl e) | (b, Inr _) \<Rightarrow> w2 b)"

fun writer_all :: "'e writer list \<Rightarrow> 'e writer" where
  "writer_all [] = put_bytes []"
| "writer_all (w # ws) = writer_then w (writer_all ws)"

datatype cache_error = InvalidMessage

definition startup_message_build :: "string \<Rightarrow> string \<Rightarrow> cache_error + string" where
  "startup_message_build user database =
     (let body_len = 4 + 5 + length user + 1 + 9 + length database + 1 + 1; total_len = 4 + body_len in
      case i32_try_from total_len of
        None \<Rightarrow> Inl InvalidMessage
      | Some total_len_i32 \<Rightarrow>
          Inr (put_i32 total_len_i32 @ put_i32 196608 @ ''user'' @ [CHR 0x00] @ user @ [CHR 0x00] @
            ''database'' @ [CHR 0x00] @ database @ [CHR 0x00] @ [CHR 0x00]))"

definition frontend_msg_append :: "char \<Rightarrow> cache_error writer \<Rightarrow> cache_error writer" where
  "frontend_msg_append tag body buf =
     (let buf = buf @ [tag]; len_pos = length buf in
      case body (buf @ put_i32 0) of
        (b, Inl e) \<Rightarrow> (b, Inl e)
      | (b, Inr _) \<Rightarrow>
          (case i32_try_from (length b - len_pos) of
             None \<Rightarrow> (b, Inl InvalidMessage)
           | Some len \<Rightarrow>
               (if len_pos + 4 \<le> length b then take len_pos b @ put_i32 len @ drop (len_pos + 4) b else b, Inr ())))"

definition bind_text_write :: "string \<Rightarrow> cache_error writer" where
  "bind_text_write bytes =
     (case i32_try_from (length bytes) of
        None \<Rightarrow> writer_fail InvalidMessage
      | Some len \<Rightarrow> writer_then (put_bytes (put_i32 len)) (put_bytes bytes))"

text \<open>The text of a literal; a form that is not parameterizable is bound as the empty text.\<close>

fun bind_value_text :: "(f64 \<Rightarrow> string) \<Rightarrow> literal_value \<Rightarrow> string" where
  "bind_value_text fmt_f64 (LString s) = s"
| "bind_value_text fmt_f64 (LInteger i) = int_text i"
| "bind_value_text fmt_f64 (LBoolean v) = (if v then ''t'' else ''f'')"
| "bind_value_text fmt_f64 (LFloat f) = fmt_f64 f"
| "bind_value_text fmt_f64 _ = []"

definition bind_value_write :: "(f64 \<Rightarrow> string) \<Rightarrow> literal_value \<Rightarrow> cache_error writer" where
  "bind_value_write fmt_f64 literal = bind_text_write (bind_value_text fmt_f64 literal)"

definition put_count :: "nat \<Rightarrow> cache_error writer" where
  "put_count n = (case i16_try_from n of None \<Rightarrow> writer_fail InvalidMessage | Some c \<Rightarrow> put_bytes (put_i16 c))"

definition parse_body :: "string \<Rightarrow> string \<Rightarrow> nat \<Rightarrow> nat \<Rightarrow> int list \<Rightarrow> cache_error writer" where
  "parse_body name sql param_count literal_count tail_param_oids =
     writer_all
       ([put_bytes name, put_bytes [CHR 0x00], put_bytes sql, put_bytes [CHR 0x00], put_count param_count] @
        replicate literal_count (put_bytes (put_i32 0)) @ map (\<lambda>oid. put_bytes (put_i32 oid)) tail_param_oids)"

definition bind_body ::
  "(f64 \<Rightarrow> string) \<Rightarrow> string \<Rightarrow> literal_value list \<Rightarrow> string option list \<Rightarrow> bool \<Rightarrow> cache_error writer" where
  "bind_body fmt_f64 name literal_params tail_params binary_results =
     writer_all
       ([put_bytes [CHR 0x00], put_bytes name, put_bytes [CHR 0x00], put_bytes (put_i16 0),
         put_count (length literal_params + length tail_params)] @
        map (bind_value_write fmt_f64) literal_params @
        map (\<lambda>v. case v of Some s \<Rightarrow> bind_text_write s | None \<Rightarrow> put_bytes (put_i32 (-1))) tail_params @
        (if binary_results then [put_bytes (put_i16 1), put_bytes (put_i16 1)] else [put_bytes (put_i16 0)]))"

definition extended_query_build ::
  "(f64 \<Rightarrow> string) \<Rightarrow> string \<Rightarrow> string \<Rightarrow> bool \<Rightarrow> literal_value list \<Rightarrow> int list \<Rightarrow> string option list \<Rightarrow>
     bool \<Rightarrow> bool \<Rightarrow> bool \<Rightarrow> cache_error writer" where
  "extended_query_build fmt_f64 name sql send_parse literal_params tail_param_oids tail_params
       include_describe binary_results include_sync =
     writer_all
       ((if send_parse
         then [frontend_msg_append CHR ''P''
                 (parse_body name sql (length literal_params + length tail_params) (length literal_params) tail_param_oids)]
         else []) @
        [frontend_msg_append CHR ''B'' (bind_body fmt_f64 name literal_params tail_params binary_results)] @
        (if include_describe
         then [frontend_msg_append CHR ''D'' (writer_all [put_bytes ''P'', put_bytes [CHR 0x00]])] else []) @
        [frontend_msg_append CHR ''E'' (writer_all [put_bytes [CHR 0x00], put_bytes (put_i32 0)])] @
        (if include_sync then [frontend_msg_append CHR ''S'' (put_bytes [])] else []))"

definition statement_name_bytes :: "nat \<Rightarrow> string" where
  "statement_name_bytes key = ''pgc_'' @ map (\<lambda>i. hex_digit (key div 2 ^ ((15 - i) * 4) mod 16)) [0..<16]"

subsection \<open>Responses built for a client\<close>

definition notice_response_encode :: "string \<Rightarrow> protocol_error writer" where
  "notice_response_encode msg =
     (case message_length (4 + (1 + 6 + 1 + 1 + 5 + 1 + 1 + length msg + 1 + 1)) of
        Inl e \<Rightarrow> writer_fail e
      | Inr msg_len \<Rightarrow>
          put_bytes (''N'' @ put_i32 msg_len @ ''SNOTICE'' @ [CHR 0x00] @ ''C00000'' @ [CHR 0x00] @ ''M'' @ msg @
            [CHR 0x00, CHR 0x00]))"

definition row_description_text_encode :: "string \<Rightarrow> protocol_error writer" where
  "row_description_text_encode column_name =
     (case message_length (6 + 18 + length column_name + 1) of
        Inl e \<Rightarrow> writer_fail e
      | Inr msg_len \<Rightarrow>
          put_bytes ([row_description_tag] @ put_i32 msg_len @ put_i16 1 @ column_name @ [CHR 0x00] @ put_i32 0 @
            put_i16 0 @ put_i32 25 @ put_i16 (-1) @ put_i32 (-1) @ put_i16 0))"

definition data_row_text_encode :: "string option \<Rightarrow> protocol_error writer" where
  "data_row_text_encode v =
     (let value_len = (case v of None \<Rightarrow> 0 | Some s \<Rightarrow> length s) in
      case message_length (6 + 4 + value_len) of
        Inl e \<Rightarrow> writer_fail e
      | Inr msg_len \<Rightarrow>
          writer_then (put_bytes ([data_row_tag] @ put_i32 msg_len @ put_i16 1))
            (case v of
               Some s \<Rightarrow>
                 (case message_length (length s) of
                    Inl e \<Rightarrow> writer_fail e
                  | Inr len \<Rightarrow> writer_then (put_bytes (put_i32 len)) (put_bytes s))
             | None \<Rightarrow> put_bytes (put_i32 (-1))))"

definition command_complete_tag_encode :: "string \<Rightarrow> protocol_error writer" where
  "command_complete_tag_encode tag =
     (case message_length (4 + length tag + 1) of
        Inl e \<Rightarrow> writer_fail e
      | Inr msg_len \<Rightarrow> put_bytes ([command_complete_tag] @ put_i32 msg_len @ tag @ [CHR 0x00]))"


subsection \<open>What writers write\<close>

lemma get_put [simp]:
  "i16_ok i \<Longrightarrow> get_i16 (put_i16 i) = i" "i32_ok i \<Longrightarrow> get_i32 (put_i32 i) = i"
  using get_put_i16 [of i "[]"] get_put_i32 [of i "[]"] by simp_all

text \<open>
  \<open>writes w s P\<close>: when \<open>w\<close> succeeds it has appended exactly \<open>s\<close>, and \<open>P\<close> (the bounds it has
  checked) holds. \<open>reads r s a\<close>: the reader takes exactly \<open>s\<close> from the bytes and returns \<open>a\<close>.
\<close>

named_theorems writes_intros "what the writers write"
named_theorems reads_intros "what the readers read"

definition writes :: "'e writer \<Rightarrow> string \<Rightarrow> bool \<Rightarrow> bool" where
  "writes w s P \<longleftrightarrow> (\<forall>buf b u. w buf = (b, Inr u) \<longrightarrow> b = buf @ s \<and> P)"

definition reads :: "'a reader \<Rightarrow> string \<Rightarrow> 'a \<Rightarrow> bool" where
  "reads r s a \<longleftrightarrow> (\<forall>rest. r (s @ rest) = Inr (a, rest))"

lemma writes_put [writes_intros]: "writes (put_bytes s) s True"
  by (simp add: writes_def put_bytes_def)

lemma writes_then:
  assumes "writes w s P" "writes w2 s2 Q"
  shows "writes (writer_then w w2) (s @ s2) (P \<and> Q)"
  unfolding writes_def
proof (intro allI impI)
  fix buf b u
  assume run: "writer_then w w2 buf = (b, Inr u)"
  show "b = buf @ (s @ s2) \<and> P \<and> Q"
  proof (cases "w buf")
    case (Pair b1 r)
    with run obtain u1 where r: "r = Inr u1" by (cases r) (auto simp: writer_then_def)
    with run Pair have "w2 b1 = (b, Inr u)" by (simp add: writer_then_def)
    with assms Pair r show ?thesis unfolding writes_def by fastforce
  qed
qed

lemma writes_all_Nil [writes_intros]: "writes (writer_all []) [] True"
  by (simp add: writes_put)

lemma writes_all_Cons [writes_intros]:
  "writes w s P \<Longrightarrow> writes (writer_all ws) ss Q \<Longrightarrow> writes (writer_all (w # ws)) (s @ ss) (P \<and> Q)"
  by (simp add: writes_then)

lemma writes_cong: "writes w s P \<Longrightarrow> s = t \<Longrightarrow> (P \<Longrightarrow> Q) \<Longrightarrow> writes w t Q"
  by (auto simp: writes_def)

lemma writes_all_append [writes_intros]:
  assumes "writes (writer_all xs) s P" "writes (writer_all ys) t Q"
  shows "writes (writer_all (xs @ ys)) (s @ t) (P \<and> Q)"
proof -
  have "writer_all (xs @ ys) = writer_then (writer_all xs) (writer_all ys)"
  proof (induction xs)
    case Nil
    show ?case by (rule ext) (simp add: writer_then_def put_bytes_def)
  next
    case (Cons w xs)
    have "writer_then w (writer_then a b) = writer_then (writer_then w a) b" for a b
      by (rule ext) (auto simp: writer_then_def split: prod.splits sum.splits)
    with Cons show ?case by simp
  qed
  with writes_then [OF assms] show ?thesis by simp
qed

lemma writes_all_map [writes_intros]:
  "(\<And>x. writes (f x) (g x) (P x)) \<Longrightarrow> writes (writer_all (map f xs)) (concat (map g xs)) (\<forall>x\<in>set xs. P x)"
proof (induction xs)
  case (Cons x xs)
  from writes_all_Cons [OF Cons.prems Cons.IH [OF Cons.prems]] show ?case by (simp add: writes_def)
qed (simp add: writes_put)

lemma writes_text [writes_intros]: "writes (bind_text_write s) (put_i32 (int (length s)) @ s) (length s < 2 ^ 31)"
  by (auto simp: writes_def bind_text_write_def i32_try_from_def writer_fail_def writer_then_def put_bytes_def)

lemma writes_count [writes_intros]: "writes (put_count n) (put_i16 (int n)) (n < 2 ^ 15)"
  by (auto simp: writes_def put_count_def i16_try_from_def writer_fail_def put_bytes_def split: if_splits)

definition frame :: "char \<Rightarrow> string \<Rightarrow> string" where
  "frame tag body = tag # put_i32 (int (4 + length body)) @ body"

lemma writes_msg [writes_intros]:
  assumes "writes body s P"
  shows "writes (frontend_msg_append tag body) (frame tag s) (P \<and> 4 + length s < 2 ^ 31)"
  unfolding writes_def
proof (intro allI impI)
  fix buf b u
  assume run: "frontend_msg_append tag body buf = (b, Inr u)"
  define pre where "pre = buf @ [tag]"
  obtain b1 r where b1: "body (pre @ put_i32 0) = (b1, r)" by (cases "body (pre @ put_i32 0)")
  with run obtain u1 where r: "r = Inr u1"
    by (cases r) (auto simp: frontend_msg_append_def Let_def pre_def)
  with assms b1 have s: "b1 = (pre @ put_i32 0) @ s" "P" unfolding writes_def by blast+
  have len: "length b1 - length pre = 4 + length s" "length pre + 4 \<le> length b1" using s by simp_all
  have "frontend_msg_append tag body buf =
    (case i32_try_from (length b1 - length pre) of
       None \<Rightarrow> (b1, Inl InvalidMessage)
     | Some l \<Rightarrow> (if length pre + 4 \<le> length b1 then take (length pre) b1 @ put_i32 l @ drop (length pre + 4) b1 else b1, Inr ()))"
    unfolding frontend_msg_append_def Let_def pre_def [symmetric] b1 r by simp
  with run len s show "b = buf @ frame tag s \<and> P \<and> 4 + length s < 2 ^ 31"
    by (auto simp: frame_def pre_def i32_try_from_def split: if_splits)
qed

subsection \<open>What readers read\<close>

lemma reads_return [reads_intros]: "reads (reader_return a) [] a"
  by (simp add: reads_def reader_return_def)

lemma reads_bind: "reads r s a \<Longrightarrow> reads (f a) s2 b \<Longrightarrow> reads (reader_bind r f) (s @ s2) b"
  by (simp add: reads_def reader_bind_def)

lemma reads_cstring [reads_intros]:
  assumes "CHR 0x00 \<notin> set s" "utf8_valid s"
  shows "reads read_cstring (s @ [CHR 0x00]) s"
proof -
  have ne: "\<And>b. b \<in> set s \<Longrightarrow> b \<noteq> CHR 0x00" using assms(1) by blast
  then have "takeWhile (\<lambda>b. b \<noteq> CHR 0x00) (s @ CHR 0x00 # rest) = s"
    "dropWhile (\<lambda>b. b \<noteq> CHR 0x00) (s @ CHR 0x00 # rest) = CHR 0x00 # rest" for rest
    by (simp_all add: takeWhile_append2 dropWhile_append2)
  with assms(2) show ?thesis by (simp add: reads_def read_cstring_def Let_def from_utf8_def)
qed

lemma reads_i16 [reads_intros]: "i16_ok i \<Longrightarrow> reads (read_i16 missing) (put_i16 i) i"
  by (simp add: reads_def read_i16_def)

lemma reads_i32 [reads_intros]: "i32_ok i \<Longrightarrow> reads (read_i32 missing) (put_i32 i) i"
  by (simp add: reads_def read_i32_def)

lemma reads_u32 [reads_intros]: "u32_ok i \<Longrightarrow> reads (read_u32 missing) (put_i32 i) i"
  by (simp add: reads_def read_u32_def)

lemma reads_u8 [reads_intros]: "reads (read_u8 missing) [b] b"
  by (simp add: reads_def read_u8_def)

lemma reads_count [reads_intros]: "n < 2 ^ 15 \<Longrightarrow> reads (read_count (read_i16 missing) what) (put_i16 (int n)) n"
  by (simp add: reads_def read_count_def reader_bind_def read_i16_def count_to_usize_def usize_try_from_def)

lemma reads_times:
  "(\<And>x. x \<in> set xs \<Longrightarrow> reads r (g x) (h x)) \<Longrightarrow>
     reads (read_times (length xs) r) (concat (map g xs)) (map h xs)"
proof (induction xs)
  case Nil
  show ?case by (simp add: reads_return)
next
  case (Cons x xs)
  have "reads (read_times (length xs) r) (concat (map g xs)) (map h xs)" using Cons by simp
  then have "reads (reader_bind (read_times (length xs) r) (\<lambda>as. reader_return (h x # as)))
      (concat (map g xs) @ []) (h x # map h xs)"
    by (rule reads_bind) (rule reads_return)
  with Cons.prems [of x] show ?case by (auto intro: reads_bind)
qed

lemma reads_run:
  assumes "reads r s a"
  shows "reader_run r (frame tag s) too_short = Inr a"
  using assms [unfolded reads_def, rule_format, of "[]"]
  by (simp add: reader_run_def message_body_def frame_def)

lemma reads_value [reads_intros]:
  "length s < 2 ^ 31 \<Longrightarrow> reads parameter_value_read (put_i32 (int (length s)) @ s) (Some s)"
  "reads parameter_value_read (put_i32 (-1)) None"
  by (simp_all add: reads_def parameter_value_read_def reader_bind_def read_i32_def count_to_usize_def usize_try_from_def)

subsection \<open>Frames of the frontend codec\<close>

lemma decode_frame:
  assumes "map_of frontend_message_type_map tag = Some t" "4 + length s < 2 ^ 31"
  shows "frontend_decode PgQuery (frame tag s @ rest) = (DecItem (PgMessage t (frame tag s)), PgQuery, rest)"
proof -
  have "frontend_decode PgQuery (frame tag s @ rest) = frontend_tagged_decode PgQuery (frame tag s @ rest)"
    by (simp add: frame_def)
  moreover have "get_i32 (put_i32 (int (4 + length s)) @ s @ rest) = int (4 + length s)"
    using assms(2) by (intro get_put_i32) auto
  ultimately show ?thesis
    using assms(1) by (simp add: frontend_tagged_decode_eq frame_def usize_try_from_def)
qed

lemma reads_frames:
  assumes "\<And>tag s t. (tag, s, t) \<in> set fs \<Longrightarrow> map_of frontend_message_type_map tag = Some t \<and> 4 + length s < 2 ^ 31"
  shows "codec_reads frontend_decode PgQuery (concat (map (\<lambda>(tag, s, t). frame tag s) fs)) []
    (map (\<lambda>(tag, s, t). PgMessage t (frame tag s)) fs) (EndWait PgQuery [])"
  using assms
proof (induction fs)
  case Nil
  show ?case by (auto intro: reads_end)
next
  case (Cons f fs)
  obtain tag s t where f: "f = (tag, s, t)" by (cases f)
  from Cons.prems [of tag s t] f
  have "frontend_decode PgQuery (frame tag s @ concat (map (\<lambda>(tag, s, t). frame tag s) fs)) =
      (DecItem (PgMessage t (frame tag s)), PgQuery, concat (map (\<lambda>(tag, s, t). frame tag s) fs))"
    by (intro decode_frame) auto
  moreover have "codec_reads frontend_decode PgQuery (concat (map (\<lambda>(tag, s, t). frame tag s) fs)) []
    (map (\<lambda>(tag, s, t). PgMessage t (frame tag s)) fs) (EndWait PgQuery [])"
    using Cons.prems by (intro Cons.IH) auto
  ultimately show ?case by (auto simp: f intro: reads_item)
qed


subsection \<open>The extended query\<close>

definition value_bytes :: "string option \<Rightarrow> string" where
  "value_bytes v = (case v of None \<Rightarrow> put_i32 (-1) | Some s \<Rightarrow> put_i32 (int (length s)) @ s)"

definition value_ok :: "string option \<Rightarrow> bool" where
  "value_ok v = (case v of None \<Rightarrow> True | Some s \<Rightarrow> length s < 2 ^ 31)"

lemma writes_tail [writes_intros]:
  "writes (case v of Some s \<Rightarrow> bind_text_write s | None \<Rightarrow> put_bytes (put_i32 (-1))) (value_bytes v) (value_ok v)"
  using writes_put [of "put_i32 (-1)"] writes_text by (cases v) (simp_all add: value_bytes_def value_ok_def)

lemma writes_literal [writes_intros]:
  "writes (bind_value_write fmt_f64 l) (value_bytes (Some (bind_value_text fmt_f64 l))) (value_ok (Some (bind_value_text fmt_f64 l)))"
  using writes_text [of "bind_value_text fmt_f64 l"] by (simp add: value_bytes_def value_ok_def bind_value_write_def)

lemma reads_param [reads_intros]: "value_ok v \<Longrightarrow> reads parameter_value_read (value_bytes v) v"
  by (cases v) (simp_all add: value_bytes_def value_ok_def reads_value)

definition parse_bytes :: "string \<Rightarrow> string \<Rightarrow> int list \<Rightarrow> string" where
  "parse_bytes name sql oids =
     (name @ [CHR 0x00]) @ (sql @ [CHR 0x00]) @ put_i16 (int (length oids)) @ concat (map put_i32 oids)"

definition bind_bytes :: "string \<Rightarrow> string option list \<Rightarrow> bool \<Rightarrow> string" where
  "bind_bytes name vs binary_results =
     ([] @ [CHR 0x00]) @ (name @ [CHR 0x00]) @ put_i16 (int 0) @ (put_i16 (int (length vs)) @ concat (map value_bytes vs)) @
     (if binary_results then put_i16 (int 1) @ put_i16 1 else put_i16 (int 0))"

lemma writes_parse_body:
  assumes "length oids = n"
  shows "writes (parse_body name sql (k + n) k oids) (parse_bytes name sql (replicate k 0 @ oids)) (k + n < 2 ^ 15)"
proof -
  have rep: "replicate k w = map (\<lambda>_. w) (replicate k ())" for w :: "cache_error writer"
    by (simp add: map_replicate_const)
  show ?thesis
    unfolding parse_body_def rep
    by (rule writes_cong, (rule writes_intros)+) (simp_all add: parse_bytes_def assms map_replicate_const)
qed

lemma writes_bind_body:
  "writes (bind_body fmt_f64 name lits tail_params binary_results)
     (bind_bytes name (map (\<lambda>l. Some (bind_value_text fmt_f64 l)) lits @ tail_params) binary_results)
     (length lits + length tail_params < 2 ^ 15 \<and>
      (\<forall>v\<in>set (map (\<lambda>l. Some (bind_value_text fmt_f64 l)) lits @ tail_params). value_ok v))"
proof (cases binary_results)
  case True
  then show ?thesis
    unfolding bind_body_def if_P [OF True]
    by (intro writes_cong [OF writes_all_append [OF _ writes_all_append [OF _ writes_all_append]]])
      ((rule writes_intros)+, auto simp: bind_bytes_def comp_def)
next
  case False
  then show ?thesis
    unfolding bind_body_def if_not_P [OF False]
    by (intro writes_cong [OF writes_all_append [OF _ writes_all_append [OF _ writes_all_append]]])
      ((rule writes_intros)+, auto simp: bind_bytes_def comp_def)
qed

lemma reads_counted:
  assumes "\<And>x. x \<in> set xs \<Longrightarrow> reads r (g x) x" "length xs < 2 ^ 15"
  shows "reads (reader_bind (read_count (read_i16 missing) what) (\<lambda>count. read_times count r))
    (put_i16 (int (length xs)) @ concat (map g xs)) xs"
  using reads_times [of xs r g "\<lambda>x. x"] assms by (intro reads_bind [where a = "length xs"] reads_count) auto

lemma parse_parse_bytes:
  assumes "CHR 0x00 \<notin> set name" "utf8_valid name" "CHR 0x00 \<notin> set sql" "utf8_valid sql"
    "length oids < 2 ^ 15" "\<forall>oid\<in>set oids. u32_ok oid"
  shows "parse_parse_message (frame tag (parse_bytes name sql oids)) =
    Inr \<lparr>pp_statement_name = name, pp_sql = sql, pp_parameter_oids = oids\<rparr>"
proof -
  define msg where "msg = \<lparr>pp_statement_name = name, pp_sql = sql, pp_parameter_oids = oids\<rparr>"
  define oids_reader where
    "oids_reader = type_oids_read ''missing parameter count'' ''Parse parameter count'' ''missing parameter OID''"
  have utf8: "from_utf8 sql = Some sql" using assms(4) by (simp add: from_utf8_def)
  have "reads oids_reader (put_i16 (int (length oids)) @ concat (map put_i32 oids)) oids"
    unfolding type_oids_read_def oids_reader_def using assms(5,6) by (intro reads_counted reads_u32) auto
  then have tail: "reads (reader_bind oids_reader (\<lambda>os. reader_return
      \<lparr>pp_statement_name = name, pp_sql = sql, pp_parameter_oids = os\<rparr>))
    ((put_i16 (int (length oids)) @ concat (map put_i32 oids)) @ []) msg"
    by (rule reads_bind) (simp add: msg_def reads_return)
  show ?thesis
    unfolding parse_parse_message_def parse_bytes_def msg_def [symmetric] oids_reader_def [symmetric]
    by (rule reads_run, rule reads_bind [OF reads_cstring [OF assms(1,2)]],
        rule reads_bind [OF reads_cstring [OF assms(3,4)]]) (use tail utf8 in simp)
qed

lemma reads_result_formats:
  "reads result_formats_read (if binary_results then put_i16 (int 1) @ put_i16 1 else put_i16 (int 0))
     (if binary_results then RfUniform 1 else RfImplicit)"
proof (cases binary_results)
  case True
  have "reads result_formats_read (put_i16 (int 1) @ put_i16 1 @ []) (RfUniform 1)"
    unfolding result_formats_read_def
  proof (rule reads_bind [OF reads_count])
    show "reads (result_formats_loop 1 0 RfImplicit) (put_i16 1 @ []) (RfUniform 1)"
      unfolding One_nat_def result_formats_loop.simps
      by (rule reads_bind [OF reads_i16]) (simp_all add: reads_return)
  qed simp
  with True show ?thesis by simp
next
  case False
  have "reads result_formats_read (put_i16 (int 0) @ []) RfImplicit"
    unfolding result_formats_read_def by (rule reads_bind [OF reads_count]) (simp_all add: reads_return)
  with False show ?thesis by simp
qed

lemma parse_bind_bytes:
  assumes "CHR 0x00 \<notin> set name" "utf8_valid name" "length vs < 2 ^ 15" "\<forall>v\<in>set vs. value_ok v"
  shows "parse_bind_message (frame tag (bind_bytes name vs binary_results)) =
    Inr \<lparr>pb_portal_name = [], pb_statement_name = name, pb_parameter_formats = [], pb_parameter_values = vs,
      pb_result_formats = (if binary_results then RfUniform 1 else RfImplicit)\<rparr>"
proof -
  have portal: "reads read_cstring ([] @ [CHR 0x00]) []" by (rule reads_cstring) (simp_all add: utf8_valid.simps)
  have formats: "reads parameter_formats_read (put_i16 (int 0) @ []) []"
    unfolding parameter_formats_read_def by (rule reads_bind [OF reads_count]) (simp_all add: reads_return)
  have vals: "reads parameter_values_read (put_i16 (int (length vs)) @ concat (map value_bytes vs)) vs"
    unfolding parameter_values_read_def using assms(3,4) by (intro reads_counted reads_param) auto
  show ?thesis
    unfolding parse_bind_message_def bind_bytes_def
    by (rule reads_run, rule reads_bind [OF portal], rule reads_bind [OF reads_cstring [OF assms(1,2)]],
        rule reads_bind [OF formats [unfolded append_Nil2]], rule reads_bind [OF vals],
        rule reads_bind [OF reads_result_formats reads_return, unfolded append_Nil2])
qed

definition query_frames ::
  "(f64 \<Rightarrow> string) \<Rightarrow> string \<Rightarrow> string \<Rightarrow> bool \<Rightarrow> literal_value list \<Rightarrow> int list \<Rightarrow> string option list \<Rightarrow>
     bool \<Rightarrow> bool \<Rightarrow> bool \<Rightarrow> (char \<times> string \<times> frontend_type) list" where
  "query_frames fmt_f64 name sql send_parse lits oids tail_params include_describe binary_results include_sync =
     (if send_parse then [(CHR ''P'', parse_bytes name sql (replicate (length lits) 0 @ oids), FtParse)] else []) @
     [(CHR ''B'', bind_bytes name (map (\<lambda>l. Some (bind_value_text fmt_f64 l)) lits @ tail_params) binary_results, FtBind)] @
     (if include_describe then [(CHR ''D'', ''P'' @ [CHR 0x00], FtDescribe)] else []) @
     [(CHR ''E'', [CHR 0x00] @ put_i32 0, FtExecute)] @
     (if include_sync then [(CHR ''S'', [], FtSync)] else [])"

abbreviation frames_bytes :: "(char \<times> string \<times> frontend_type) list \<Rightarrow> string" where
  "frames_bytes fs \<equiv> concat (map (\<lambda>(tag, s, t). frame tag s) fs)"

definition frames_ok :: "(char \<times> string \<times> frontend_type) list \<Rightarrow> bool" where
  "frames_ok fs \<longleftrightarrow> (\<forall>(tag, s, t)\<in>set fs. map_of frontend_message_type_map tag = Some t \<and> 4 + length s < 2 ^ 31)"

lemma writes_frame:
  assumes "writes body s P" "map_of frontend_message_type_map tag = Some t"
  shows "writes (writer_all [frontend_msg_append tag body]) (frames_bytes [(tag, s, t)]) (P \<and> frames_ok [(tag, s, t)])"
  using writes_all_Cons [OF writes_msg [OF assms(1)] writes_all_Nil] assms(2)
  by (auto simp: frames_ok_def intro: writes_cong)

lemma writes_frame_if:
  assumes "b \<Longrightarrow> writes (writer_all ws) (frames_bytes fs) (P \<and> frames_ok fs)"
  shows "writes (writer_all (if b then ws else [])) (frames_bytes (if b then fs else []))
    ((b \<longrightarrow> P) \<and> frames_ok (if b then fs else []))"
proof -
  have "frames_ok []" by (simp add: frames_ok_def)
  with assms writes_put [of "[]"] show ?thesis by (cases b) simp_all
qed

lemma writes_frames_append:
  assumes "writes (writer_all ws) (frames_bytes fs) (P \<and> frames_ok fs)"
    "writes (writer_all ws2) (frames_bytes fs2) (Q \<and> frames_ok fs2)"
  shows "writes (writer_all (ws @ ws2)) (frames_bytes (fs @ fs2)) ((P \<and> Q) \<and> frames_ok (fs @ fs2))"
  using writes_all_append [OF assms] by (rule writes_cong) (auto simp: frames_ok_def)

lemma writes_query:
  assumes "length oids = length tail_params"
  shows "writes (extended_query_build fmt_f64 name sql send_parse lits oids tail_params include_describe binary_results include_sync)
    (frames_bytes (query_frames fmt_f64 name sql send_parse lits oids tail_params include_describe binary_results include_sync))
    ((length lits + length tail_params < 2 ^ 15 \<and>
      (\<forall>v\<in>set (map (\<lambda>l. Some (bind_value_text fmt_f64 l)) lits @ tail_params). value_ok v)) \<and>
     frames_ok (query_frames fmt_f64 name sql send_parse lits oids tail_params include_describe binary_results include_sync))"
proof -
  have two: "writes (writer_all [put_bytes a, put_bytes b]) (a @ b) (True \<and> True \<and> True)" for a b and e :: cache_error
    by (rule writes_cong, (rule writes_intros)+) simp_all
  have parse: "writes (writer_all (if send_parse then [frontend_msg_append CHR ''P'' (parse_body name sql (length lits + length tail_params) (length lits) oids)] else []))
      (frames_bytes (if send_parse then [(CHR ''P'', parse_bytes name sql (replicate (length lits) 0 @ oids), FtParse)] else []))
      ((send_parse \<longrightarrow> length lits + length tail_params < 2 ^ 15) \<and> frames_ok (if send_parse then [(CHR ''P'', parse_bytes name sql (replicate (length lits) 0 @ oids), FtParse)] else []))"
    by (intro writes_frame_if writes_frame writes_parse_body assms) (simp_all add: frontend_message_type_map_def)
  have bind: "writes (writer_all ([frontend_msg_append CHR ''B'' (bind_body fmt_f64 name lits tail_params binary_results)]))
      (frames_bytes ([(CHR ''B'', bind_bytes name (map (\<lambda>l. Some (bind_value_text fmt_f64 l)) lits @ tail_params) binary_results, FtBind)]))
      ((length lits + length tail_params < 2 ^ 15 \<and> (\<forall>v\<in>set (map (\<lambda>l. Some (bind_value_text fmt_f64 l)) lits @ tail_params). value_ok v)) \<and> frames_ok ([(CHR ''B'', bind_bytes name (map (\<lambda>l. Some (bind_value_text fmt_f64 l)) lits @ tail_params) binary_results, FtBind)]))"
    by (intro writes_frame writes_bind_body) (simp_all add: frontend_message_type_map_def)
  have describe: "writes (writer_all (if include_describe then [frontend_msg_append CHR ''D'' (writer_all [put_bytes ''P'', put_bytes [CHR 0x00]])] else []))
      (frames_bytes (if include_describe then [(CHR ''D'', ''P'' @ [CHR 0x00], FtDescribe)] else []))
      ((include_describe \<longrightarrow> True \<and> True \<and> True) \<and> frames_ok (if include_describe then [(CHR ''D'', ''P'' @ [CHR 0x00], FtDescribe)] else []))"
    by (intro writes_frame_if writes_frame two) (simp_all add: frontend_message_type_map_def)
  have execute: "writes (writer_all ([frontend_msg_append CHR ''E'' (writer_all [put_bytes [CHR 0x00], put_bytes (put_i32 0)])]))
      (frames_bytes ([(CHR ''E'', [CHR 0x00] @ put_i32 0, FtExecute)]))
      ((True \<and> True \<and> True) \<and> frames_ok ([(CHR ''E'', [CHR 0x00] @ put_i32 0, FtExecute)]))"
    by (intro writes_frame two) (simp_all add: frontend_message_type_map_def)
  have sync: "writes (writer_all (if include_sync then [frontend_msg_append CHR ''S'' (put_bytes [])] else []))
      (frames_bytes (if include_sync then [(CHR ''S'', [], FtSync)] else []))
      ((include_sync \<longrightarrow> True) \<and> frames_ok (if include_sync then [(CHR ''S'', [], FtSync)] else []))"
    by (intro writes_frame_if writes_frame writes_put) (simp_all add: frontend_message_type_map_def)
  show ?thesis
    unfolding extended_query_build_def query_frames_def
    by (rule writes_cong [OF writes_frames_append [OF parse writes_frames_append [OF bind
            writes_frames_append [OF describe writes_frames_append [OF execute sync]]]]])
      simp_all
qed

lemma parse_describe_portal:
  "parse_describe_message (frame tag (''P'' @ [CHR 0x00])) = Inr \<lparr>pd_describe_type = CHR ''P'', pd_name = []\<rparr>"
proof -
  have "reads (reader_bind (read_u8 m) (\<lambda>target. reader_bind read_cstring (\<lambda>name. reader_return (target, name))))
      (''P'' @ ([] @ [CHR 0x00]) @ []) (CHR ''P'', [])" for m
    by (rule reads_bind [OF reads_u8], rule reads_bind [OF reads_cstring], simp, simp add: utf8_valid.simps, rule reads_return)
  from reads_run [OF this, where tag = tag and too_short = "''Describe message too short''"]
  show ?thesis by (simp add: parse_describe_message_def target_message_parse_def)
qed

lemma parse_execute_portal:
  "parse_execute_message (frame tag ([CHR 0x00] @ put_i32 0)) = Inr \<lparr>pe_portal_name = [], pe_max_rows = 0\<rparr>"
proof -
  have "reads (reader_bind read_cstring (\<lambda>portal. reader_bind (read_i32 m)
        (\<lambda>rows. reader_return \<lparr>pe_portal_name = portal, pe_max_rows = rows\<rparr>)))
      (([] @ [CHR 0x00]) @ put_i32 0 @ []) \<lparr>pe_portal_name = [], pe_max_rows = 0\<rparr>" for m
    by (rule reads_bind [OF reads_cstring], simp, simp add: utf8_valid.simps,
        rule reads_bind [OF reads_i32], simp, rule reads_return)
  from reads_run [OF this, where tag = tag and too_short = "''Execute message too short''"]
  show ?thesis by (simp add: parse_execute_message_def)
qed

text \<open>
  C33. The messages the proxy builds for a query are read back as they were meant: the bytes
  appended by \<open>extended_query_build\<close> are decoded by the frontend codec into a Parse (if asked for),
  a Bind, a Describe (if asked for), an Execute and a Sync (if asked for), with no byte left over;
  the parsers return the statement name, the SQL text, one type per parameter (0 for the literals
  of the shape), the text of every literal followed by the remaining parameters with their NULLs,
  and the result format. The text of a float is whatever \<open>fmt_f64\<close> prints.
\<close>

theorem extended_query_roundtrip:
  assumes "extended_query_build fmt_f64 name sql send_parse lits oids tail_params include_describe binary_results
      include_sync buf = (out, Inr u)"
    and "CHR 0x00 \<notin> set name" "utf8_valid name" "CHR 0x00 \<notin> set sql" "utf8_valid sql"
    and "length oids = length tail_params" "\<forall>oid\<in>set oids. u32_ok oid"
  shows "\<exists>sent p b d e s. out = buf @ sent \<and>
    codec_reads frontend_decode PgQuery sent []
      ((if send_parse then [PgMessage FtParse p] else []) @ [PgMessage FtBind b] @
       (if include_describe then [PgMessage FtDescribe d] else []) @ [PgMessage FtExecute e] @
       (if include_sync then [PgMessage FtSync s] else [])) (EndWait PgQuery []) \<and>
    parse_parse_message p = Inr \<lparr>pp_statement_name = name, pp_sql = sql,
      pp_parameter_oids = replicate (length lits) 0 @ oids\<rparr> \<and>
    parse_bind_message b = Inr \<lparr>pb_portal_name = [], pb_statement_name = name, pb_parameter_formats = [],
      pb_parameter_values = map (\<lambda>l. Some (bind_value_text fmt_f64 l)) lits @ tail_params,
      pb_result_formats = (if binary_results then RfUniform 1 else RfImplicit)\<rparr> \<and>
    parse_describe_message d = Inr \<lparr>pd_describe_type = CHR ''P'', pd_name = []\<rparr> \<and>
    parse_execute_message e = Inr \<lparr>pe_portal_name = [], pe_max_rows = 0\<rparr>"
proof -
  define vs where "vs = map (\<lambda>l. Some (bind_value_text fmt_f64 l)) lits @ tail_params"
  define os where "os = replicate (length lits) 0 @ oids"
  define fs where "fs = query_frames fmt_f64 name sql send_parse lits oids tail_params include_describe binary_results include_sync"
  from writes_query [OF assms(6), unfolded writes_def, rule_format, OF assms(1)]
  have out: "out = buf @ frames_bytes fs" and small: "length lits + length tail_params < 2 ^ 15"
    and vals: "\<forall>v\<in>set vs. value_ok v" and ok: "frames_ok fs"
    unfolding fs_def vs_def by blast+
  have reads: "codec_reads frontend_decode PgQuery (frames_bytes fs) [] (map (\<lambda>(tag, s, t). PgMessage t (frame tag s)) fs)
      (EndWait PgQuery [])"
    using ok unfolding frames_ok_def by (intro reads_frames) blast
  have msgs: "map (\<lambda>(tag, s, t). PgMessage t (frame tag s)) fs =
      (if send_parse then [PgMessage FtParse (frame CHR ''P'' (parse_bytes name sql os))] else []) @
      [PgMessage FtBind (frame CHR ''B'' (bind_bytes name vs binary_results))] @
      (if include_describe then [PgMessage FtDescribe (frame CHR ''D'' (''P'' @ [CHR 0x00]))] else []) @
      [PgMessage FtExecute (frame CHR ''E'' ([CHR 0x00] @ put_i32 0))] @
      (if include_sync then [PgMessage FtSync (frame CHR ''S'' [])] else [])"
    unfolding fs_def query_frames_def vs_def os_def by simp
  have p: "parse_parse_message (frame CHR ''P'' (parse_bytes name sql os)) =
      Inr \<lparr>pp_statement_name = name, pp_sql = sql, pp_parameter_oids = os\<rparr>"
    using assms small by (intro parse_parse_bytes) (auto simp: os_def)
  have b: "parse_bind_message (frame CHR ''B'' (bind_bytes name vs binary_results)) =
      Inr \<lparr>pb_portal_name = [], pb_statement_name = name, pb_parameter_formats = [], pb_parameter_values = vs,
        pb_result_formats = (if binary_results then RfUniform 1 else RfImplicit)\<rparr>"
    using assms(2,3) small vals by (intro parse_bind_bytes) (auto simp: vs_def)
  show ?thesis
    unfolding vs_def [symmetric] os_def [symmetric]
    using out reads [unfolded msgs] p b parse_describe_portal parse_execute_portal by blast
qed


lemma utf8_valid_ascii: "list_all (\<lambda>b. of_char b < (128 :: nat)) s \<Longrightarrow> utf8_valid s"
proof (induction s)
  case Nil
  show ?case by (simp add: utf8_valid.simps)
next
  case (Cons b s)
  then have "utf8_step (b # s) = Some s" by (simp add: utf8_step_def Let_def)
  with Cons show ?case by (simp add: utf8_valid.simps [of "b # s"])
qed

theorem extended_query_roundtrip_witness:
  "\<exists>out p b d e s. extended_query_build (\<lambda>_. []) ''n'' ''q'' True [LBoolean True] [25] [None] False True True [] = (out, Inr ()) \<and>
     codec_reads frontend_decode PgQuery out []
       [PgMessage FtParse p, PgMessage FtBind b, PgMessage FtExecute e, PgMessage FtSync s] (EndWait PgQuery []) \<and>
     parse_parse_message p = Inr \<lparr>pp_statement_name = ''n'', pp_sql = ''q'', pp_parameter_oids = [0, 25]\<rparr> \<and>
     parse_bind_message b = Inr \<lparr>pb_portal_name = [], pb_statement_name = ''n'', pb_parameter_formats = [],
       pb_parameter_values = [Some ''t'', None], pb_result_formats = RfUniform 1\<rparr>"
proof -
  obtain out r where run:
    "extended_query_build (\<lambda>_. []) ''n'' ''q'' True [LBoolean True] [25] [None] False True True [] = (out, r)"
    by (cases "extended_query_build (\<lambda>_. []) ''n'' ''q'' True [LBoolean True] [25] [None] False True True []")
  then have "r = Inr ()"
    by (simp add: extended_query_build_def parse_body_def bind_body_def bind_value_write_def bind_text_write_def
        put_count_def put_bytes_def writer_then_def frontend_msg_append_def i32_try_from_def i16_try_from_def)
  with run have "extended_query_build (\<lambda>_. []) ''n'' ''q'' True [LBoolean True] [25] [None] False True True [] = (out, Inr ())"
    by simp
  note run = this
  have hyps: "CHR 0x00 \<notin> set ''n''" "utf8_valid ''n''" "CHR 0x00 \<notin> set ''q''" "utf8_valid ''q''"
    "length [25 :: int] = length [None :: string option]" "\<forall>oid\<in>set [25]. u32_ok oid"
    by (simp_all add: utf8_valid_ascii)
  from extended_query_roundtrip [OF run hyps] run show ?thesis by simp blast
qed

subsection \<open>Names of prepared statements\<close>

lemma of_char_hex_digit: "d < 16 \<Longrightarrow> of_char (hex_digit d) = (if d < 10 then 48 + d else 87 + d :: nat)"
  by (simp add: hex_digit_def)

lemma hex_digit_ok: "d < 16 \<Longrightarrow> hex_digit d \<noteq> CHR 0x00 \<and> of_char (hex_digit d) < (128 :: nat)"
  using of_char_hex_digit [of d] by (auto split: if_splits)

lemma hex_digit_inj:
  assumes "d < 16" "d' < 16" "hex_digit d = hex_digit d'"
  shows "d = d'"
proof -
  have "of_char (hex_digit d) = (of_char (hex_digit d') :: nat)" by (simp only: assms(3))
  then show ?thesis
    unfolding of_char_hex_digit [OF assms(1)] of_char_hex_digit [OF assms(2)] using assms(1,2) by (simp split: if_splits)
qed

lemma nibbles_inj:
  "(\<And>i. i < n \<Longrightarrow> a div 16 ^ i mod 16 = b div 16 ^ i mod (16 :: nat)) \<Longrightarrow> a mod 16 ^ n = b mod 16 ^ n"
proof (induction n)
  case (Suc n)
  have "k mod 16 ^ Suc n = 16 ^ n * (k div 16 ^ n mod 16) + k mod 16 ^ n" for k :: nat
    using mod_mult2_eq [of k "16 ^ n" 16] by (simp add: mult.commute)
  with Suc.IH Suc.prems show ?case by simp
qed simp

text \<open>The name of a prepared statement is text without a zero byte, and no two shape keys share it.\<close>

lemma statement_name_ok: "CHR 0x00 \<notin> set (statement_name_bytes key) \<and> utf8_valid (statement_name_bytes key)"
proof -
  have ok: "b \<noteq> CHR 0x00 \<and> of_char b < (128 :: nat)" if "b \<in> set (statement_name_bytes key)" for b
  proof -
    from that consider "b \<in> set ''pgc_''" | d where "b = hex_digit (d mod 16)"
      unfolding statement_name_bytes_def set_append set_map by blast
    then show ?thesis
    proof cases
      case 1
      then show ?thesis by auto
    next
      case (2 d)
      then show ?thesis using hex_digit_ok [of "d mod 16"] by simp
    qed
  qed
  then have "utf8_valid (statement_name_bytes key)" by (intro utf8_valid_ascii) (simp only: list_all_iff, blast)
  with ok show ?thesis by blast
qed

lemma statement_name_inj:
  assumes "key < 2 ^ 64" "key' < 2 ^ 64" "statement_name_bytes key = statement_name_bytes key'"
  shows "key = key'"
proof -
  have eq: "\<forall>j\<in>set [0..<16]. hex_digit (key div 2 ^ ((15 - j) * 4) mod 16) = hex_digit (key' div 2 ^ ((15 - j) * 4) mod 16)"
    using assms(3) unfolding statement_name_bytes_def same_append_eq map_eq_conv .
  have "key div 16 ^ i mod 16 = key' div 16 ^ i mod 16" if "i < 16" for i
  proof -
    have "15 - (15 - i) = i" using that by arith
    then have pow: "(2 :: nat) ^ ((15 - (15 - i)) * 4) = 16 ^ i" by (simp add: mult.commute [of i] power_mult)
    have "15 - i \<in> set [0..<16]" unfolding set_upt by simp
    with eq have "hex_digit (key div 2 ^ ((15 - (15 - i)) * 4) mod 16) = hex_digit (key' div 2 ^ ((15 - (15 - i)) * 4) mod 16)"
      by (rule bspec)
    then show ?thesis unfolding pow by (rule hex_digit_inj [rotated 2]) simp_all
  qed
  from nibbles_inj [of 16 key key', OF this] assms(1,2) show ?thesis by simp
qed

subsection \<open>The start-up message\<close>

lemma slice_split_nul:
  "CHR 0x00 \<notin> set s \<Longrightarrow> slice_split (s @ CHR 0x00 # rest) = s # slice_split rest"
  by (induction s) auto

lemma protocol_version: "put_i32 196608 = put_i16 3 @ put_i16 0"
  by (simp add: put_i32_def put_i16_def eval_nat_numeral)

lemma startup_parameters:
  assumes "CHR 0x00 \<notin> set user" "utf8_valid user" "CHR 0x00 \<notin> set database" "utf8_valid database"
  shows "startup_parameter_loop (slice_split (''user'' @ CHR 0x00 # user @ CHR 0x00 # ''database'' @ CHR 0x00 #
      database @ CHR 0x00 # [CHR 0x00])) key =
    (if key = ''user'' then Some user else if key = ''database'' then Some database else None)"
proof -
  have keys: "slice_split (''user'' @ CHR 0x00 # rest) = ''user'' # slice_split rest"
    "slice_split (''database'' @ CHR 0x00 # rest) = ''database'' # slice_split rest" for rest
    by (rule slice_split_nul, simp)+
  have "slice_split (''user'' @ CHR 0x00 # user @ CHR 0x00 # ''database'' @ CHR 0x00 # database @ CHR 0x00 # [CHR 0x00]) =
      [''user'', user, ''database'', database, [], []]"
    by (simp only: keys slice_split_nul [OF assms(1)] slice_split_nul [OF assms(3)] slice_split.simps refl if_True)
  then have "startup_parameter_loop (slice_split (''user'' @ CHR 0x00 # user @ CHR 0x00 # ''database'' @ CHR 0x00 #
      database @ CHR 0x00 # [CHR 0x00])) key = startup_parameter_loop [''user'', user, ''database'', database, [], []] key"
    by (simp only:)
  also have "\<dots> = (if key = ''user'' then Some user else if key = ''database'' then Some database else None)"
    using assms(2,4) by (auto simp: from_utf8_def)
  finally show ?thesis .
qed

text \<open>
  C38. The start-up message the proxy builds is accepted by its own frontend codec as one
  start-up frame with nothing left over, and the parameters read from it are exactly the user and
  the database it was built for.
\<close>

theorem startup_message_roundtrip:
  assumes "startup_message_build user database = Inr msg"
    and "CHR 0x00 \<notin> set user" "utf8_valid user" "CHR 0x00 \<notin> set database" "utf8_valid database"
  shows "frontend_decode PgStartup msg = (DecItem (PgMessage FtStartup msg), PgQuery, []) \<and>
    startup_message_parameter msg key =
      (if key = ''user'' then Some user else if key = ''database'' then Some database else None)"
proof -
  define params where "params = ''user'' @ CHR 0x00 # user @ CHR 0x00 # ''database'' @ CHR 0x00 # database @ CHR 0x00 # [CHR 0x00]"
  define n where "n = 25 + length user + length database"
  have len: "length params + 8 = n" by (simp add: params_def n_def)
  have small: "n < 2 ^ 31" and "msg = put_i32 (int n) @ put_i32 196608 @ params"
    using assms(1) by (auto simp: startup_message_build_def Let_def params_def n_def i32_try_from_def add.assoc split: if_splits)
  then have msg: "msg = put_i32 (int n) @ (put_i16 3 @ put_i16 0) @ params"
    by (simp only: protocol_version append_assoc)
  have n: "get_i32 msg = int n" "length msg = n" using small len by (simp_all add: msg)
  have code: "get_i16 (drop 4 msg) = 3" "get_i16 (drop 6 msg) = 0" by (simp_all add: msg)
  define pre where
    "pre = put_i32 (int n) @ (put_i16 3 @ put_i16 0) @ ''user'' @ CHR 0x00 # user @ CHR 0x00 # ''database'' @ CHR 0x00 # database"
  have "msg = pre @ [CHR 0x00, CHR 0x00]" "length pre = n - 2" "2 \<le> n"
    by (simp_all add: msg pre_def params_def n_def)
  then have final: "\<not> n < 2" "get_i16 (drop (n - 2) msg) = 0"
    by (simp_all add: get_i16_def be_decode_def to_signed_def)
  have "8 \<le> length msg" "msg \<noteq> []" using n(2) len by auto
  then have "frontend_decode PgStartup msg = (DecItem (PgMessage FtStartup msg), PgQuery, [])"
    using n code final
    by (simp add: frontend_decode_eq frontend_startup_decode_eq usize_try_from_def)
  moreover have "startup_message_parameter msg key =
      (if key = ''user'' then Some user else if key = ''database'' then Some database else None)"
    using startup_parameters [OF assms(2-5), of key, folded params_def]
    by (simp add: startup_message_parameter_def msg)
  ultimately show ?thesis by simp
qed

theorem startup_message_roundtrip_witness:
  "\<exists>msg. startup_message_build ''u'' ''d'' = Inr msg \<and> startup_message_parameter msg ''database'' = Some ''d''"
proof -
  obtain msg where msg: "startup_message_build ''u'' ''d'' = Inr msg"
    by (simp add: startup_message_build_def i32_try_from_def)
  have "startup_message_parameter msg ''database'' = Some ''d''"
    using startup_message_roundtrip [OF msg, of "''database''"] by (simp add: utf8_valid_ascii)
  with msg show ?thesis by blast
qed

subsection \<open>Rows of a text result\<close>

definition row_bytes :: "string option \<Rightarrow> string" where
  "row_bytes v = frame data_row_tag (put_i16 1 @ value_bytes v)"

lemma writes_row [writes_intros]:
  "writes (data_row_text_encode v) (row_bytes v) (value_ok v \<and> 6 + length (value_bytes v) < 2 ^ 31)"
  by (auto simp: writes_def data_row_text_encode_def row_bytes_def value_ok_def frame_def value_bytes_def message_length_def i32_try_from_def Let_def
      writer_fail_def writer_then_def put_bytes_def split: option.splits if_splits)

lemma first_column_row:
  assumes "value_ok v" "\<And>s. v = Some s \<Longrightarrow> utf8_valid s"
  shows "data_row_first_column (row_bytes v) = v"
  using assms by (cases v) (auto simp: data_row_first_column_def row_bytes_def frame_def value_bytes_def value_ok_def Let_def from_utf8_def)

lemma first_columns_rows:
  assumes "\<forall>v\<in>set vs. (value_ok v \<and> 6 + length (value_bytes v) < 2 ^ 31) \<and> (\<forall>s. v = Some s \<longrightarrow> utf8_valid s)"
  shows "first_columns_loop (pre @ concat (map row_bytes vs)) (length pre) out = out @ map the (filter (\<lambda>v. v \<noteq> None) vs)"
  using assms
proof (induction vs arbitrary: pre out)
  case Nil
  show ?case by (simp add: first_columns_loop.simps)
next
  case (Cons v vs)
  define row where "row = row_bytes v"
  define data where "data = pre @ row @ concat (map row_bytes vs)"
  define body where "body = put_i16 1 @ value_bytes v"
  have row: "row = data_row_tag # put_i32 (int (4 + length body)) @ body" "4 + length body < 2 ^ 31"
    using Cons.prems by (simp_all add: row_def row_bytes_def frame_def body_def)
  have word: "get_i32 (drop (length pre + 1) data) = int (4 + length body)"
    using row(2) by (simp add: data_def row(1))
  have shape: "\<not> (length data \<le> length pre \<or> data ! length pre \<noteq> data_row_tag)" "\<not> length data < length pre + 5"
    "\<not> length data < length pre + 1 + (4 + length body)"
    by (simp_all add: data_def row(1) nth_append)
  have msg_end: "length pre + 1 + (4 + length body) = length (pre @ row)" by (simp add: row(1))
  have slice: "take (length (pre @ row) - length pre) (drop (length pre) data) = row" by (simp add: data_def)
  have col: "data_row_first_column row = v" using Cons.prems unfolding row_def by (intro first_column_row) auto
  have "first_columns_loop data (length pre) out =
      first_columns_loop data (length (pre @ row)) (case v of None \<Rightarrow> out | Some c \<Rightarrow> out @ [c])"
    by (subst first_columns_loop.simps)
      (simp only: if_not_P [OF shape(1)] if_not_P [OF shape(2)] if_not_P [OF shape(3) [unfolded msg_end]] word usize_try_from_def
        of_nat_less_0_iff if_False nat_int option.case Let_def msg_end slice col)
  also have "\<dots> = (case v of None \<Rightarrow> out | Some c \<Rightarrow> out @ [c]) @ map the (filter (\<lambda>v. v \<noteq> None) vs)"
    using Cons.IH [of "pre @ row"] Cons.prems by (simp add: data_def)
  finally show ?case by (cases v) (simp_all add: data_def row_def)
qed

text \<open>
  C37. The rows of a text result survive their batch: of any list of values (NULLs included) that
  is encoded row by row into one buffer, \<open>data_rows_first_columns\<close> returns every value that is not
  NULL, in order and unchanged, after the values it was given.
\<close>

theorem text_rows_roundtrip:
  assumes "writer_all (map data_row_text_encode vs) buf = (out, Inr u)" "\<forall>s. Some s \<in> set vs \<longrightarrow> utf8_valid s"
  shows "data_rows_first_columns (drop (length buf) out) acc = acc @ map the (filter (\<lambda>v. v \<noteq> None) vs)"
proof -
  have "writes (writer_all (map data_row_text_encode vs)) (concat (map row_bytes vs))
      (\<forall>v\<in>set vs. value_ok v \<and> 6 + length (value_bytes v) < 2 ^ 31)"
    by (rule writes_all_map) (rule writes_row)
  from this [unfolded writes_def, rule_format, OF assms(1)]
  have out: "out = buf @ concat (map row_bytes vs)"
    and "\<forall>v\<in>set vs. (value_ok v \<and> 6 + length (value_bytes v) < 2 ^ 31) \<and> (\<forall>s. v = Some s \<longrightarrow> utf8_valid s)"
    using assms(2) by auto
  from first_columns_rows [OF this(2), of "[]" acc] show ?thesis by (simp add: data_rows_first_columns_def out)
qed

theorem text_rows_roundtrip_witness:
  "\<exists>out. writer_all (map data_row_text_encode [Some ''a'', None, Some ''bc'']) [] = (out, Inr ()) \<and>
     data_rows_first_columns out [] = [''a'', ''bc'']"
proof -
  obtain out where out: "writer_all (map data_row_text_encode [Some ''a'', None, Some ''bc'']) [] = (out, Inr ())"
    by (simp add: data_row_text_encode_def message_length_def i32_try_from_def Let_def writer_then_def put_bytes_def)
  from text_rows_roundtrip [OF out, of "[]"] out show ?thesis by (simp add: utf8_valid_ascii)
qed

end
