(* ===== verification/Write_Queue.thy ===== *)
theory Write_Queue
  imports Prelude
begin

text \<open>
  The queue of response chunks waiting to be written to a client
  (\<^verbatim>\<open>src/cache/write_queue.rs\<close>): a ring of eight slots and a heap queue that takes every push
  once the ring has overflowed.

  A chunk is a \<^typ>\<open>string\<close> of bytes. \<open>inline_get\<close> is \<^verbatim>\<open>slice::get\<close>, so the branches for an index
  outside the ring are kept, although the invariant shows that they are not taken. The loop of
  \<open>advance\<close> is a terminating recursion; its debug assertion (not past the end) holds in
  every run considered, because a writer accepts at most the bytes it was offered.

  The locale \<open>chunk_queue\<close> is what a writer of the response relies on: pushed bytes come out once,
  in order. It is interpreted on the ring.
\<close>

subsection \<open>The queue\<close>

definition inline_cap :: nat where "inline_cap = 8"

record write_queue =
  wq_inline :: "string list"
  wq_head :: nat
  wq_len :: nat
  wq_spill :: "string list"

definition inline_get :: "write_queue \<Rightarrow> nat \<Rightarrow> string option" where
  "inline_get q i = (if i < length (wq_inline q) then Some (wq_inline q ! i) else None)"

definition wq_new :: write_queue where
  "wq_new = \<lparr>wq_inline = replicate inline_cap [], wq_head = 0, wq_len = 0, wq_spill = []\<rparr>"

definition wq_push :: "write_queue \<Rightarrow> string \<Rightarrow> write_queue" where
  "wq_push q buf =
     (if buf = [] then q
      else if wq_spill q = [] \<and> wq_len q < inline_cap then
        (let idx = (wq_head q + wq_len q) mod inline_cap in
         case inline_get q idx of
           Some _ \<Rightarrow> q\<lparr>wq_inline := (wq_inline q)[idx := buf], wq_len := wq_len q + 1\<rparr>
         | None \<Rightarrow> q\<lparr>wq_spill := wq_spill q @ [buf]\<rparr>)
      else q\<lparr>wq_spill := wq_spill q @ [buf]\<rparr>)"

definition wq_is_empty :: "write_queue \<Rightarrow> bool" where
  "wq_is_empty q \<longleftrightarrow> wq_len q = 0 \<and> wq_spill q = []"

definition wq_clear :: "write_queue \<Rightarrow> write_queue" where
  "wq_clear q = q\<lparr>wq_inline := map (\<lambda>_. []) (wq_inline q), wq_head := 0, wq_len := 0, wq_spill := []\<rparr>"

definition wq_front :: "write_queue \<Rightarrow> string option" where
  "wq_front q =
     (if wq_len q > 0 then inline_get q (wq_head q)
      else (case wq_spill q of [] \<Rightarrow> None | b # _ \<Rightarrow> Some b))"

text \<open>The assignment through the reference \<open>front_mut\<close> returns.\<close>

definition wq_front_set :: "write_queue \<Rightarrow> string \<Rightarrow> write_queue" where
  "wq_front_set q b =
     (if wq_len q > 0 then q\<lparr>wq_inline := (wq_inline q)[wq_head q := b]\<rparr>
      else q\<lparr>wq_spill := b # tl (wq_spill q)\<rparr>)"

definition wq_pop_front :: "write_queue \<Rightarrow> write_queue" where
  "wq_pop_front q =
     (if wq_len q > 0 then
        q\<lparr>wq_inline := (case inline_get q (wq_head q) of Some _ \<Rightarrow> (wq_inline q)[wq_head q := []] | None \<Rightarrow> wq_inline q),
          wq_head := (wq_head q + 1) mod inline_cap, wq_len := wq_len q - 1\<rparr>
      else q\<lparr>wq_spill := tl (wq_spill q)\<rparr>)"

definition wq_slots :: "write_queue \<Rightarrow> string option list" where
  "wq_slots q = map (\<lambda>i. inline_get q ((wq_head q + i) mod inline_cap)) [0..<wq_len q]"

definition wq_remaining :: "write_queue \<Rightarrow> nat" where
  "wq_remaining q =
     sum_list (map length (List.map_filter (\<lambda>s. s) (wq_slots q))) + sum_list (map length (wq_spill q))"

definition wq_chunk :: "write_queue \<Rightarrow> string" where
  "wq_chunk q =
     (if wq_len q > 0 then (case inline_get q (wq_head q) of None \<Rightarrow> [] | Some b \<Rightarrow> b)
      else (case wq_spill q of [] \<Rightarrow> [] | b # _ \<Rightarrow> b))"

lemma wq_front_pos: "wq_front q = Some b \<Longrightarrow> 0 < wq_len q + length (wq_spill q)"
  by (auto simp: wq_front_def split: if_splits list.splits)

lemma wq_pop_front_size:
  "wq_front q = Some b \<Longrightarrow>
     wq_len (wq_pop_front (wq_front_set q c)) + length (wq_spill (wq_pop_front (wq_front_set q c))) < wq_len q + length (wq_spill q)"
  by (auto simp: wq_front_def wq_front_set_def wq_pop_front_def split: if_splits list.splits)

function wq_advance :: "write_queue \<Rightarrow> nat \<Rightarrow> write_queue" where
  "wq_advance q cnt =
     (if cnt = 0 then q
      else (case wq_front q of
              None \<Rightarrow> q
            | Some front \<Rightarrow>
                (let n = min cnt (length front); q' = wq_front_set q (drop n front) in
                 wq_advance (if drop n front = [] then wq_pop_front q' else q') (cnt - n))))"
  by auto

termination
proof (relation "measures [\<lambda>(q, cnt). cnt, \<lambda>(q, cnt). wq_len q + length (wq_spill q)]", goal_cases)
  case (2 q cnt front n q')
  then show ?case using wq_pop_front_size [of q front] by (cases "front = []") auto
qed simp

declare wq_advance.simps [simp del]

fun vectored_fill :: "string option list \<Rightarrow> nat \<Rightarrow> string list" where
  "vectored_fill [] room = []"
| "vectored_fill (None # bs) room = []"
| "vectored_fill (Some b # bs) room = (if room = 0 then [] else b # vectored_fill bs (room - 1))"

definition wq_chunks_vectored :: "write_queue \<Rightarrow> nat \<Rightarrow> string list" where
  "wq_chunks_vectored q room = vectored_fill (wq_slots q @ map Some (wq_spill q)) room"

subsection \<open>The ring\<close>

definition wq_live :: "write_queue \<Rightarrow> string list" where
  "wq_live q = map (\<lambda>i. wq_inline q ! ((wq_head q + i) mod inline_cap)) [0..<wq_len q] @ wq_spill q"

definition wq_bytes :: "write_queue \<Rightarrow> string" where
  "wq_bytes q = concat (wq_live q)"

text \<open>Well-formed: the indices fit the ring, no dead slot holds bytes and no live chunk is empty.\<close>

definition ring_ok :: "write_queue \<Rightarrow> bool" where
  "ring_ok q \<longleftrightarrow> length (wq_inline q) = inline_cap \<and> wq_head q < inline_cap \<and> wq_len q \<le> inline_cap \<and>
     (\<forall>i<inline_cap. wq_len q \<le> i \<longrightarrow> wq_inline q ! ((wq_head q + i) mod inline_cap) = [])"

definition wq_ok :: "write_queue \<Rightarrow> bool" where
  "wq_ok q \<longleftrightarrow> ring_ok q \<and> [] \<notin> set (wq_live q)"

lemma inline_cap_pos [simp]: "0 < inline_cap"
  by (simp add: inline_cap_def)

lemma ring_inj:
  assumes "i < inline_cap" "j < inline_cap" "(h + i) mod inline_cap = (h + j) mod inline_cap"
  shows "i = j"
proof -
  have "(i + h) mod inline_cap = (j + h) mod inline_cap" using assms(3) by (simp add: add.commute)
  then have "i mod inline_cap = j mod inline_cap" by (simp add: mod_add_cong nat_mod_eq_iff)
  with assms(1,2) show ?thesis by simp
qed

lemma inline_get_ring: "ring_ok q \<Longrightarrow> inline_get q (i mod inline_cap) = Some (wq_inline q ! (i mod inline_cap))"
  by (simp add: ring_ok_def inline_get_def)

lemma head_mod: "ring_ok q \<Longrightarrow> wq_head q mod inline_cap = wq_head q"
  by (simp add: ring_ok_def)

lemma inline_get_head: "ring_ok q \<Longrightarrow> inline_get q (wq_head q) = Some (wq_inline q ! wq_head q)"
  using inline_get_ring [of q "wq_head q"] by (simp add: head_mod)

lemma wq_live_Cons:
  assumes "ring_ok q" "0 < wq_len q"
  shows "wq_live q = wq_inline q ! wq_head q #
    map (\<lambda>i. wq_inline q ! ((wq_head q + Suc i) mod inline_cap)) [0..<wq_len q - 1] @ wq_spill q"
proof -
  obtain k where k: "wq_len q = Suc k" using assms(2) by (cases "wq_len q") auto
  show ?thesis
    unfolding wq_live_def k by (subst upt_conv_Cons) (simp_all add: head_mod [OF assms(1)] map_Suc_upt [symmetric] comp_def del: upt_Suc)
qed

lemma wq_front_live:
  assumes "ring_ok q"
  shows "wq_front q = (case wq_live q of [] \<Rightarrow> None | b # _ \<Rightarrow> Some b)"
proof (cases "wq_len q = 0")
  case True
  then show ?thesis by (simp add: wq_front_def wq_live_def)
next
  case False
  then show ?thesis using wq_live_Cons [OF assms] inline_get_head [OF assms] by (simp add: wq_front_def)
qed

lemma wq_front_set_live:
  assumes "ring_ok q" "wq_live q = b # bs"
  shows "ring_ok (wq_front_set q c) \<and> wq_live (wq_front_set q c) = c # bs"
proof (cases "wq_len q = 0")
  case True
  then show ?thesis using assms by (auto simp: wq_front_set_def ring_ok_def wq_live_def)
next
  case False
  define q' where "q' = wq_front_set q c"
  have q': "wq_inline q' = (wq_inline q)[wq_head q := c]" "wq_head q' = wq_head q" "wq_len q' = wq_len q" "wq_spill q' = wq_spill q"
    using False by (simp_all add: q'_def wq_front_set_def)
  have other: "wq_inline q' ! ((wq_head q + i) mod inline_cap) = wq_inline q ! ((wq_head q + i) mod inline_cap)"
    if "0 < i" "i < inline_cap" for i
  proof -
    have "(wq_head q + i) mod inline_cap \<noteq> wq_head q"
      using ring_inj [of i 0 "wq_head q"] that head_mod [OF assms(1)] by auto
    then show ?thesis by (simp add: q'(1))
  qed
  have len: "wq_len q \<le> inline_cap" using assms(1) by (simp add: ring_ok_def)
  have ok: "ring_ok q'"
    using assms(1) False other unfolding ring_ok_def q' by (auto simp: q'(1))
  have "wq_live q' = c # bs"
    using wq_live_Cons [OF ok] wq_live_Cons [OF assms(1)] assms(2) False len other [of "Suc i" for i] assms(1) [unfolded ring_ok_def]
    by (auto simp: q')
  with ok show ?thesis by (simp add: q'_def)
qed

lemma wq_pop_front_live:
  assumes "ring_ok q" "wq_live q = b # bs"
  shows "ring_ok (wq_pop_front q) \<and> wq_live (wq_pop_front q) = bs"
proof (cases "wq_len q = 0")
  case True
  then show ?thesis using assms by (auto simp: wq_pop_front_def ring_ok_def wq_live_def)
next
  case False
  define q' where "q' = wq_pop_front q"
  have q': "wq_inline q' = (wq_inline q)[wq_head q := []]" "wq_head q' = (wq_head q + 1) mod inline_cap"
    "wq_len q' = wq_len q - 1" "wq_spill q' = wq_spill q"
    using False inline_get_head [OF assms(1)] by (simp_all add: q'_def wq_pop_front_def)
  have len: "wq_len q \<le> inline_cap" "wq_head q < length (wq_inline q)" using assms(1) by (simp_all add: ring_ok_def)
  have slot: "(wq_head q' + i) mod inline_cap = (wq_head q + Suc i) mod inline_cap" for i
    by (simp add: q' mod_add_left_eq)
  have other: "wq_inline q' ! ((wq_head q' + i) mod inline_cap) = wq_inline q ! ((wq_head q + Suc i) mod inline_cap)"
    if "Suc i < inline_cap" for i
  proof -
    have "(wq_head q + Suc i) mod inline_cap \<noteq> wq_head q"
      using ring_inj [of "Suc i" 0 "wq_head q"] that head_mod [OF assms(1)] by auto
    then show ?thesis unfolding slot by (simp add: q'(1))
  qed
  have freed: "wq_inline q' ! ((wq_head q' + i) mod inline_cap) = []" if "Suc i = inline_cap" for i
    unfolding slot that using len head_mod [OF assms(1)] by (simp add: q'(1))
  have ok: "ring_ok q'"
    unfolding ring_ok_def
  proof (intro conjI allI impI)
    fix i
    assume i: "i < inline_cap" "wq_len q' \<le> i"
    show "wq_inline q' ! ((wq_head q' + i) mod inline_cap) = []"
    proof (cases "Suc i = inline_cap")
      case True
      then show ?thesis by (rule freed)
    next
      case False
      with i have "Suc i < inline_cap" "wq_len q \<le> Suc i" by (simp_all add: q')
      with assms(1) have "wq_inline q ! ((wq_head q + Suc i) mod inline_cap) = []" unfolding ring_ok_def by blast
      with other [OF \<open>Suc i < inline_cap\<close>] show ?thesis by (simp only:)
    qed
  qed (use assms(1) len in \<open>simp_all add: q' ring_ok_def\<close>)
  have "wq_live q' = bs"
    using assms(2) wq_live_Cons [OF assms(1)] False other len by (auto simp: wq_live_def q'(3,4))
  with ok show ?thesis by (simp add: q'_def)
qed

lemma wq_push_live:
  assumes "ring_ok q" "b \<noteq> []"
  shows "ring_ok (wq_push q b) \<and> wq_live (wq_push q b) = wq_live q @ [b]"
proof (cases "wq_spill q = [] \<and> wq_len q < inline_cap")
  case False
  then show ?thesis using assms by (auto simp: wq_push_def ring_ok_def wq_live_def)
next
  case True
  define idx where "idx = (wq_head q + wq_len q) mod inline_cap"
  have push: "wq_push q b = q\<lparr>wq_inline := (wq_inline q)[idx := b], wq_len := wq_len q + 1\<rparr>"
    using True assms inline_get_ring [OF assms(1)] by (simp add: wq_push_def Let_def idx_def)
  have len: "idx < length (wq_inline q)" using assms(1) by (simp add: idx_def ring_ok_def)
  have other: "(wq_inline q)[idx := b] ! ((wq_head q + i) mod inline_cap) = wq_inline q ! ((wq_head q + i) mod inline_cap)"
    if "i \<noteq> wq_len q" "i < inline_cap" for i
  proof -
    have "(wq_head q + i) mod inline_cap \<noteq> idx" using ring_inj [of i "wq_len q" "wq_head q"] that True by (auto simp: idx_def)
    then show ?thesis by simp
  qed
  have at: "(wq_inline q)[idx := b] ! ((wq_head q + wq_len q) mod inline_cap) = b"
    using len by (simp add: idx_def)
  show ?thesis
    using assms(1) True other at unfolding push by (auto simp: ring_ok_def wq_live_def)
qed


lemma wq_slots_live:
  assumes "ring_ok q"
  shows "wq_slots q @ map Some (wq_spill q) = map Some (wq_live q)"
  using inline_get_ring [OF assms] by (simp add: wq_slots_def wq_live_def)

lemma vectored_fill_Some: "vectored_fill (map Some bs) room = take room bs"
proof (induction bs arbitrary: room)
  case (Cons b bs)
  then show ?case by (cases room) simp_all
qed simp

lemma wq_chunks_vectored_live: "ring_ok q \<Longrightarrow> wq_chunks_vectored q room = take room (wq_live q)"
  unfolding wq_chunks_vectored_def by (simp only: wq_slots_live vectored_fill_Some)

lemma wq_remaining_bytes:
  assumes "ring_ok q"
  shows "wq_remaining q = length (wq_bytes q)"
proof -
  have "List.map_filter (\<lambda>s. s) (wq_slots q) @ wq_spill q = wq_live q"
    using inline_get_ring [OF assms] by (simp add: wq_slots_def wq_live_def map_filter_def comp_def)
  from this [symmetric] show ?thesis by (simp add: wq_remaining_def wq_bytes_def length_concat)
qed

lemma wq_is_empty_live: "ring_ok q \<Longrightarrow> wq_is_empty q \<longleftrightarrow> wq_live q = []"
  by (simp add: wq_is_empty_def wq_live_def)

lemma wq_chunk_front: "wq_chunk q = (case wq_front q of None \<Rightarrow> [] | Some b \<Rightarrow> b)"
  by (simp add: wq_chunk_def wq_front_def split: list.splits)

lemma wq_clear_new: "ring_ok q \<Longrightarrow> wq_clear q = wq_new"
  by (simp add: wq_clear_def wq_new_def ring_ok_def map_replicate_const)

lemma wq_new_ok: "wq_ok wq_new" "wq_bytes wq_new = []"
  by (simp_all add: wq_ok_def ring_ok_def wq_new_def wq_live_def wq_bytes_def)

lemma wq_push_ok:
  assumes "wq_ok q"
  shows "wq_ok (wq_push q b) \<and> wq_bytes (wq_push q b) = wq_bytes q @ b"
proof (cases "b = []")
  case True
  with assms show ?thesis by (simp add: wq_push_def)
next
  case False
  with assms wq_push_live [of q b] show ?thesis by (simp add: wq_ok_def wq_bytes_def)
qed

lemma wq_advance_ok:
  "wq_ok q \<Longrightarrow> cnt \<le> length (wq_bytes q) \<Longrightarrow>
     wq_ok (wq_advance q cnt) \<and> wq_bytes (wq_advance q cnt) = drop cnt (wq_bytes q)"
proof (induction q cnt rule: wq_advance.induct)
  case (1 q cnt)
  have ring: "ring_ok q" using "1.prems"(1) by (simp add: wq_ok_def)
  show ?case
  proof (cases "cnt = 0")
    case True
    with "1.prems" show ?thesis by (simp add: wq_advance.simps [of q])
  next
    case False
    with "1.prems"(2) obtain b bs where live: "wq_live q = b # bs"
      by (cases "wq_live q") (auto simp: wq_bytes_def)
    have front: "wq_front q = Some b" using wq_front_live [OF ring] live by simp
    have clean: "b \<noteq> []" "[] \<notin> set bs" using "1.prems"(1) live by (auto simp: wq_ok_def)
    define n where "n = min cnt (length b)"
    define q' where "q' = wq_front_set q (drop n b)"
    define q1 where "q1 = (if drop n b = [] then wq_pop_front q' else q')"
    have q': "ring_ok q'" "wq_live q' = drop n b # bs"
      using wq_front_set_live [OF ring live] by (simp_all add: q'_def)
    have q1: "wq_ok q1" "wq_bytes q1 = drop n b @ concat bs"
      using q' wq_pop_front_live [OF q'] clean by (auto simp: q1_def wq_ok_def wq_bytes_def)
    have bytes: "wq_bytes q = b @ concat bs" by (simp add: wq_bytes_def live)
    have step: "wq_advance q cnt = wq_advance q1 (cnt - n)"
      by (subst wq_advance.simps) (simp add: False front n_def q'_def q1_def Let_def)
    have n: "n \<le> length b" "n \<le> cnt" by (simp_all add: n_def)
    have "cnt - n \<le> length (wq_bytes q1)" using "1.prems"(2) n by (simp add: q1(2) bytes n_def)
    with "1.IH" [OF False front n_def q'_def] q1(1)
    have IH: "wq_ok (wq_advance q1 (cnt - n)) \<and> wq_bytes (wq_advance q1 (cnt - n)) = drop (cnt - n) (wq_bytes q1)"
      by (simp add: q1_def)
    have "drop (cnt - n) (drop n b @ concat bs) = drop cnt (b @ concat bs)" using n by simp
    with IH show ?thesis unfolding step bytes q1(2) by simp
  qed
qed

subsection \<open>The contract of the queue\<close>

text \<open>
  A writer pushes chunks and, at any time, is offered the first \<open>room\<close> chunks and accepts any
  number \<open>n\<close> of their bytes. \<open>queue_run\<close> keeps the bytes accepted so far.
\<close>

datatype queue_op = QPush string | QWrite nat nat

fun queue_step :: "('q \<Rightarrow> string \<Rightarrow> 'q) \<Rightarrow> ('q \<Rightarrow> nat \<Rightarrow> string list) \<Rightarrow> ('q \<Rightarrow> nat \<Rightarrow> 'q) \<Rightarrow> queue_op \<Rightarrow> string \<times> 'q \<Rightarrow> string \<times> 'q" where
  "queue_step push vectored advance (QPush b) (out, q) = (out, push q b)"
| "queue_step push vectored advance (QWrite room n) (out, q) =
     (let accepted = take n (concat (vectored q room)) in (out @ accepted, advance q (length accepted)))"

fun pushed :: "queue_op list \<Rightarrow> string" where
  "pushed [] = []"
| "pushed (QPush b # ops) = b @ pushed ops"
| "pushed (QWrite room n # ops) = pushed ops"

locale chunk_queue =
  fixes push :: "'q \<Rightarrow> string \<Rightarrow> 'q"
    and vectored :: "'q \<Rightarrow> nat \<Rightarrow> string list"
    and advance :: "'q \<Rightarrow> nat \<Rightarrow> 'q"
    and ok :: "'q \<Rightarrow> bool"
    and bytes :: "'q \<Rightarrow> string"
  assumes push_ok: "ok q \<Longrightarrow> ok (push q b) \<and> bytes (push q b) = bytes q @ b"
    and advance_ok: "ok q \<Longrightarrow> cnt \<le> length (bytes q) \<Longrightarrow> ok (advance q cnt) \<and> bytes (advance q cnt) = drop cnt (bytes q)"
    and offered: "ok q \<Longrightarrow> \<exists>later. bytes q = concat (vectored q room) @ later"
begin

lemma step_fifo:
  assumes "ok q" "queue_step push vectored advance op (out, q) = (out', q')"
  shows "ok q' \<and> out' @ bytes q' = (out @ bytes q) @ pushed [op]"
proof (cases op)
  case (QPush b)
  with assms push_ok show ?thesis by auto
next
  case (QWrite room n)
  define accepted where "accepted = take n (concat (vectored q room))"
  from offered [OF assms(1), of room] obtain later where "bytes q = concat (vectored q room) @ later" ..
  then have split: "bytes q = accepted @ drop n (concat (vectored q room)) @ later"
    by (simp add: accepted_def)
  have q': "out' = out @ accepted" "q' = advance q (length accepted)"
    using assms(2) QWrite by (simp_all add: accepted_def Let_def)
  have "length accepted \<le> length (bytes q)" using split by simp
  with advance_ok [OF assms(1)] have "ok q'" "bytes q' = drop (length accepted) (bytes q)" by (simp_all add: q')
  then show ?thesis using split QWrite by (simp add: q')
qed

lemma run_fifo:
  "ok q \<Longrightarrow> fold (queue_step push vectored advance) ops (out, q) = (out', q') \<Longrightarrow>
     ok q' \<and> out' @ bytes q' = (out @ bytes q) @ pushed ops"
proof (induction ops arbitrary: out q)
  case (Cons op ops)
  obtain out1 q1 where step: "queue_step push vectored advance op (out, q) = (out1, q1)"
    by (cases "queue_step push vectored advance op (out, q)")
  from step_fifo [OF Cons.prems(1) step] have s: "ok q1" "out1 @ bytes q1 = (out @ bytes q) @ pushed [op]" by simp_all
  have "pushed (op # ops) = pushed [op] @ pushed ops" by (cases op) simp_all
  with Cons.IH [OF s(1), of out1] Cons.prems(2) step s(2) show ?case by simp
qed simp

end

interpretation wq: chunk_queue wq_push wq_chunks_vectored wq_advance wq_ok wq_bytes
proof unfold_locales
  fix q room
  assume "wq_ok q"
  then show "\<exists>later. wq_bytes q = concat (wq_chunks_vectored q room) @ later"
    using append_take_drop_id [of room "wq_live q"] concat_append [of "take room (wq_live q)" "drop room (wq_live q)"]
    by (auto simp: wq_ok_def wq_chunks_vectored_live wq_bytes_def)
qed (simp_all add: wq_push_ok wq_advance_ok)

text \<open>
  C40. Whatever sequence of chunks is pushed into the write queue and however much of what it
  offers is accepted in between, the queue stays well-formed (the ring indices in range, no empty
  live chunk, no bytes kept in a dead slot) and the bytes accepted so far followed by the bytes
  still queued are exactly the bytes pushed, in order. In such a queue \<open>remaining\<close> is the number of
  queued bytes, an empty front chunk means an empty queue, a vectored write is offered the first
  live chunks, and \<open>clear\<close> gives the new queue.
\<close>

theorem write_queue_fifo:
  "let (out, q) = fold (queue_step wq_push wq_chunks_vectored wq_advance) ops ([], wq_new) in
     wq_ok q \<and> out @ wq_bytes q = pushed ops \<and> wq_remaining q = length (wq_bytes q) \<and>
     (wq_is_empty q \<longleftrightarrow> wq_bytes q = []) \<and> (wq_chunk q = [] \<longleftrightarrow> wq_is_empty q) \<and>
     wq_chunks_vectored q room = take room (wq_live q) \<and> wq_clear q = wq_new"
proof -
  obtain out q where run: "fold (queue_step wq_push wq_chunks_vectored wq_advance) ops ([], wq_new) = (out, q)"
    by (cases "fold (queue_step wq_push wq_chunks_vectored wq_advance) ops ([], wq_new)")
  from wq.run_fifo [OF wq_new_ok(1) run] have q: "wq_ok q" "out @ wq_bytes q = pushed ops"
    by (simp_all add: wq_new_ok(2))
  then have ring: "ring_ok q" and clean: "[] \<notin> set (wq_live q)" by (simp_all add: wq_ok_def)
  have "wq_bytes q = [] \<longleftrightarrow> wq_live q = []" using clean by (cases "wq_live q") (auto simp: wq_bytes_def)
  moreover have "wq_chunk q = [] \<longleftrightarrow> wq_live q = []"
    using clean by (cases "wq_live q") (auto simp: wq_chunk_front wq_front_live [OF ring])
  ultimately show ?thesis
    using q ring by (simp add: run wq_remaining_bytes wq_is_empty_live wq_chunks_vectored_live wq_clear_new)
qed

end
