(* ===== verification/Spec2Isabelle.thy ===== *)
theory Spec2Isabelle
  imports Invalidation Write_Tuples Write_Log Wire_Messages Write_Queue
begin

text \<open>
  \<^bold>\<open>pgcache\<close>, a caching proxy for PostgreSQL, in Isabelle/HOL.

  The proxy sits between clients and an origin database. A query whose result rows provably lie
  in rows that are already cached is answered from a cache database; everything else is relayed.
  The cached rows are kept current by change data capture: each row event of the origin is matched
  against the cached queries, which are updated or invalidated. The development models the parts
  of the program that take these decisions, the registry and the write log they read, and the
  byte-level protocol the proxy speaks on both sides. File names are below \<^verbatim>\<open>src/\<close>.

  \<^bold>\<open>From a query to its constraints.\<close> \<^verbatim>\<open>Literals\<close> has the literals, operators and casts
  (\<^verbatim>\<open>query/ast/types/expr.rs\<close>, \<^verbatim>\<open>query/cast.rs\<close>), \<^verbatim>\<open>Resolved\<close> the resolved query tree
  (\<^verbatim>\<open>query/resolved\<close>). \<^verbatim>\<open>Extract\<close> is \<^verbatim>\<open>query/constraints/extract.rs\<close>: the walk over a \<open>SELECT\<close>,
  \<open>analyze_query_constraints\<close>, and the propagation of constraints through column equalities.
  \<^verbatim>\<open>Extract_Sound\<close> evaluates a query on one row per range variable (a table with its alias, locale
  \<open>named_rows\<close>). The extracted constraints are necessary for a query with inner joins and no
  self-join, and exact for a completely analysed single-table query; propagation yields exactly
  the constraints reached along chains of column equalities. Lemmas at its end show on concrete
  queries that outer joins and self-joins have to be excluded.

  \<^bold>\<open>Ranges and subsumption.\<close> \<^verbatim>\<open>Ranges\<close> (\<^verbatim>\<open>query/constraints/range.rs\<close>) reduces the constraints
  of a column to a range and decides range subsumption; \<^verbatim>\<open>Range_Semantics\<close> gives ranges their
  meaning on column values and shows the reduction exact and the subsumption sound, once in the
  locales \<open>column_domain\<close> and \<open>ordered_domain\<close>, interpreted on integers, floats, booleans and text
  under a collation. \<^verbatim>\<open>Subsumption\<close> (\<^verbatim>\<open>subsume.rs\<close>) lifts this to tables. \<^verbatim>\<open>Range_Overlap\<close>
  (\<^verbatim>\<open>range_overlap.rs\<close>) is the opposite question, whether two predicates are disjoint, and its
  soundness.

  \<^bold>\<open>The constraint index.\<close> \<^verbatim>\<open>Value_Key\<close>, \<^verbatim>\<open>Column_Index\<close> and \<^verbatim>\<open>Constraint_Index\<close> are
  \<^verbatim>\<open>query/constraint_index\<close>: bucket keys, per-column containment structures, classes of entries,
  the region probe (which cached queries may subsume a new one) and the point probe (which cached
  queries a row may belong to). The index refines a finite map from ids to constraint lists
  (\<open>ix_rel\<close>, locale \<open>id_store\<close>); the lemmas show that neither probe misses an entry.

  \<^bold>\<open>Cached queries and their registry.\<close> \<^verbatim>\<open>Update_Queries\<close> (\<^verbatim>\<open>cache/update_query.rs\<close>) keeps the
  queries of a relation with derived sets and counters; the invariant \<open>uqs_inv\<close> says they equal a
  recomputation. \<^verbatim>\<open>Registry\<close> (\<^verbatim>\<open>cache/generation.rs\<close>, \<^verbatim>\<open>cache/types.rs\<close>, \<^verbatim>\<open>cache/writer\<close>,
  \<^verbatim>\<open>cache/admission\<close>) is the writer's state machine \<open>reg_step\<close>: the registration handler
  \<open>query_register\<close> with its subsumption check, readmission, limit bumps, failures, invalidation of
  a query or of a table, eviction, disk reclaim, the clean-up of stale entries and the promotion of
  rows to generation 0. Its invariants, by rule induction, say that the rows of a live query are
  not purged and that every relation in use is active. The flag \<open>once\<close> restricts the runs to those
  that do not register a live query again; only in these are the reference counts exact.

  \<^bold>\<open>Row events.\<close> \<^verbatim>\<open>Row_Values\<close> reads the wire text of a row and turns it into probe keys.
  \<^verbatim>\<open>Evaluate\<close> (\<^verbatim>\<open>query/evaluate.rs\<close>, \<^verbatim>\<open>query/predicate.rs\<close>) evaluates a \<open>WHERE\<close> clause on a row,
  compared with three-valued logic under a collation that is a parameter, and equates the compiled
  predicate with the evaluator.
  \<^verbatim>\<open>Row_Match\<close> (\<^verbatim>\<open>cache/writer/cdc/row_match.rs\<close>) matches rows with constraints and recognises
  harmless window moves; \<^verbatim>\<open>Invalidation\<close> (\<^verbatim>\<open>cache/writer/cdc/invalidation.rs\<close>) decides which queries
  an event invalidates, and shows that looking only at the narrowed candidates is exact.

  \<^bold>\<open>The write log.\<close> A connection's own writes must be visible to its reads before replication
  has delivered them. \<^verbatim>\<open>Write_Aggregate\<close>, \<^verbatim>\<open>Write_Tuples\<close> and \<^verbatim>\<open>Write_Log\<close>
  (\<^verbatim>\<open>proxy/connection/write_log\<close>, \<^verbatim>\<open>query/write.rs\<close>) summarise the pending writes per table, stamp and
  purge them by log positions, and let a read through only if it is disjoint from all of them. A
  run is a list of operations; the theorems are that no read misses a pending write, that the log
  is bounded, and that the gate reopens.

  \<^bold>\<open>The wire.\<close> \<^verbatim>\<open>Wire_Frames\<close> has the two codecs (\<^verbatim>\<open>pg/protocol/frontend.rs\<close>, \<^verbatim>\<open>backend.rs\<close>),
  \<^verbatim>\<open>Wire_Codec\<close> their contract over a stream of chunks, as the inductive relation \<open>codec_reads\<close> and
  the locales \<open>byte_codec\<close> and \<open>prefix_codec\<close>, with the splits and reads that panic on a short
  buffer modelled as such, and \<^verbatim>\<open>Wire_Messages\<close> the parsers and builders of
  messages (\<^verbatim>\<open>extended.rs\<close>, \<^verbatim>\<open>frontend_encode.rs\<close>, \<^verbatim>\<open>encode.rs\<close>) with their round trips.
  \<^verbatim>\<open>Write_Queue\<close> (\<^verbatim>\<open>cache/write_queue.rs\<close>) is the queue of response chunks, interpreted as a
  \<open>chunk_queue\<close>.

  \<^bold>\<open>Conventions.\<close> \<^verbatim>\<open>Prelude\<close> has the standard-library vocabulary. A struct is a record, an
  enum a datatype, with a prefix where names clash. An early return, an error or a panic is a value
  (\<open>None\<close>, \<open>Inl\<close>, \<open>DecPanic\<close>). A hash map is an association list, and a theorem about it holds for
  every iteration order that list stands for. A 64-bit integer is an \<^typ>\<open>int\<close> or \<^typ>\<open>nat\<close> with its
  range as a hypothesis where it matters; a float is an exact rational or an infinity, rounded
  where the code rounds; wire integers are two's complement over bytes.

  \<^bold>\<open>Bounds.\<close> There is no fuel: loops are structural recursions or functions with a termination
  proof (the fixpoint of constraint propagation, the batching and walking of data rows, UTF-8
  validation, the advance of the write queue). The one counter that may wrap is the generation
  counter of the registry; its theorems assume fewer than \<open>2 ^ 63\<close> steps.

  \<^bold>\<open>Not modelled.\<close> Socket and task code (relay, serve loop, population workers, replication
  stream), because it is asynchronous I/O around the decisions above. The conversion from the
  parser package's tree, name resolution and query rewriting: the model starts from the resolved
  query. SQL text generation and the statements sent to the cache database. The memo, the
  coalescing queue and the rate gates, which are shared through locks, relaxed atomics and the
  clock. Settings, TLS and telemetry. Collations other than the byte order enter only as a
  parameter of the text theorems.
\<close>

end
